(* ===== verification/Ipc_Prelude.thy ===== *)
theory Ipc_Prelude
  imports Main "HOL-Library.Word" "HOL-Library.Sublist"
begin

text \<open>
  Shared ground of the development: the machine types of a 64-bit target, the part of
  \<^verbatim>\<open>std::io::Error\<close> the crate looks at, decimal formatting, projections of tagged lists,
  and the one rule by which every step relation of the development proves an invariant.
\<close>

section \<open>Machine types and identifiers\<close>

type_synonym u8 = "8 word"
type_synonym u32 = "32 word"
type_synonym u64 = "64 word"
type_synonym usize = "64 word"

text \<open>Descriptors, heap addresses of shared allocations, and paths as byte strings.\<close>

type_synonym fd = nat
type_synonym addr = nat
type_synonym path = string

section \<open>Errors of the standard library\<close>

text \<open>
  The kinds of \<^verbatim>\<open>std::io::ErrorKind\<close> that the crate names, every other one under its
  discriminant; an error is an OS error (kind and errno), a bare kind, or a kind with a
  message.
\<close>

datatype error_kind =
    WouldBlock | BrokenPipe | InvalidInput | AddrInUse | UnexpectedEof | OtherKind nat

datatype io_error =
    OsError error_kind int | SimpleError error_kind | CustomError error_kind string

fun io_error_kind :: "io_error \<Rightarrow> error_kind" where
  "io_error_kind (OsError k _) = k"
| "io_error_kind (SimpleError k) = k"
| "io_error_kind (CustomError k _) = k"

text \<open>\<^verbatim>\<open>Result<T, E>\<close>, with the error on the left.\<close>

type_synonym ('a, 'e) result = "'e + 'a"

section \<open>Decimal formatting\<close>

fun show_nat :: "nat \<Rightarrow> string" where
  "show_nat n =
     (if n < 10 then [char_of (48 + n)] else show_nat (n div 10) @ [char_of (48 + n mod 10)])"

declare show_nat.simps [simp del]

lemma show_nat_nonempty [simp]: "show_nat n \<noteq> []"
  by (subst show_nat.simps) simp

fun read_nat :: "nat \<Rightarrow> string \<Rightarrow> nat" where
  "read_nat acc [] = acc"
| "read_nat acc (c # cs) = read_nat (10 * acc + (of_char c - 48)) cs"

lemma read_nat_append: "read_nat acc (xs @ ys) = read_nat (read_nat acc xs) ys"
  by (induction xs arbitrary: acc) auto

lemma of_char_digit [simp]: "d < 10 \<Longrightarrow> (of_char (char_of (48 + d :: nat)) :: nat) = 48 + d"
  by simp

lemma read_show_nat: "read_nat 0 (show_nat n) = n"
proof (induction n rule: show_nat.induct)
  case (1 n)
  show ?case
  proof (cases "n < 10")
    case True
    then show ?thesis by (subst show_nat.simps) simp
  next
    case False
    with "1.IH" have "read_nat 0 (show_nat (n div 10)) = n div 10" by simp
    with False show ?thesis
      by (subst show_nat.simps) (simp add: read_nat_append)
  qed
qed

lemma show_nat_inj: "show_nat a = show_nat b \<longleftrightarrow> a = b"
  by (metis read_show_nat)

section \<open>Counters of one machine word\<close>

named_theorems counter_simps \<open>reading a word counter as a natural number\<close>

lemma usize_inc [counter_simps]:
  fixes p :: usize
  assumes "unat p + 1 < 2 ^ 64"
  shows "unat (p + 1) = unat p + 1"
  using assms by (simp add: unat_word_ariths)

lemma usize_dec [counter_simps]:
  fixes p :: usize
  assumes "unat p \<noteq> 0"
  shows "unat (p - 1) = unat p - 1"
  using assms unat_minus_one [of p] by (metis unat_0)

lemma usize_zero [counter_simps]: "(p :: usize) = 0 \<longleftrightarrow> unat p = 0"
  by (simp add: unat_eq_zero)

section \<open>Lists tagged with the thread they came from\<close>

definition by_sender :: "'t \<Rightarrow> ('t \<times> 'm) list \<Rightarrow> 'm list" where
  "by_sender t xs = map snd (filter (\<lambda>x. fst x = t) xs)"

lemma by_sender_Nil [simp]: "by_sender t [] = []"
  by (simp add: by_sender_def)

lemma by_sender_Cons [simp]:
  "by_sender t (x # xs) = (if fst x = t then snd x # by_sender t xs else by_sender t xs)"
  by (simp add: by_sender_def)

lemma by_sender_append [simp]: "by_sender t (xs @ ys) = by_sender t xs @ by_sender t ys"
  by (simp add: by_sender_def)

lemma by_sender_not_in: "t \<notin> fst ` set xs \<Longrightarrow> by_sender t xs = []"
  by (auto simp: by_sender_def filter_empty_conv)

section \<open>Reachable states and invariants\<close>

inductive reach :: "'s \<Rightarrow> ('s \<Rightarrow> 's \<Rightarrow> bool) \<Rightarrow> 's \<Rightarrow> bool" for s0 stp where
  reach_init: "reach s0 stp s0"
| reach_step: "reach s0 stp s \<Longrightarrow> stp s t \<Longrightarrow> reach s0 stp t"

text \<open>
  The contract every machine of the development meets: an invariant that holds at the
  start and is kept by each step. It is interpreted once per machine, in the machine's
  own theory.
\<close>

locale state_machine =
  fixes s0 :: 's
    and stp :: "'s \<Rightarrow> 's \<Rightarrow> bool"
    and inv :: "'s \<Rightarrow> bool"
  assumes inv_init: "inv s0"
    and inv_step: "inv s \<Longrightarrow> stp s t \<Longrightarrow> inv t"
begin

lemma reach_inv: "reach s0 stp s \<Longrightarrow> inv s"
  by (induction rule: reach.induct) (auto intro: inv_init inv_step)

lemma run_inv: "inv s \<Longrightarrow> stp\<^sup>*\<^sup>* s t \<Longrightarrow> inv t"
  by (rotate_tac, induction rule: rtranclp_induct) (auto intro: inv_step)

end

lemma reach_rtranclp: "reach s0 stp s \<Longrightarrow> stp\<^sup>*\<^sup>* s t \<Longrightarrow> reach s0 stp t"
  by (rotate_tac, induction rule: rtranclp_induct) (auto intro: reach_step)

end
