(* ===== verification/Ipc_Ref.thy ===== *)
theory Ipc_Ref
  imports Ipc_Prelude
begin

text \<open>
  \<^verbatim>\<open>capability.rs\<close>, the data: the allocation \<^verbatim>\<open>RefInner\<close> behind a \<^verbatim>\<open>Ref\<close>, the
  store of such allocations with their strong counts (what \<^verbatim>\<open>Arc\<close> keeps), and the
  operations of a \<^verbatim>\<open>Ref\<close> that only look at that store: clone, identity, equality,
  hashing and the borrowed descriptor.
\<close>

text \<open>\<^verbatim>\<open>SocketId\<close>: the device of a socket's inode, and the inode.\<close>

type_synonym SocketId = "u64 \<times> u64"

text \<open>
  \<^verbatim>\<open>RefInner\<close>. The type of the outbox is a parameter, since an outbox holds messages
  and messages hold references. A runtime handle is opaque; the death watch is the
  duplicated descriptor it registered.
\<close>

record 'o ref_inner =
  ri_fd :: fd
  ri_id :: "SocketId option"
  ri_runtime :: "nat option"
  ri_outbox :: "'o option"
  ri_death :: "fd option"

text \<open>\<^verbatim>\<open>RefInner::new\<close>; the current runtime, if there is one, is read here.\<close>

definition ref_inner_new :: "nat option \<Rightarrow> fd \<Rightarrow> SocketId option \<Rightarrow> 'o ref_inner" where
  "ref_inner_new current_runtime f i =
     \<lparr>ri_fd = f, ri_id = i, ri_runtime = current_runtime, ri_outbox = None, ri_death = None\<rparr>"

text \<open>An \<^verbatim>\<open>Arc\<close> allocation: the strong count and the value.\<close>

record 'o ref_cell =
  strong :: nat
  inner :: "'o ref_inner"

type_synonym 'o ref_heap = "addr \<rightharpoonup> 'o ref_cell"

definition strong_count :: "'o ref_heap \<Rightarrow> addr \<Rightarrow> nat" where
  "strong_count h a = (case h a of None \<Rightarrow> 0 | Some c \<Rightarrow> strong c)"

text \<open>\<^verbatim>\<open>Ref: Clone\<close> is \<^verbatim>\<open>Arc::clone\<close>: the same allocation, one more strong reference.\<close>

definition ref_clone :: "addr \<Rightarrow> 'o ref_heap \<Rightarrow> 'o ref_heap" where
  "ref_clone a h = (case h a of None \<Rightarrow> h | Some c \<Rightarrow> h(a \<mapsto> c\<lparr>strong := Suc (strong c)\<rparr>))"

text \<open>\<^verbatim>\<open>Ref::identity\<close> is the address; \<^verbatim>\<open>is_same\<close>, \<^verbatim>\<open>==\<close> and \<^verbatim>\<open>Hash\<close> all read it.\<close>

definition ref_identity :: "addr \<Rightarrow> addr" where
  "ref_identity r = r"

definition ref_is_same :: "addr \<Rightarrow> addr \<Rightarrow> bool" where
  "ref_is_same r r' = (r = r')"

definition ref_eq :: "addr \<Rightarrow> addr \<Rightarrow> bool" where
  "ref_eq r r' = ref_is_same r r'"

definition ref_hash :: "(addr \<Rightarrow> 's \<Rightarrow> 's) \<Rightarrow> addr \<Rightarrow> 's \<Rightarrow> 's" where
  "ref_hash ptr_hash r hs = ptr_hash (ref_identity r) hs"

text \<open>\<^verbatim>\<open>Ref::borrowed_fd\<close>.\<close>

definition ref_borrowed_fd :: "'o ref_heap \<Rightarrow> addr \<Rightarrow> fd" where
  "ref_borrowed_fd h r = (case h r of None \<Rightarrow> 0 | Some c \<Rightarrow> ri_fd (inner c))"

text \<open>\<^verbatim>\<open>AsFd for Ref\<close>, and \<^verbatim>\<open>Ref::socket_id\<close>, which is only there with the feature \<^verbatim>\<open>local-handlers\<close>.\<close>

definition ref_as_fd :: "'o ref_heap \<Rightarrow> addr \<Rightarrow> fd" where
  "ref_as_fd h r = ref_borrowed_fd h r"

definition ref_socket_id :: "'o ref_heap \<Rightarrow> addr \<Rightarrow> SocketId option" where
  "ref_socket_id h r = (case h r of None \<Rightarrow> None | Some c \<Rightarrow> ri_id (inner c))"

text \<open>
  \<^verbatim>\<open>Debug\<close> prints the address as a pointer, \<^verbatim>\<open>0x\<close> and hexadecimal digits in lower case, so that it
  tells references apart exactly as \<^verbatim>\<open>is_same\<close> does.
\<close>

definition hex_digit :: "nat \<Rightarrow> char" where
  "hex_digit n = char_of (if n < 10 then 48 + n else 87 + n)"

fun show_hex :: "nat \<Rightarrow> string" where
  "show_hex n = (if n < 16 then [hex_digit n] else show_hex (n div 16) @ [hex_digit (n mod 16)])"

declare show_hex.simps [simp del]

definition ref_debug :: "addr \<Rightarrow> string" where
  "ref_debug r = ''Ref(0x'' @ show_hex (ref_identity r) @ '')''"

definition read_hex :: "string \<Rightarrow> nat" where
  "read_hex = foldl (\<lambda>n c. 16 * n + (if (of_char c :: nat) < 58 then of_char c - 48 else of_char c - 87)) 0"

lemma read_show_hex: "read_hex (show_hex n) = n"
proof (induction n rule: show_hex.induct)
  case (1 n)
  have "(if (of_char (hex_digit m) :: nat) < 58 then of_char (hex_digit m) - 48 else of_char (hex_digit m) - 87) = m"
    if "m < 16" for m using that by (simp add: hex_digit_def)
  with 1 show ?case by (subst show_hex.simps) (simp add: read_hex_def)
qed

lemma show_hex_inj: "show_hex a = show_hex b \<longleftrightarrow> a = b"
  by (metis read_show_hex)

lemma ref_debug_tells_apart: "ref_debug r = ref_debug r' \<longleftrightarrow> ref_is_same r r'"
  by (simp add: ref_debug_def ref_identity_def ref_is_same_def show_hex_inj)

lemma strong_count_clone:
  "strong_count (ref_clone a h) b =
     (if b = a \<and> h a \<noteq> None then Suc (strong_count h a) else strong_count h b)"
  by (auto simp: strong_count_def ref_clone_def split: option.splits)

lemma borrowed_fd_clone [simp]: "ref_borrowed_fd (ref_clone a h) b = ref_borrowed_fd h b"
  by (auto simp: ref_borrowed_fd_def ref_clone_def split: option.splits)

lemma ref_hash_respects_eq: "ref_eq r r' \<Longrightarrow> ref_hash ph r hs = ref_hash ph r' hs"
  by (simp add: ref_eq_def ref_is_same_def ref_hash_def)

end
