(* ===== verification/Ipc_Message.thy ===== *)
theory Ipc_Message
  imports Ipc_Ref
begin

text \<open>
  \<^verbatim>\<open>message.rs\<close>: a payload and the descriptors riding along, each owned outright or
  shared through a \<^verbatim>\<open>Ref\<close>.
\<close>

datatype send_fd = Owned fd | SharedRef addr

text \<open>\<^verbatim>\<open>AsFd for SendFd\<close>: a shared reference lends the descriptor of its allocation.\<close>

fun send_fd_as_fd :: "(addr \<Rightarrow> fd) \<Rightarrow> send_fd \<Rightarrow> fd" where
  "send_fd_as_fd borrowed (Owned f) = f"
| "send_fd_as_fd borrowed (SharedRef r) = borrowed r"

record message =
  msg_data :: "u8 list"
  msg_fds :: "send_fd list"

definition message_from_data :: "u8 list \<Rightarrow> message" where
  "message_from_data d = \<lparr>msg_data = d, msg_fds = []\<rparr>"

text \<open>\<^verbatim>\<open>add_ref\<close> stores a clone of the reference, so the store's count goes up too.\<close>

definition add_ref :: "addr \<Rightarrow> message \<times> 'o ref_heap \<Rightarrow> message \<times> 'o ref_heap" where
  "add_ref r = (\<lambda>(m, h). (m\<lparr>msg_fds := msg_fds m @ [SharedRef r]\<rparr>, ref_clone r h))"

definition add_fd :: "fd \<Rightarrow> message \<Rightarrow> message" where
  "add_fd f m = m\<lparr>msg_fds := msg_fds m @ [Owned f]\<rparr>"

definition message_data :: "message \<Rightarrow> u8 list" where
  "message_data m = msg_data m"

definition message_fds :: "message \<Rightarrow> send_fd list" where
  "message_fds m = msg_fds m"

text \<open>The descriptors a message lends to \<^verbatim>\<open>sendmsg\<close>, in order.\<close>

definition borrowed_fds :: "(addr \<Rightarrow> fd) \<Rightarrow> message \<Rightarrow> fd list" where
  "borrowed_fds borrowed m = map (send_fd_as_fd borrowed) (message_fds m)"

named_theorems message_defs \<open>unfolding the message operations\<close>

lemmas [message_defs] =
  message_from_data_def add_ref_def add_fd_def message_data_def message_fds_def
  borrowed_fds_def

lemma length_borrowed_fds [simp]: "length (borrowed_fds b m) = length (message_fds m)"
  by (simp add: borrowed_fds_def)

lemma borrowed_fds_empty [simp]: "borrowed_fds b m = [] \<longleftrightarrow> message_fds m = []"
  by (simp add: borrowed_fds_def)

lemma add_fd_data [simp]: "message_data (add_fd f m) = message_data m"
  by (simp add: message_defs)

lemma add_fd_fds [simp]: "message_fds (add_fd f m) = message_fds m @ [Owned f]"
  by (simp add: message_defs)

end
