(* ===== verification/Ipc_Error.thy ===== *)
theory Ipc_Error
  imports Ipc_Message
begin

text \<open>
  \<^verbatim>\<open>error.rs\<close>: the three error types with their conversions and their printed form.
  The limit printed by \<^verbatim>\<open>TooLarge\<close> is \<^verbatim>\<open>wire::MAX_MESSAGE_SIZE\<close>, which is declared
  here because both sides name it.
\<close>

definition MAX_MESSAGE_SIZE :: nat where
  "MAX_MESSAGE_SIZE = 8192"

section \<open>Standing up a node\<close>

datatype node_error = Io io_error

fun node_error_io_kind :: "node_error \<Rightarrow> error_kind option" where
  "node_error_io_kind (Io e) = Some (io_error_kind e)"

definition node_error_from_io :: "io_error \<Rightarrow> node_error" where
  "node_error_from_io e = Io e"

fun io_from_node_error :: "node_error \<Rightarrow> io_error" where
  "io_from_node_error (Io e) = e"

fun node_error_display :: "(io_error \<Rightarrow> string) \<Rightarrow> node_error \<Rightarrow> string" where
  "node_error_display show_io (Io e) = ''could not stand up a node: '' @ show_io e"

fun node_error_source :: "node_error \<Rightarrow> io_error option" where
  "node_error_source (Io e) = Some e"

section \<open>Sending\<close>

datatype send_error = SendTooLarge message | SendClosed message

datatype try_send_error = TryFull message | TryTooLarge message | TryClosed message

fun send_error_into_message :: "send_error \<Rightarrow> message" where
  "send_error_into_message (SendTooLarge m) = m"
| "send_error_into_message (SendClosed m) = m"

fun try_send_error_into_message :: "try_send_error \<Rightarrow> message" where
  "try_send_error_into_message (TryFull m) = m"
| "try_send_error_into_message (TryTooLarge m) = m"
| "try_send_error_into_message (TryClosed m) = m"

fun try_send_error_is_full :: "try_send_error \<Rightarrow> bool" where
  "try_send_error_is_full (TryFull _) = True"
| "try_send_error_is_full _ = False"

fun try_send_error_from_send :: "send_error \<Rightarrow> try_send_error" where
  "try_send_error_from_send (SendTooLarge m) = TryTooLarge m"
| "try_send_error_from_send (SendClosed m) = TryClosed m"

fun send_error_debug :: "send_error \<Rightarrow> string" where
  "send_error_debug (SendTooLarge _) = ''TooLarge''"
| "send_error_debug (SendClosed _) = ''Closed''"

fun try_send_error_debug :: "try_send_error \<Rightarrow> string" where
  "try_send_error_debug (TryFull _) = ''Full''"
| "try_send_error_debug (TryTooLarge _) = ''TooLarge''"
| "try_send_error_debug (TryClosed _) = ''Closed''"

definition too_large_text :: "message \<Rightarrow> string" where
  "too_large_text m =
     ''payload is '' @ show_nat (length (message_data m)) @ '' B, over the ''
       @ show_nat MAX_MESSAGE_SIZE @ '' B limit''"

fun send_error_display :: "send_error \<Rightarrow> string" where
  "send_error_display (SendTooLarge m) = too_large_text m"
| "send_error_display (SendClosed _) = ''the peer is gone''"

fun try_send_error_display :: "try_send_error \<Rightarrow> string" where
  "try_send_error_display (TryFull _) = ''the outbound queue is full''"
| "try_send_error_display (TryTooLarge m) = too_large_text m"
| "try_send_error_display (TryClosed _) = ''the peer is gone''"

fun io_from_send_error :: "send_error \<Rightarrow> io_error" where
  "io_from_send_error (SendTooLarge _) = SimpleError InvalidInput"
| "io_from_send_error (SendClosed _) = SimpleError BrokenPipe"

lemma from_send_not_full [simp]: "\<not> try_send_error_is_full (try_send_error_from_send e)"
  by (cases e) simp_all

lemma from_send_into_message [simp]:
  "try_send_error_into_message (try_send_error_from_send e) = send_error_into_message e"
  by (cases e) simp_all

lemma from_send_display [simp]:
  "try_send_error_display (try_send_error_from_send e) = send_error_display e"
  by (cases e) simp_all

lemma from_send_debug [simp]:
  "try_send_error_debug (try_send_error_from_send e) = send_error_debug e"
  by (cases e) simp_all

text \<open>Everything a \<^verbatim>\<open>TrySendError\<close> that is not \<^verbatim>\<open>Full\<close> says is also a \<^verbatim>\<open>SendError\<close>.\<close>

lemma not_full_from_send:
  "(\<not> try_send_error_is_full e) = (\<exists>s. e = try_send_error_from_send s)"
proof (cases e)
  case (TryFull m)
  then show ?thesis by (metis from_send_not_full try_send_error_is_full.simps(1))
next
  case (TryTooLarge m)
  then show ?thesis by (auto intro: exI [of _ "SendTooLarge m"])
next
  case (TryClosed m)
  then show ?thesis by (auto intro: exI [of _ "SendClosed m"])
qed

end
