(* ===== verification/Ipc_Wire.thy ===== *)
theory Ipc_Wire
  imports Ipc_Error
begin

text \<open>
  \<^verbatim>\<open>wire.rs\<close>: the only module that talks to the kernel. The kernel, \<^verbatim>\<open>rustix\<close> and the
  tokio reactor are not part of the repository; they are the parameter \<open>N\<close> of every
  definition here, a record of the calls the module makes on a kernel state \<open>'k\<close>. What
  the module relies on is stated as named laws over that record.
\<close>

section \<open>Calls that may fail, over a kernel state\<close>

type_synonym ('a, 'k) io = "'k \<Rightarrow> ('a, io_error) result \<times> 'k"

definition io_ret :: "'a \<Rightarrow> ('a, 'k) io" where
  "io_ret x k = (Inr x, k)"

definition io_err :: "io_error \<Rightarrow> ('a, 'k) io" where
  "io_err e k = (Inl e, k)"

text \<open>The \<^verbatim>\<open>?\<close> operator: stop at the first error.\<close>

definition io_bind :: "('a, 'k) io \<Rightarrow> ('a \<Rightarrow> ('b, 'k) io) \<Rightarrow> ('b, 'k) io" where
  "io_bind m f k = (case m k of (Inl e, k1) \<Rightarrow> (Inl e, k1) | (Inr x, k1) \<Rightarrow> f x k1)"

text \<open>A scope that owns descriptor \<open>d\<close>: leaving it with an error drops, so closes, it.\<close>

definition io_owning :: "(fd \<Rightarrow> 'k \<Rightarrow> 'k) \<Rightarrow> fd \<Rightarrow> ('a, 'k) io \<Rightarrow> ('a, 'k) io" where
  "io_owning close d m k = (case m k of (Inl e, k1) \<Rightarrow> (Inl e, close d k1) | r \<Rightarrow> r)"

lemmas io_defs = io_ret_def io_err_def io_bind_def io_owning_def

lemma io_bind_ret [simp]: "io_bind m io_ret = m"
  by (rule ext) (auto simp: io_defs split: prod.splits sum.splits)

lemma io_bind_assoc: "io_bind (io_bind m f) g = io_bind m (\<lambda>x. io_bind (f x) g)"
  by (rule ext) (auto simp: io_defs split: prod.splits sum.splits)

section \<open>The kernel and the libraries over it\<close>

datatype socket_flag = NONBLOCK | CLOEXEC
datatype send_flag = DONTWAIT | NOSIGNAL | EOR
datatype recv_flag = CMSG_CLOEXEC | TRUNC
datatype poll_flag = POLL_IN | POLL_OUT | POLL_HUP | POLL_ERR | POLL_NVAL

type_synonym ucred = "int \<times> nat \<times> nat"

datatype anc_msg = ScmRights "fd list" | ScmCredentials ucred | ScmOther nat

text \<open>What \<^verbatim>\<open>recvmsg\<close> returns: the length (with \<^verbatim>\<open>TRUNC\<close> the datagram's own), the
  bytes put at the front of the buffer, the control messages, and the \<^verbatim>\<open>CTRUNC\<close> flag.\<close>

record recv_return =
  rr_bytes :: nat
  rr_written :: "u8 list"
  rr_anc :: "anc_msg list"
  rr_ctrunc :: bool

record rlimit =
  rl_current :: "u64 option"
  rl_maximum :: "u64 option"

record stat =
  st_dev :: u64
  st_ino :: u64

record 'k net =
  net_cmsg_space :: "nat \<Rightarrow> nat \<Rightarrow> nat"
  net_anc_push :: "nat \<Rightarrow> fd list \<Rightarrow> bool"
  net_addr :: "path \<Rightarrow> (path, io_error) result"
  net_socketpair :: "socket_flag set \<Rightarrow> (fd \<times> fd, 'k) io"
  net_socket :: "socket_flag set \<Rightarrow> (fd, 'k) io"
  net_bind :: "fd \<Rightarrow> path \<Rightarrow> (unit, 'k) io"
  net_listen :: "fd \<Rightarrow> nat \<Rightarrow> (unit, 'k) io"
  net_connect :: "fd \<Rightarrow> path \<Rightarrow> (unit, 'k) io"
  net_accept :: "fd \<Rightarrow> socket_flag set \<Rightarrow> (fd, 'k) io"
  net_sendmsg :: "fd \<Rightarrow> u8 list \<Rightarrow> fd list option \<Rightarrow> send_flag set \<Rightarrow> (nat, 'k) io"
  net_recvmsg :: "fd \<Rightarrow> nat \<Rightarrow> nat \<Rightarrow> recv_flag set \<Rightarrow> (recv_return, 'k) io"
  net_passcred :: "fd \<Rightarrow> bool \<Rightarrow> (unit, 'k) io"
  net_poll :: "fd \<Rightarrow> poll_flag set \<Rightarrow> 'k \<Rightarrow> (poll_flag set, io_error) result"
  net_dup :: "fd \<Rightarrow> (fd, 'k) io"
  net_close :: "fd \<Rightarrow> 'k \<Rightarrow> 'k"
  net_fstat :: "fd \<Rightarrow> 'k \<Rightarrow> (stat, io_error) result"
  net_async_fd :: "fd \<Rightarrow> (unit, 'k) io"
  net_getrlimit :: "'k \<Rightarrow> rlimit"
  net_setrlimit :: "rlimit \<Rightarrow> (unit, 'k) io"

section \<open>Constants\<close>

definition MAX_FDS :: nat where
  "MAX_FDS = 253"

definition EXPECTED_FDS :: nat where
  "EXPECTED_FDS = 8"

definition EXPECTED_ANCILLARY_BUFFER_SIZE :: "'k net \<Rightarrow> nat" where
  "EXPECTED_ANCILLARY_BUFFER_SIZE N = net_cmsg_space N EXPECTED_FDS 1"

definition MAX_ANCILLARY_BUFFER_SIZE :: "'k net \<Rightarrow> nat" where
  "MAX_ANCILLARY_BUFFER_SIZE N = net_cmsg_space N MAX_FDS 1"

section \<open>The descriptor limit\<close>

text \<open>
  \<^verbatim>\<open>usize\<close> is a word of any width \<open>'w\<close> here, with \<open>- 1\<close> for \<^verbatim>\<open>usize::MAX\<close>, so that the
  conversions are checked for 32-bit targets as well.
\<close>

definition as_count :: "u64 option \<Rightarrow> 'w::len word" where
  "as_count v =
     (case v of None \<Rightarrow> - 1
      | Some x \<Rightarrow> if unat x < 2 ^ LENGTH('w) then ucast x else - 1)"

definition as_rlim :: "'w::len word \<Rightarrow> u64 option" where
  "as_rlim c =
     (if c \<noteq> - 1 then Some (if unat c < 2 ^ 64 then ucast c else - 1) else None)"

definition fd_limit :: "'k net \<Rightarrow> ('w::len word, 'k) io" where
  "fd_limit N k = (Inr (as_count (rl_current (net_getrlimit N k))), k)"

definition set_fd_limit :: "'k net \<Rightarrow> 'w::len word \<Rightarrow> ('w word, 'k) io" where
  "set_fd_limit N limit k =
     (let current = as_rlim limit
      in io_bind
           (net_setrlimit N
              \<lparr>rl_current = current, rl_maximum = rl_maximum (net_getrlimit N k)\<rparr>)
           (\<lambda>_. io_ret (as_count current)) k)"

definition maximize_fd_limit :: "'k net \<Rightarrow> ('w::len word, 'k) io" where
  "maximize_fd_limit N k =
     (let limit = net_getrlimit N k
      in io_bind
           (if rl_current limit \<noteq> rl_maximum limit
            then net_setrlimit N
                   \<lparr>rl_current = rl_maximum limit, rl_maximum = rl_maximum limit\<rparr>
            else io_ret ())
           (\<lambda>_. io_ret (as_count (rl_maximum limit))) k)"

section \<open>Sockets\<close>

definition flags_for_send :: "send_flag set" where
  "flags_for_send = {DONTWAIT, NOSIGNAL, EOR}"

definition wire_socketpair :: "'k net \<Rightarrow> (fd \<times> fd, 'k) io" where
  "wire_socketpair N = net_socketpair N {NONBLOCK, CLOEXEC}"

definition wire_bind :: "'k net \<Rightarrow> path \<Rightarrow> (fd, 'k) io" where
  "wire_bind N p =
     (case net_addr N p of Inl e \<Rightarrow> io_err e
      | Inr a \<Rightarrow>
          io_bind (net_socket N {NONBLOCK, CLOEXEC}) (\<lambda>d.
            io_owning (net_close N) d
              (io_bind (net_bind N d a) (\<lambda>_.
               io_bind (net_listen N d 128) (\<lambda>_. io_ret d)))))"

definition wire_connect :: "'k net \<Rightarrow> path \<Rightarrow> (fd, 'k) io" where
  "wire_connect N p =
     (case net_addr N p of Inl e \<Rightarrow> io_err e
      | Inr a \<Rightarrow>
          io_bind (net_socket N {NONBLOCK, CLOEXEC}) (\<lambda>d.
            io_owning (net_close N) d
              (io_bind (net_connect N d a) (\<lambda>_. io_ret d))))"

definition accept_now :: "'k net \<Rightarrow> fd \<Rightarrow> (fd, 'k) io" where
  "accept_now N d = net_accept N d {NONBLOCK, CLOEXEC}"

definition enable_credentials :: "'k net \<Rightarrow> fd \<Rightarrow> 'k \<Rightarrow> 'k" where
  "enable_credentials N d k = snd (net_passcred N d True k)"

definition is_hung_up :: "'k net \<Rightarrow> fd \<Rightarrow> 'k \<Rightarrow> bool" where
  "is_hung_up N d k =
     (case net_poll N d {} k of Inl _ \<Rightarrow> False
      | Inr revents \<Rightarrow> revents \<inter> {POLL_HUP, POLL_ERR, POLL_NVAL} \<noteq> {})"

section \<open>One message out\<close>

definition send_now :: "'k net \<Rightarrow> (addr \<Rightarrow> fd) \<Rightarrow> fd \<Rightarrow> message \<Rightarrow> (unit, 'k) io" where
  "send_now N borrow d m =
     (let iov = message_data m
      in if message_fds m = []
         then io_bind (net_sendmsg N d iov None flags_for_send) (\<lambda>_. io_ret ())
         else
           (let borrowed = borrowed_fds borrow m;
                space =
                  (if length borrowed \<le> EXPECTED_FDS then EXPECTED_ANCILLARY_BUFFER_SIZE N
                   else net_cmsg_space N (length borrowed) 0)
            in if \<not> net_anc_push N space borrowed
               then io_err (CustomError InvalidInput
                      (''could not fit '' @ show_nat (length borrowed)
                         @ '' descriptors in the control buffer''))
               else io_bind (net_sendmsg N d iov (Some borrowed) flags_for_send)
                      (\<lambda>_. io_ret ())))"

section \<open>One message in\<close>

record received =
  rc_bytes :: nat
  rc_fds :: "fd list"
  rc_creds :: "ucred option"

definition received_truncated :: "received \<Rightarrow> nat \<Rightarrow> bool" where
  "received_truncated r buffer_len = (buffer_len < rc_bytes r)"

text \<open>The loop over \<^verbatim>\<open>ancillary.drain()\<close>: descriptors accumulate, the last credentials win.\<close>

fun collect_ancillary ::
  "anc_msg list \<Rightarrow> fd list \<times> ucred option \<Rightarrow> fd list \<times> ucred option" where
  "collect_ancillary [] acc = acc"
| "collect_ancillary (ScmRights ds # as) (fds, creds) = collect_ancillary as (fds @ ds, creds)"
| "collect_ancillary (ScmCredentials c # as) (fds, creds) = collect_ancillary as (fds, Some c)"
| "collect_ancillary (ScmOther _ # as) acc = collect_ancillary as acc"

text \<open>Code that may panic: here the \<^verbatim>\<open>debug_assert!\<close> of a debug build.\<close>

datatype 'a outcome = Returned 'a | Panicked

definition overwrite :: "'a list \<Rightarrow> 'a list \<Rightarrow> 'a list" where
  "overwrite w buf = w @ drop (length w) buf"

text \<open>Dropping a list of descriptors, as the unwinding of a panic does too.\<close>

definition close_all :: "'k net \<Rightarrow> fd list \<Rightarrow> 'k \<Rightarrow> 'k" where
  "close_all N ds k = fold (net_close N) ds k"

definition recv_now ::
  "bool \<Rightarrow> 'k net \<Rightarrow> fd \<Rightarrow> u8 list \<Rightarrow> nat \<Rightarrow> ((received \<times> u8 list) outcome, 'k) io" where
  "recv_now debug N d buf control_len =
     io_bind (net_recvmsg N d (length buf) control_len {CMSG_CLOEXEC, TRUNC}) (\<lambda>msg.
       (case collect_ancillary (rr_anc msg) ([], None) of (fds, creds) \<Rightarrow>
          if debug \<and> rr_ctrunc msg then (\<lambda>k. (Inr Panicked, close_all N fds k))
          else io_ret (Returned
                 (\<lparr>rc_bytes = rr_bytes msg, rc_fds = fds, rc_creds = creds\<rparr>,
                  overwrite (rr_written msg) buf))))"

section \<open>Sockets registered with the reactor\<close>

text \<open>\<^verbatim>\<open>Reactive::new\<close>: a failed registration drops the descriptor it was given.\<close>

definition reactive_new :: "'k net \<Rightarrow> fd \<Rightarrow> (fd, 'k) io" where
  "reactive_new N d =
     io_owning (net_close N) d (io_bind (net_async_fd N d) (\<lambda>_. io_ret d))"

text \<open>
  The loop around a non-blocking call that \<^verbatim>\<open>send\<close>, \<^verbatim>\<open>recv\<close> and \<^verbatim>\<open>accept\<close> share. The
  scheduler is a list of wake-ups: the reactor failed, or the environment did what it did
  and the socket was reported ready. \<open>None\<close> is "still parked".
\<close>

type_synonym 'k wakeups = "(io_error + ('k \<Rightarrow> 'k)) list"

fun reactive_io :: "('a, 'k) io \<Rightarrow> 'k wakeups \<Rightarrow> 'k \<Rightarrow> ('a, io_error) result option \<times> 'k" where
  "reactive_io try_op [] k = (None, k)"
| "reactive_io try_op (Inl e # ws) k = (Some (Inl e), k)"
| "reactive_io try_op (Inr env # ws) k =
     (case try_op (env k) of
        (Inl e, k1) \<Rightarrow>
          if io_error_kind e = WouldBlock then reactive_io try_op ws k1 else (Some (Inl e), k1)
      | (Inr x, k1) \<Rightarrow> (Some (Inr x), k1))"

definition reactive_send ::
  "'k net \<Rightarrow> (addr \<Rightarrow> fd) \<Rightarrow> fd \<Rightarrow> message \<Rightarrow> 'k wakeups \<Rightarrow> 'k \<Rightarrow>
   (unit, io_error) result option \<times> 'k" where
  "reactive_send N borrow d m = reactive_io (send_now N borrow d m)"

definition reactive_recv ::
  "bool \<Rightarrow> 'k net \<Rightarrow> fd \<Rightarrow> u8 list \<Rightarrow> nat \<Rightarrow> 'k wakeups \<Rightarrow> 'k \<Rightarrow>
   ((received \<times> u8 list) outcome, io_error) result option \<times> 'k" where
  "reactive_recv debug N d buf control_len = reactive_io (recv_now debug N d buf control_len)"

definition reactive_accept ::
  "'k net \<Rightarrow> fd \<Rightarrow> 'k wakeups \<Rightarrow> 'k \<Rightarrow> (fd, io_error) result option \<times> 'k" where
  "reactive_accept N d = reactive_io (accept_now N d)"

text \<open>
  \<^verbatim>\<open>Reactive::hangup\<close>: each wake-up is a reactor error or the readiness it reports, as
  (read side closed, error). True when it has returned, False when it is still parked.
\<close>

fun hangup :: "(io_error + bool \<times> bool) list \<Rightarrow> bool" where
  "hangup [] = False"
| "hangup (Inl _ # ws) = True"
| "hangup (Inr (read_closed, err) # ws) = (if read_closed \<or> err then True else hangup ws)"

end
