(* ===== verification/Ipc_Wire_Laws.thy ===== *)
theory Ipc_Wire_Laws
  imports Ipc_Wire
begin

text \<open>
  What \<^verbatim>\<open>wire.rs\<close> relies on, as laws over the record \<open>N\<close> of kernel and library calls,
  a small kernel that satisfies them (the witnesses run on it), and the properties of the
  module: the one send path, the retry loop, the descriptor limit, descriptors on error
  paths.
\<close>

section \<open>Laws\<close>

text \<open>\<^verbatim>\<open>cmsg_space!\<close> grows with its arguments, and a buffer that large takes the block.\<close>

definition anc_law :: "'k net \<Rightarrow> bool" where
  "anc_law N \<longleftrightarrow>
     (\<forall>n n' c c'. n \<le> n' \<longrightarrow> c \<le> c' \<longrightarrow> net_cmsg_space N n c \<le> net_cmsg_space N n' c') \<and>
     (\<forall>sp ds. net_cmsg_space N (length ds) 0 \<le> sp \<longrightarrow> net_anc_push N sp ds)"

text \<open>\<^verbatim>\<open>setrlimit\<close> that succeeds installs what it was given.\<close>

definition rlimit_law :: "'k net \<Rightarrow> bool" where
  "rlimit_law N \<longleftrightarrow>
     (\<forall>r k k'. net_setrlimit N r k = (Inr (), k') \<longrightarrow> net_getrlimit N k' = r)"

text \<open>The descriptor table of the process, \<open>opn\<close>: who adds to it and who takes away.\<close>

definition descriptor_law :: "'k net \<Rightarrow> ('k \<Rightarrow> fd set) \<Rightarrow> bool" where
  "descriptor_law N opn \<longleftrightarrow>
     (\<forall>fl k e k'. net_socket N fl k = (Inl e, k') \<longrightarrow> opn k' = opn k) \<and>
     (\<forall>fl k d k'. net_socket N fl k = (Inr d, k') \<longrightarrow> d \<notin> opn k \<and> opn k' = insert d (opn k)) \<and>
     (\<forall>d a k. opn (snd (net_bind N d a k)) = opn k) \<and>
     (\<forall>d n k. opn (snd (net_listen N d n k)) = opn k) \<and>
     (\<forall>d a k. opn (snd (net_connect N d a k)) = opn k) \<and>
     (\<forall>d k. opn (snd (net_async_fd N d k)) = opn k) \<and>
     (\<forall>d k. opn (net_close N d k) = opn k - {d})"

lemmas socket_err_open = descriptor_law_def [THEN iffD1, THEN conjunct1, rule_format]
lemmas socket_ok_open =
  descriptor_law_def [THEN iffD1, THEN conjunct2, THEN conjunct1, rule_format]
lemmas other_calls_open =
  descriptor_law_def [THEN iffD1, THEN conjunct2, THEN conjunct2]

section \<open>A small kernel that satisfies the laws\<close>

text \<open>
  One connected pair: a bounded queue of datagrams, whether the far end is gone, the
  table of open descriptors and the limit on them. Errors carry Linux's numbers.
\<close>

record skern =
  sk_queue :: "(u8 list \<times> fd list) list"
  sk_room :: nat
  sk_gone :: bool
  sk_open :: "fd list"
  sk_limit :: rlimit

definition sample_cmsg_space :: "nat \<Rightarrow> nat \<Rightarrow> nat" where
  "sample_cmsg_space n c = (if n = 0 then 0 else 16 + 8 * ((n + 1) div 2)) + 32 * c"

definition sample_fresh :: "skern \<Rightarrow> fd" where
  "sample_fresh k = Suc (foldr max (sk_open k) 0)"

definition sample_new_fd :: "(fd, skern) io" where
  "sample_new_fd k = (Inr (sample_fresh k), k\<lparr>sk_open := sample_fresh k # sk_open k\<rparr>)"

definition sample_sendmsg ::
  "fd \<Rightarrow> u8 list \<Rightarrow> fd list option \<Rightarrow> send_flag set \<Rightarrow> (nat, skern) io" where
  "sample_sendmsg d iov ctl fl k =
     (let fs = (case ctl of None \<Rightarrow> [] | Some fs \<Rightarrow> fs)
      in if sk_gone k then (Inl (OsError BrokenPipe 32), k)
         else if MAX_FDS < length fs then (Inl (OsError InvalidInput 22), k)
         else if sk_room k \<le> length (sk_queue k) then (Inl (OsError WouldBlock 11), k)
         else (Inr (length iov), k\<lparr>sk_queue := sk_queue k @ [(iov, fs)]\<rparr>))"

definition sample_recvmsg :: "fd \<Rightarrow> nat \<Rightarrow> nat \<Rightarrow> recv_flag set \<Rightarrow> (recv_return, skern) io" where
  "sample_recvmsg d len clen fl k =
     (case sk_queue k of
        [] \<Rightarrow> if sk_gone k
              then (Inr \<lparr>rr_bytes = 0, rr_written = [], rr_anc = [], rr_ctrunc = False\<rparr>, k)
              else (Inl (OsError WouldBlock 11), k)
      | (iov, fs) # q \<Rightarrow>
          (Inr \<lparr>rr_bytes = (if TRUNC \<in> fl then length iov else min len (length iov)),
                rr_written = take len iov,
                rr_anc = (if fs = [] then [] else [ScmRights [sample_fresh k ..< sample_fresh k + length fs]])
                           @ [ScmCredentials (1, 0, 0)],
                rr_ctrunc = False\<rparr>,
           k\<lparr>sk_queue := q,
             sk_open := [sample_fresh k ..< sample_fresh k + length fs] @ sk_open k\<rparr>))"

definition sample_setrlimit :: "rlimit \<Rightarrow> (unit, skern) io" where
  "sample_setrlimit r k =
     (let over = (case rl_maximum (sk_limit k) of None \<Rightarrow> False
        | Some m \<Rightarrow> (case rl_current r of None \<Rightarrow> True | Some c \<Rightarrow> m < c)
                    \<or> (case rl_maximum r of None \<Rightarrow> True | Some c \<Rightarrow> m < c))
      in if over then (Inl (OsError (OtherKind 1) 1), k) else (Inr (), k\<lparr>sk_limit := r\<rparr>))"

definition sample_net :: "skern net" where
  "sample_net =
     \<lparr>net_cmsg_space = sample_cmsg_space,
      net_anc_push = (\<lambda>sp ds. sample_cmsg_space (length ds) 0 \<le> sp),
      net_addr = (\<lambda>p. if length p < 108 then Inr p else Inl (OsError InvalidInput 36)),
      net_socketpair = (\<lambda>fl. io_bind sample_new_fd (\<lambda>a. io_bind sample_new_fd (\<lambda>b. io_ret (a, b)))),
      net_socket = (\<lambda>fl. sample_new_fd),
      net_bind = (\<lambda>d p. if p = ''/busy'' then io_err (OsError AddrInUse 98) else io_ret ()),
      net_listen = (\<lambda>d n. io_ret ()),
      net_connect = (\<lambda>d p. io_ret ()),
      net_accept = (\<lambda>d fl. sample_new_fd),
      net_sendmsg = sample_sendmsg,
      net_recvmsg = sample_recvmsg,
      net_passcred = (\<lambda>d b. io_ret ()),
      net_poll = (\<lambda>d fl k. Inr (if sk_gone k then {POLL_HUP} else {})),
      net_dup = (\<lambda>d. sample_new_fd),
      net_close = (\<lambda>d k. k\<lparr>sk_open := filter (\<lambda>x. x \<noteq> d) (sk_open k)\<rparr>),
      net_fstat = (\<lambda>d k. Inr \<lparr>st_dev = 9, st_ino = of_nat d\<rparr>),
      net_async_fd = (\<lambda>d. io_ret ()),
      net_getrlimit = sk_limit,
      net_setrlimit = sample_setrlimit\<rparr>"

definition sample_kernel :: skern where
  "sample_kernel =
     \<lparr>sk_queue = [], sk_room = 4, sk_gone = False, sk_open = [0, 1, 2],
      sk_limit = \<lparr>rl_current = Some 1024, rl_maximum = Some 4096\<rparr>\<rparr>"

lemmas sample_defs =
  sample_net_def sample_kernel_def sample_new_fd_def sample_fresh_def sample_sendmsg_def sample_recvmsg_def
  sample_setrlimit_def sample_cmsg_space_def

lemma sample_anc_law: "anc_law sample_net"
proof -
  have "sample_cmsg_space n c \<le> sample_cmsg_space n' c'" if "n \<le> n'" "c \<le> c'" for n n' c c'
    using that unfolding sample_cmsg_space_def by (auto intro: add_mono div_le_mono)
  then show ?thesis by (simp add: anc_law_def sample_net_def)
qed

lemma sample_fresh: "sample_fresh k \<notin> set (sk_open k)"
proof -
  have "d \<le> foldr max ds 0" if "d \<in> set ds" for d :: nat and ds
    using that by (induction ds) auto
  then show ?thesis unfolding sample_fresh_def by fastforce
qed

lemma sample_descriptor_law: "descriptor_law sample_net (\<lambda>k. set (sk_open k))"
  by (auto simp: descriptor_law_def sample_net_def sample_new_fd_def sample_fresh io_defs)

lemma sample_rlimit_law: "rlimit_law sample_net"
  by (auto simp: rlimit_law_def sample_net_def sample_setrlimit_def Let_def split: if_splits)

section \<open>The one send path\<close>

text \<open>
  Every send is one \<^verbatim>\<open>sendmsg\<close> of the payload with the descriptors the message lends, or
  with no control message at all when it lends none.
\<close>

definition control_of :: "(addr \<Rightarrow> fd) \<Rightarrow> message \<Rightarrow> fd list option" where
  "control_of borrow m = (if message_fds m = [] then None else Some (borrowed_fds borrow m))"

lemma anc_space_fits:
  assumes "anc_law N"
  shows "net_anc_push N
           (if length ds \<le> EXPECTED_FDS then EXPECTED_ANCILLARY_BUFFER_SIZE N
            else net_cmsg_space N (length ds) 0) ds"
  using assms by (auto simp: anc_law_def EXPECTED_ANCILLARY_BUFFER_SIZE_def)

lemma send_now_eq:
  assumes "anc_law N"
  shows "send_now N borrow d m =
           io_bind (net_sendmsg N d (message_data m) (control_of borrow m) flags_for_send)
             (\<lambda>_. io_ret ())"
  using anc_space_fits [OF assms, of "borrowed_fds borrow m"]
  by (simp add: send_now_def control_of_def Let_def)

section \<open>The retry loop\<close>

lemma reactive_io_append:
  "reactive_io op (ws @ vs) k =
     (case reactive_io op ws k of (None, k1) \<Rightarrow> reactive_io op vs k1 | r \<Rightarrow> r)"
  by (induction op ws k rule: reactive_io.induct) (auto split: prod.splits sum.splits)

text \<open>What a finished loop did: the attempts before the last one all would have blocked.\<close>

lemma reactive_io_finished:
  assumes "reactive_io op ws k = (Some r, k')"
  obtains pre w post k1 where "ws = pre @ w # post" "reactive_io op pre k = (None, k1)"
    "case w of Inl e \<Rightarrow> r = Inl e \<and> k' = k1
       | Inr env \<Rightarrow> op (env k1) = (r, k') \<and> (\<forall>e. r = Inl e \<longrightarrow> io_error_kind e \<noteq> WouldBlock)"
  using assms
proof (induction op ws k arbitrary: thesis rule: reactive_io.induct)
  case (3 op env ws k)
  show ?case
  proof (cases "\<exists>e k1. op (env k) = (Inl e, k1) \<and> io_error_kind e = WouldBlock")
    case True
    then obtain e k1 where b: "op (env k) = (Inl e, k1)" "io_error_kind e = WouldBlock" by blast
    from 3(3) b have fin: "reactive_io op ws k1 = (Some r, k')" by simp
    from b obtain pre w post k2 where "ws = pre @ w # post" "reactive_io op pre k1 = (None, k2)"
      "case w of Inl e \<Rightarrow> r = Inl e \<and> k' = k2
         | Inr env \<Rightarrow> op (env k2) = (r, k') \<and> (\<forall>e. r = Inl e \<longrightarrow> io_error_kind e \<noteq> WouldBlock)"
      using "3.IH" [OF b(1) [symmetric] refl b(2) _ fin] by blast
    with b show ?thesis by (intro 3(2) [of "Inr env # pre" w post k2]) auto
  next
    case False
    with 3(3) show ?thesis
      by (intro 3(2) [of "[]" "Inr env" ws k]) (auto split: prod.splits sum.splits if_splits)
  qed
next
  case (2 op e ws k)
  then show ?case by (intro 2(1) [of "[]" "Inl e" ws k]) auto
qed auto

lemma reactive_io_never_would_block:
  assumes "reactive_io op ws k = (Some (Inl e), k')" and "\<And>x. Inl x \<notin> set ws"
  shows "io_error_kind e \<noteq> WouldBlock"
  using assms(1)
proof (rule reactive_io_finished)
  fix pre w post k1
  assume "ws = pre @ w # post"
    and w: "case w of Inl e' \<Rightarrow> Inl e = (Inl e' :: _ + 'a) \<and> k' = k1
       | Inr env \<Rightarrow> op (env k1) = (Inl e, k') \<and>
           (\<forall>e'. Inl e = (Inl e' :: _ + 'a) \<longrightarrow> io_error_kind e' \<noteq> WouldBlock)"
  with assms(2) obtain env where "w = Inr env" by (cases w) auto
  with w show ?thesis by simp
qed

lemma reactive_io_parked:
  "fst (reactive_io op ws k) = None \<longleftrightarrow>
     (\<forall>pre w post. ws = pre @ w # post \<longrightarrow>
        (\<exists>env e k1. w = Inr env \<and> op (env (snd (reactive_io op pre k))) = (Inl e, k1) \<and>
           io_error_kind e = WouldBlock))"
  (is "?L = ?R")
proof
  assume L: ?L
  show ?R
  proof (intro allI impI)
    fix pre w post
    assume ws: "ws = pre @ w # post"
    obtain r1 k1 where 1: "reactive_io op pre k = (r1, k1)" by fastforce
    from L ws 1 have "r1 = None" by (auto simp: reactive_io_append split: option.splits)
    with 1 L ws have "fst (reactive_io op (w # post) k1) = None"
      by (simp add: reactive_io_append)
    with 1 show "\<exists>env e k1. w = Inr env \<and> op (env (snd (reactive_io op pre k))) = (Inl e, k1) \<and>
        io_error_kind e = WouldBlock"
      by (cases w) (auto split: prod.splits sum.splits if_splits)
  qed
next
  assume R: ?R
  show ?L
  proof (rule ccontr)
    assume "\<not> ?L"
    then obtain r k' where f: "reactive_io op ws k = (Some r, k')"
      by (metis not_None_eq prod.collapse)
    then show False
    proof (rule reactive_io_finished)
      fix pre w post k1
      assume ws: "ws = pre @ w # post" and p: "reactive_io op pre k = (None, k1)"
        and w: "case w of Inl e \<Rightarrow> r = Inl e \<and> k' = k1
          | Inr env \<Rightarrow> op (env k1) = (r, k') \<and> (\<forall>e. r = Inl e \<longrightarrow> io_error_kind e \<noteq> WouldBlock)"
      from R ws obtain env e k2 where "w = Inr env"
        "op (env (snd (reactive_io op pre k))) = (Inl e, k2)" "io_error_kind e = WouldBlock"
        by blast
      with w p show False by auto
    qed
  qed
qed

section \<open>Descriptor accounting\<close>

lemma owning_open:
  assumes "descriptor_law N opn" and "\<And>k. opn (snd (m k)) = opn k"
  shows "opn (snd (io_owning (net_close N) d m k)) =
           (case fst (m k) of Inl _ \<Rightarrow> opn k - {d} | Inr _ \<Rightarrow> opn k)"
  using assms by (auto simp: io_owning_def descriptor_law_def split: prod.splits sum.splits)
    (metis snd_conv)+

lemma bind_open:
  assumes "\<And>k. opn (snd (m k)) = opn k" and "\<And>x k. opn (snd (f x k)) = opn k"
  shows "opn (snd (io_bind m f k)) = opn k"
  using assms by (auto simp: io_bind_def split: prod.splits sum.splits) (metis snd_conv)+

lemma wire_bind_open:
  assumes "descriptor_law N opn"
  shows "case wire_bind N p k of (Inl e, k') \<Rightarrow> opn k' = opn k
           | (Inr d, k') \<Rightarrow> d \<notin> opn k \<and> opn k' = insert d (opn k)"
proof (cases "net_addr N p")
  case (Inl e)
  then show ?thesis by (simp add: wire_bind_def io_err_def)
next
  case (Inr a)
  obtain r1 k1 where s: "net_socket N {NONBLOCK, CLOEXEC} k = (r1, k1)" by fastforce
  show ?thesis
  proof (cases r1)
    case (Inl e)
    have "opn k1 = opn k" using socket_err_open [OF assms s [unfolded Inl]] .
    with \<open>net_addr N p = Inr a\<close> s Inl show ?thesis by (simp add: wire_bind_def io_bind_def)
  next
    case (Inr d)
    have d: "d \<notin> opn k" "opn k1 = insert d (opn k)"
      using socket_ok_open [OF assms s [unfolded Inr]] by simp_all
    let ?rest = "io_bind (net_bind N d a) (\<lambda>_. io_bind (net_listen N d 128) (\<lambda>_. io_ret d))"
    have rest: "opn (snd (?rest k2)) = opn k2" for k2
      using other_calls_open [OF assms] by (intro bind_open) (simp_all add: io_ret_def)
    obtain r3 k3 where r3: "?rest k1 = (r3, k3)" by fastforce
    have ret: "r3 = Inr d' \<Longrightarrow> d' = d" for d'
      using r3 by (auto simp: io_bind_def io_ret_def split: prod.splits sum.splits)
    have run: "wire_bind N p k = io_owning (net_close N) d ?rest k1"
      using \<open>net_addr N p = Inr a\<close> s Inr by (simp add: wire_bind_def io_bind_def)
    show ?thesis
      using owning_open [OF assms rest, of d k1] ret d r3 run
      by (cases r3) (auto simp: io_owning_def)
  qed
qed

section \<open>Conversions of the descriptor limit\<close>

lemma as_count_as_rlim:
  assumes "LENGTH('w::len) \<le> 64"
  shows "as_count (as_rlim (c :: 'w word)) = c"
proof (cases "c = - 1")
  case True
  then show ?thesis by (simp add: as_rlim_def as_count_def)
next
  case False
  have "unat c < 2 ^ LENGTH('w)" by (rule unsigned_less)
  also have "\<dots> \<le> 2 ^ 64" using assms by (intro power_increasing) auto
  finally have lt: "unat c < 2 ^ 64" .
  then have u: "unat (ucast c :: u64) = unat c"
    by (simp add: unsigned_ucast_eq take_bit_nat_eq_self)
  with False lt have "as_count (as_rlim c) = (ucast (ucast c :: u64) :: 'w word)"
    by (simp add: as_rlim_def as_count_def)
  also have "\<dots> = c"
  proof (rule unsigned_word_eqI [where 'a = nat])
    show "unat (ucast (ucast c :: u64) :: 'w word) = unat c"
      by (simp add: unsigned_ucast_eq [of "ucast c"] u take_bit_nat_eq_self)
  qed
  finally show ?thesis .
qed


section \<open>Properties\<close>

text \<open>There is one implementation of "send a message": under the sizing laws of the
  control buffer, \<^verbatim>\<open>send_now\<close> is exactly one \<^verbatim>\<open>sendmsg\<close> of the payload, with no control
  message when nothing is attached and with every lent descriptor in order otherwise; the
  branch that reports an ill-sized buffer is never taken, whatever the count.\<close>

theorem send_now_is_one_sendmsg:
  assumes "anc_law N"
  shows "send_now N borrow d m =
           io_bind
             (net_sendmsg N d (message_data m)
                (if message_fds m = [] then None else Some (borrowed_fds borrow m))
                {DONTWAIT, NOSIGNAL, EOR})
             (\<lambda>_. io_ret ())"
  using send_now_eq [OF assms] by (simp add: control_of_def flags_for_send_def)

theorem send_now_is_one_sendmsg_witness:
  "send_now sample_net (\<lambda>r. r + 100) 3
     \<lparr>msg_data = [7, 8], msg_fds = map Owned [10 ..< 19] @ [SharedRef 4]\<rparr> sample_kernel =
     (Inr (), sample_kernel\<lparr>sk_queue := [([7, 8], [10, 11, 12, 13, 14, 15, 16, 17, 18, 104])]\<rparr>)"
  unfolding send_now_is_one_sendmsg [OF sample_anc_law]
  by (simp add: sample_defs io_defs message_defs MAX_FDS_def upt_rec)

text \<open>\<^verbatim>\<open>set_fd_limit\<close> sets the soft limit to exactly what was asked: when it succeeds it
  returns the number it was given, a following \<^verbatim>\<open>fd_limit\<close> reads that number back, and the
  hard limit is the one there was before, on every width of \<^verbatim>\<open>usize\<close> up to 64 bits.\<close>

theorem set_fd_limit_exact:
  assumes "rlimit_law N" and "LENGTH('w::len) \<le> 64"
    and "set_fd_limit N (limit :: 'w word) k = (Inr n, k')"
  shows "n = limit \<and> fst (fd_limit N k') = Inr limit \<and>
    rl_maximum (net_getrlimit N k') = rl_maximum (net_getrlimit N k)"
proof -
  have "net_getrlimit N k' =
      \<lparr>rl_current = as_rlim limit, rl_maximum = rl_maximum (net_getrlimit N k)\<rparr>
      \<and> n = as_count (as_rlim limit)"
    using assms(1,3)
    by (auto simp: set_fd_limit_def io_defs rlimit_law_def Let_def split: prod.splits sum.splits)
  with as_count_as_rlim [OF assms(2), of limit] show ?thesis
    by (simp_all add: fd_limit_def)
qed

theorem set_fd_limit_exact_witness:
  "fst (fd_limit sample_net (snd (set_fd_limit sample_net (2048 :: 32 word) sample_kernel))) =
     Inr (2048 :: 32 word)"
proof -
  have run: "set_fd_limit sample_net (2048 :: 32 word) sample_kernel =
      (Inr (as_count (as_rlim (2048 :: 32 word))),
       sample_kernel\<lparr>sk_limit := \<lparr>rl_current = Some 2048, rl_maximum = Some 4096\<rparr>\<rparr>)"
    by (simp add: set_fd_limit_def sample_defs io_defs as_rlim_def Let_def)
  have "LENGTH(32) \<le> 64" by simp
  from set_fd_limit_exact [OF sample_rlimit_law this run] run show ?thesis by simp
qed

text \<open>\<^verbatim>\<open>maximize_fd_limit\<close> raises the soft limit to the hard one and leaves the hard one
  alone: after a success both limits are the old hard limit, the number returned is what
  \<^verbatim>\<open>fd_limit\<close> then reports, and calling it again changes nothing and returns the same.\<close>

theorem maximize_fd_limit_ceiling:
  assumes "rlimit_law N" and "maximize_fd_limit N k = (Inr (n :: 'w::len word), k')"
  shows "rl_current (net_getrlimit N k') = rl_maximum (net_getrlimit N k) \<and>
    rl_maximum (net_getrlimit N k') = rl_maximum (net_getrlimit N k) \<and>
    fst (fd_limit N k') = Inr n \<and> maximize_fd_limit N k' = (Inr n, k')"
proof -
  let ?m = "rl_maximum (net_getrlimit N k)"
  have "n = as_count ?m \<and> rl_current (net_getrlimit N k') = ?m \<and>
      rl_maximum (net_getrlimit N k') = ?m"
    using assms
    by (auto simp: maximize_fd_limit_def io_defs rlimit_law_def Let_def
        split: prod.splits sum.splits if_splits)
  then show ?thesis
    by (simp_all add: fd_limit_def maximize_fd_limit_def io_defs)
qed

theorem maximize_fd_limit_ceiling_witness:
  "fst (fd_limit sample_net (snd (maximize_fd_limit sample_net sample_kernel :: (64 word, _) result \<times> _)))
     = Inr (4096 :: 64 word)"
proof -
  have run: "maximize_fd_limit sample_net sample_kernel =
      (Inr (4096 :: 64 word),
       sample_kernel\<lparr>sk_limit := \<lparr>rl_current = Some 4096, rl_maximum = Some 4096\<rparr>\<rparr>)"
    by (simp add: maximize_fd_limit_def sample_defs io_defs as_count_def)
  from maximize_fd_limit_ceiling [OF sample_rlimit_law run] run show ?thesis by simp
qed

text \<open>A failed \<^verbatim>\<open>bind\<close> leaks no descriptor: on every error path (bad address, no socket,
  refused bind, refused listen) the descriptor table is as before the call, and on success
  it has gained exactly the listening socket that is returned.\<close>

theorem wire_bind_leaks_nothing:
  assumes "descriptor_law N opn" and "wire_bind N p k = (r, k')"
  shows "case r of Inl e \<Rightarrow> opn k' = opn k | Inr d \<Rightarrow> d \<notin> opn k \<and> opn k' = insert d (opn k)"
  using wire_bind_open [OF assms(1), where p = p and k = k] assms(2) by simp

theorem wire_bind_leaks_nothing_witness:
  "set (sk_open (snd (wire_bind sample_net ''/busy'' sample_kernel))) = {0, 1, 2}"
proof -
  have run: "wire_bind sample_net ''/busy'' sample_kernel =
      (Inl (OsError AddrInUse 98), sample_kernel)"
    by (simp add: wire_bind_def sample_defs io_defs)
  from wire_bind_leaks_nothing [OF sample_descriptor_law run] run show ?thesis
    by (simp add: sample_kernel_def)
qed

text \<open>C31: the retry loop of \<^verbatim>\<open>Reactive::send\<close> is still parked exactly when every wake-up so far
  ran \<^verbatim>\<open>send_now\<close> and got \<^verbatim>\<open>WouldBlock\<close>: it never gives up on backpressure, and it never
  keeps retrying after a delivery, a real error or a failed reactor.\<close>

theorem reactive_send_parked_iff:
  "fst (reactive_send N borrow d m ws k) = None \<longleftrightarrow>
     (\<forall>pre w post. ws = pre @ w # post \<longrightarrow>
        (\<exists>env e k1. w = Inr env \<and>
           send_now N borrow d m (env (snd (reactive_send N borrow d m pre k))) = (Inl e, k1) \<and>
           io_error_kind e = WouldBlock))"
  unfolding reactive_send_def by (rule reactive_io_parked)

theorem reactive_send_parked_iff_witness:
  "fst (reactive_send sample_net (\<lambda>r. r) 3 (message_from_data [1])
     [Inr (\<lambda>k. k\<lparr>sk_room := 0\<rparr>), Inr (\<lambda>k. k\<lparr>sk_room := 4\<rparr>)] sample_kernel) \<noteq> None"
proof
  let ?m = "message_from_data [1]" and ?full = "Inr (\<lambda>k. k\<lparr>sk_room := 0\<rparr>)"
    and ?room = "Inr (\<lambda>k. k\<lparr>sk_room := 4\<rparr>)"
  have first: "snd (reactive_send sample_net (\<lambda>r. r) 3 ?m [?full] sample_kernel) =
      sample_kernel\<lparr>sk_room := 0\<rparr>"
    by (simp add: reactive_send_def send_now_def sample_defs io_defs message_defs)
  assume "fst (reactive_send sample_net (\<lambda>r. r) 3 ?m [?full, ?room] sample_kernel) = None"
  from reactive_send_parked_iff [THEN iffD1, OF this, rule_format, of "[?full]" ?room "[]"]
  have "\<exists>env e k1. ?room = Inr env \<and>
      send_now sample_net (\<lambda>r. r) 3 ?m (env (sample_kernel\<lparr>sk_room := 0\<rparr>)) = (Inl e, k1) \<and>
      io_error_kind e = WouldBlock"
    unfolding first by simp
  then show False by (auto simp: send_now_def sample_defs io_defs message_defs)
qed

end
