(* ===== verification/Ipc_Registry.thy ===== *)
theory Ipc_Registry
  imports Ipc_Wire_Laws
begin

text \<open>
  \<^verbatim>\<open>capability.rs\<close>, the registry: \<^verbatim>\<open>REFS\<close>, \<^verbatim>\<open>Ref::from_fd\<close>, the drop of a \<^verbatim>\<open>RefInner\<close> cut
  at its accesses to shared state, the death watch and \<^verbatim>\<open>Ref::connect\<close>. \<^verbatim>\<open>DashMap\<close> is a map
  whose entry operations are atomic; the memory of a reference stays allocated while an
  entry, which holds a \<^verbatim>\<open>Weak\<close>, names it.
\<close>

section \<open>Operations\<close>

definition socket_id :: "'k net \<Rightarrow> fd \<Rightarrow> 'k \<Rightarrow> (SocketId, io_error) result" where
  "socket_id N d k =
     (case net_fstat N d k of Inl e \<Rightarrow> Inl e | Inr st \<Rightarrow> Inr (st_dev st, st_ino st))"

text \<open>The references of the process: their allocations, and \<^verbatim>\<open>REFS\<close>.\<close>

record 'o caps =
  cp_heap :: "'o ref_heap"
  cp_refs :: "SocketId \<rightharpoonup> addr"

definition arc_new :: "addr \<Rightarrow> 'o ref_inner \<Rightarrow> 'o ref_heap \<Rightarrow> 'o ref_heap" where
  "arc_new a v h = h(a \<mapsto> \<lparr>strong = 1, inner = v\<rparr>)"

definition weak_upgrade :: "addr \<Rightarrow> 'o ref_heap \<Rightarrow> 'o ref_heap option" where
  "weak_upgrade a h = (if strong_count h a = 0 then None else Some (ref_clone a h))"

text \<open>
  \<^verbatim>\<open>Ref::from_fd\<close>; \<open>rt\<close> is the current runtime and \<open>a\<close> the address the allocator would hand
  out.
\<close>

definition ref_from_fd ::
  "'k net \<Rightarrow> nat option \<Rightarrow> addr \<Rightarrow> fd \<Rightarrow> 'o caps \<times> 'k \<Rightarrow> addr \<times> ('o caps \<times> 'k)" where
  "ref_from_fd N rt a d = (\<lambda>(s, k).
     (case socket_id N d k of
        Inl _ \<Rightarrow> (a, (s\<lparr>cp_heap := arc_new a (ref_inner_new rt d None) (cp_heap s)\<rparr>, k))
      | Inr i \<Rightarrow>
          (case cp_refs s i of
             Some w \<Rightarrow>
               (case weak_upgrade w (cp_heap s) of
                  Some h \<Rightarrow> (w, (s\<lparr>cp_heap := h\<rparr>, net_close N d k))
                | None \<Rightarrow>
                    (a, (s\<lparr>cp_heap := arc_new a (ref_inner_new rt d (Some i)) (cp_heap s),
                           cp_refs := (cp_refs s)(i \<mapsto> a)\<rparr>, k)))
           | None \<Rightarrow>
               (a, (s\<lparr>cp_heap := arc_new a (ref_inner_new rt d (Some i)) (cp_heap s),
                      cp_refs := (cp_refs s)(i \<mapsto> a)\<rparr>, k)))))"

definition ref_from_owned_fd ::
  "'k net \<Rightarrow> nat option \<Rightarrow> addr \<Rightarrow> fd \<Rightarrow> 'o caps \<times> 'k \<Rightarrow> addr \<times> ('o caps \<times> 'k)" where
  "ref_from_owned_fd N rt a d = ref_from_fd N rt a d"

text \<open>
  Dropping a \<^verbatim>\<open>Ref\<close>: the strong count goes down; at zero the body of \<^verbatim>\<open>RefInner::drop\<close> runs,
  one atomic \<^verbatim>\<open>remove_if\<close>; then the fields drop, which closes what the reference owns.
\<close>

definition arc_release :: "addr \<Rightarrow> 'o ref_heap \<Rightarrow> 'o ref_heap" where
  "arc_release a h =
     (case h a of None \<Rightarrow> h | Some c \<Rightarrow> h(a \<mapsto> c\<lparr>strong := strong c - 1\<rparr>))"

definition refs_remove_if :: "'i \<Rightarrow> ('a \<Rightarrow> bool) \<Rightarrow> ('i \<rightharpoonup> 'a) \<Rightarrow> ('i \<rightharpoonup> 'a)" where
  "refs_remove_if i P m =
     (case m i of None \<Rightarrow> m | Some w \<Rightarrow> if P w then m(i := None) else m)"

definition ref_inner_drop :: "addr \<Rightarrow> 'o caps \<Rightarrow> 'o caps" where
  "ref_inner_drop a s =
     (case cp_heap s a of None \<Rightarrow> s
      | Some c \<Rightarrow>
          (case ri_id (inner c) of None \<Rightarrow> s
           | Some i \<Rightarrow>
               s\<lparr>cp_refs := refs_remove_if i (\<lambda>w. strong_count (cp_heap s) w = 0) (cp_refs s)\<rparr>))"

definition ref_fields_drop :: "'k net \<Rightarrow> 'o ref_inner \<Rightarrow> 'k \<Rightarrow> 'k" where
  "ref_fields_drop N v k =
     (case ri_death v of None \<Rightarrow> net_close N (ri_fd v) k
      | Some w \<Rightarrow> net_close N w (net_close N (ri_fd v) k))"

text \<open>The same, uninterrupted.\<close>

definition ref_drop :: "'k net \<Rightarrow> addr \<Rightarrow> 'o caps \<times> 'k \<Rightarrow> 'o caps \<times> 'k" where
  "ref_drop N a = (\<lambda>(s, k).
     (let s1 = s\<lparr>cp_heap := arc_release a (cp_heap s)\<rparr>
      in if strong_count (cp_heap s1) a = 0
         then (case cp_heap s1 a of None \<Rightarrow> (s1, k)
               | Some c \<Rightarrow> (ref_inner_drop a s1, ref_fields_drop N (inner c) k))
         else (s1, k)))"

section \<open>The contract of a registry of weak entries\<close>

text \<open>
  \<^verbatim>\<open>REFS\<close> here and \<^verbatim>\<open>LOCALS\<close> in \<^verbatim>\<open>local.rs\<close> are used alike: an entry is filed over whatever
  was there, and each filer later unfiles its key, if the entry then is one it may take out
  (\<open>mine\<close>). Both promise that a late unfiling takes out nothing else.
\<close>

locale weak_registry =
  fixes entry :: "'s \<Rightarrow> 'i \<Rightarrow> 'a option"
    and put :: "'i \<Rightarrow> 'a \<Rightarrow> 's \<Rightarrow> 's"
    and unfile :: "'i \<Rightarrow> 'a \<Rightarrow> 's \<Rightarrow> 's"
    and mine :: "'s \<Rightarrow> 'a \<Rightarrow> 'a \<Rightarrow> bool"
  assumes entry_put: "entry (put i a s) j = (if j = i then Some a else entry s j)"
    and entry_unfile: "entry (unfile i a s) j =
      (case entry s j of None \<Rightarrow> None
       | Some w \<Rightarrow> if j = i \<and> mine s a w then None else Some w)"
begin

lemma unfile_own: "mine (put i a s) a a \<Longrightarrow> entry (unfile i a (put i a s)) i = None"
  by (simp add: entry_put entry_unfile)

lemma late_unfile: "\<not> mine (put i b s) a b \<Longrightarrow> entry (unfile i a (put i b s)) i = Some b"
  by (simp add: entry_put entry_unfile)

lemma unfile_other: "j \<noteq> i \<Longrightarrow> entry (unfile i a s) j = entry s j"
  by (simp add: entry_unfile split: option.splits)

lemma unfile_keeps: "entry s j = Some w \<Longrightarrow> \<not> mine s a w \<Longrightarrow> entry (unfile i a s) j = Some w"
  by (simp add: entry_unfile)

lemma unfile_shrinks: "entry (unfile i a s) j = Some w \<Longrightarrow> entry s j = Some w \<and> (j = i \<longrightarrow> \<not> mine s a w)"
  by (simp add: entry_unfile split: option.splits if_splits)

end

definition refs_file :: "SocketId \<Rightarrow> addr \<Rightarrow> 'o caps \<Rightarrow> 'o caps" where
  "refs_file i a s = s\<lparr>cp_refs := (cp_refs s)(i \<mapsto> a)\<rparr>"

definition refs_unfile :: "SocketId \<Rightarrow> addr \<Rightarrow> 'o caps \<Rightarrow> 'o caps" where
  "refs_unfile i a s =
     s\<lparr>cp_refs := refs_remove_if i (\<lambda>w. strong_count (cp_heap s) w = 0) (cp_refs s)\<rparr>"

interpretation refs: weak_registry cp_refs refs_file refs_unfile
  "\<lambda>s a w. strong_count (cp_heap s) w = 0"
  by unfold_locales (auto simp: refs_file_def refs_unfile_def refs_remove_if_def split: option.splits)

lemma ref_inner_drop_unfiles:
  "cp_heap s a = Some c \<Longrightarrow>
   ref_inner_drop a s = (case ri_id (inner c) of None \<Rightarrow> s | Some i \<Rightarrow> refs_unfile i a s)"
  by (simp add: ref_inner_drop_def refs_unfile_def split: option.splits)

section \<open>Death of the peer\<close>

definition ref_is_dead :: "'k net \<Rightarrow> 'o ref_heap \<Rightarrow> addr \<Rightarrow> 'k \<Rightarrow> bool" where
  "ref_is_dead N h a k = is_hung_up N (ref_borrowed_fd h a) k"

text \<open>\<^verbatim>\<open>RefInner::death_watch\<close>: the registered duplicate, made once.\<close>

definition ref_death_watch ::
  "'k net \<Rightarrow> 'o ref_inner \<Rightarrow> 'k \<Rightarrow> (fd, io_error) result \<times> 'o ref_inner \<times> 'k" where
  "ref_death_watch N v k =
     (case ri_death v of Some w \<Rightarrow> (Inr w, v, k)
      | None \<Rightarrow>
          (case io_bind (net_dup N (ri_fd v)) (reactive_new N) k of
             (Inl e, k1) \<Rightarrow> (Inl e, v, k1)
           | (Inr w, k1) \<Rightarrow> (Inr w, v\<lparr>ri_death := Some w\<rparr>, k1)))"

text \<open>
  \<^verbatim>\<open>Ref::death_notification\<close>, with the wake-ups of the watch; the result says whether it has
  returned. A watch that cannot be made is never ready.
\<close>

definition ref_death_notification ::
  "'k net \<Rightarrow> (io_error + bool \<times> bool) list \<Rightarrow> 'o ref_inner \<Rightarrow> 'k \<Rightarrow> bool \<times> 'o ref_inner \<times> 'k" where
  "ref_death_notification N ws v k =
     (if is_hung_up N (ri_fd v) k then (True, v, k)
      else (case ref_death_watch N v k of
              (Inl _, v1, k1) \<Rightarrow> (False, v1, k1)
            | (Inr _, v1, k1) \<Rightarrow> (hangup ws, v1, k1)))"

section \<open>Connecting\<close>

text \<open>
  \<^verbatim>\<open>Ref::connect\<close>: one connection, one receive into an empty buffer, the first descriptor
  that came is the capability, the others and the connection are dropped. The result is
  \<open>None\<close> while the receive is parked.
\<close>

definition ref_connect ::
  "bool \<Rightarrow> 'k net \<Rightarrow> nat option \<Rightarrow> addr \<Rightarrow> path \<Rightarrow> 'k wakeups \<Rightarrow> 'o caps \<times> 'k \<Rightarrow>
   (addr outcome, io_error) result option \<times> ('o caps \<times> 'k)" where
  "ref_connect debug N rt a p ws = (\<lambda>(s, k).
     (case io_bind (wire_connect N p) (reactive_new N) k of
        (Inl e, k1) \<Rightarrow> (Some (Inl e), (s, k1))
      | (Inr conn, k1) \<Rightarrow>
          (case reactive_recv debug N conn [] (net_cmsg_space N 1 0) ws k1 of
             (None, k2) \<Rightarrow> (None, (s, k2))
           | (Some (Inl e), k2) \<Rightarrow> (Some (Inl e), (s, net_close N conn k2))
           | (Some (Inr Panicked), k2) \<Rightarrow> (Some (Inr Panicked), (s, net_close N conn k2))
           | (Some (Inr (Returned (r, _))), k2) \<Rightarrow>
               (case rc_fds r of
                  [] \<Rightarrow> (Some (Inl (CustomError UnexpectedEof ''Failed to read Ref fd'')),
                         (s, net_close N conn k2))
                | d # ds \<Rightarrow>
                    (case ref_from_fd N rt a d (s, close_all N ds k2) of
                       (r, (s1, k3)) \<Rightarrow> (Some (Inr (Returned r)), (s1, net_close N conn k3)))))))"

end
