(* ===== verification/Ipc_Local.thy ===== *)
theory Ipc_Local
  imports Ipc_Registry
begin

text \<open>
  \<^verbatim>\<open>local.rs\<close>: \<^verbatim>\<open>LOCALS\<close>, the entries a receive loop holds, and the lookup of the handler
  behind a capability of this process. Handlers are allocations with a strong count and a
  type; the map holds them weakly.
\<close>

section \<open>Operations\<close>

record handler_cell =
  hc_strong :: nat
  hc_type :: nat

record locals =
  lc_heap :: "addr \<rightharpoonup> handler_cell"
  lc_map :: "SocketId \<rightharpoonup> addr"

record local_entry =
  le_id :: SocketId
  le_filed :: addr

definition local_entry_file :: "SocketId \<Rightarrow> addr \<Rightarrow> locals \<Rightarrow> local_entry \<times> locals" where
  "local_entry_file i h s =
     (\<lparr>le_id = i, le_filed = h\<rparr>, s\<lparr>lc_map := (lc_map s)(i \<mapsto> h)\<rparr>)"

definition local_entry_drop :: "local_entry \<Rightarrow> locals \<Rightarrow> locals" where
  "local_entry_drop e s =
     s\<lparr>lc_map := refs_remove_if (le_id e) (\<lambda>w. w = le_filed e) (lc_map s)\<rparr>"

definition handler_count :: "locals \<Rightarrow> addr \<Rightarrow> int \<Rightarrow> locals" where
  "handler_count s h n =
     (case lc_heap s h of None \<Rightarrow> s
      | Some c \<Rightarrow> s\<lparr>lc_heap := (lc_heap s)(h \<mapsto> c\<lparr>hc_strong := nat (int (hc_strong c) + n)\<rparr>)\<rparr>)"

text \<open>
  \<^verbatim>\<open>local_handler\<close>: the \<^verbatim>\<open>Weak\<close> is cloned out of the map, upgraded, and downcast to type
  \<open>ty\<close>; a failed downcast drops the share it had taken.
\<close>

definition local_handler :: "nat \<Rightarrow> SocketId \<Rightarrow> locals \<Rightarrow> addr option \<times> locals" where
  "local_handler ty i s =
     (case lc_map s i of None \<Rightarrow> (None, s)
      | Some w \<Rightarrow>
          (case lc_heap s w of None \<Rightarrow> (None, s)
           | Some c \<Rightarrow>
               if hc_strong c = 0 then (None, s)
               else (let s1 = handler_count s w 1
                     in if hc_type c = ty then (Some w, s1) else (None, handler_count s1 w (-1)))))"

text \<open>\<^verbatim>\<open>Ref::local_handler\<close>: a reference that was never filed has no identity to look up.\<close>

definition ref_local_handler :: "nat \<Rightarrow> 'o ref_inner \<Rightarrow> locals \<Rightarrow> addr option \<times> locals" where
  "ref_local_handler ty v s =
     (case ri_id v of None \<Rightarrow> (None, s) | Some i \<Rightarrow> local_handler ty i s)"

interpretation locals: weak_registry lc_map "\<lambda>i h s. snd (local_entry_file i h s)"
  "\<lambda>i h s. local_entry_drop \<lparr>le_id = i, le_filed = h\<rparr> s" "\<lambda>s h w. w = h"
  by unfold_locales
    (auto simp: local_entry_file_def local_entry_drop_def refs_remove_if_def split: option.splits)

lemma failed_downcast_restores: "fst (local_handler ty i s) = None \<Longrightarrow> snd (local_handler ty i s) = s"
  by (cases s)
    (auto simp: local_handler_def handler_count_def Let_def split: option.splits if_splits)

section \<open>Nodes filing and unfiling\<close>

text \<open>
  A node files its handler under the identity of its capability's socket, which is then open
  and so the identity of no other running node; once its loop has ended its sockets may be
  closed and the identity given out again, before its entry is dropped. \<open>shared\<close> allows a
  node to be built on a handler that is already some other node's (\<^verbatim>\<open>Node::new_raw\<close>).
\<close>

datatype node_stage = NodeRunning | NodeEnded | NodeUnfiled

record local_sys =
  ls_locals :: locals
  ls_nodes :: "nat \<rightharpoonup> local_entry \<times> node_stage"

definition local_init :: local_sys where
  "local_init = \<lparr>ls_locals = \<lparr>lc_heap = Map.empty, lc_map = Map.empty\<rparr>, ls_nodes = Map.empty\<rparr>"

inductive local_step :: "bool \<Rightarrow> local_sys \<Rightarrow> local_sys \<Rightarrow> bool" for shared where
  step_node: "ls_nodes s n = None \<Longrightarrow>
    (\<forall>m e st. ls_nodes s m = Some (e, st) \<longrightarrow>
       (st = NodeRunning \<longrightarrow> le_id e \<noteq> i) \<and>
       (st \<noteq> NodeUnfiled \<and> \<not> shared \<longrightarrow> le_filed e \<noteq> h)) \<Longrightarrow>
    lc_heap (ls_locals s) h = Some c \<Longrightarrow> hc_strong c \<noteq> 0 \<Longrightarrow>
    local_entry_file i h (ls_locals s) = (e', l') \<Longrightarrow>
    local_step shared s (s\<lparr>ls_locals := l', ls_nodes := (ls_nodes s)(n \<mapsto> (e', NodeRunning))\<rparr>)"
| step_node_end: "ls_nodes s n = Some (e, NodeRunning) \<Longrightarrow>
    local_step shared s (s\<lparr>ls_nodes := (ls_nodes s)(n \<mapsto> (e, NodeEnded))\<rparr>)"
| step_node_unfile: "ls_nodes s n = Some (e, NodeEnded) \<Longrightarrow>
    local_step shared s (s\<lparr>ls_locals := local_entry_drop e (ls_locals s),
      ls_nodes := (ls_nodes s)(n \<mapsto> (e, NodeUnfiled))\<rparr>)"
| step_handlers: "(\<forall>m e. ls_nodes s m = Some (e, NodeRunning) \<longrightarrow>
      (\<exists>c c'. lc_heap (ls_locals s) (le_filed e) = Some c \<and> heap' (le_filed e) = Some c' \<and>
        hc_type c' = hc_type c \<and> hc_strong c' \<noteq> 0)) \<Longrightarrow>
    local_step shared s (s\<lparr>ls_locals := (ls_locals s)\<lparr>lc_heap := heap'\<rparr>\<rparr>)"

inductive_cases local_stepE: "local_step shared s t"

text \<open>What is running is filed and upgradable; what is filed is some node's that has not
  unfiled; two nodes that have not unfiled have different handlers, or different identities
  while both run.\<close>

definition local_inv :: "local_sys \<Rightarrow> bool" where
  "local_inv s \<longleftrightarrow>
     (\<forall>n e. ls_nodes s n = Some (e, NodeRunning) \<longrightarrow>
        lc_map (ls_locals s) (le_id e) = Some (le_filed e) \<and>
        (\<exists>c. lc_heap (ls_locals s) (le_filed e) = Some c \<and> hc_strong c \<noteq> 0)) \<and>
     (\<forall>i h. lc_map (ls_locals s) i = Some h \<longrightarrow>
        (\<exists>n e st. ls_nodes s n = Some (e, st) \<and> st \<noteq> NodeUnfiled \<and> le_id e = i \<and> le_filed e = h)) \<and>
     (\<forall>n m e e' st st'. ls_nodes s n = Some (e, st) \<and> ls_nodes s m = Some (e', st') \<and> n \<noteq> m \<and>
        st \<noteq> NodeUnfiled \<and> st' \<noteq> NodeUnfiled \<longrightarrow> le_filed e \<noteq> le_filed e')"

lemma local_invD:
  assumes "local_inv s"
  shows "ls_nodes s n = Some (e, NodeRunning) \<Longrightarrow> lc_map (ls_locals s) (le_id e) = Some (le_filed e)"
    and "ls_nodes s n = Some (e, NodeRunning) \<Longrightarrow>
      \<exists>c. lc_heap (ls_locals s) (le_filed e) = Some c \<and> hc_strong c \<noteq> 0"
    and "lc_map (ls_locals s) i = Some h \<Longrightarrow>
      \<exists>n e st. ls_nodes s n = Some (e, st) \<and> st \<noteq> NodeUnfiled \<and> le_id e = i \<and> le_filed e = h"
    and "ls_nodes s n = Some (e, st) \<Longrightarrow> ls_nodes s m = Some (e', st') \<Longrightarrow> n \<noteq> m \<Longrightarrow>
      st \<noteq> NodeUnfiled \<Longrightarrow> st' \<noteq> NodeUnfiled \<Longrightarrow> le_filed e \<noteq> le_filed e'"
  using assms unfolding local_inv_def by blast+

lemma local_invI:
  assumes "\<And>n e. ls_nodes s n = Some (e, NodeRunning) \<Longrightarrow>
      lc_map (ls_locals s) (le_id e) = Some (le_filed e) \<and>
      (\<exists>c. lc_heap (ls_locals s) (le_filed e) = Some c \<and> hc_strong c \<noteq> 0)"
    and "\<And>i h. lc_map (ls_locals s) i = Some h \<Longrightarrow>
      \<exists>n e st. ls_nodes s n = Some (e, st) \<and> st \<noteq> NodeUnfiled \<and> le_id e = i \<and> le_filed e = h"
    and "\<And>n m e e' st st'. ls_nodes s n = Some (e, st) \<Longrightarrow> ls_nodes s m = Some (e', st') \<Longrightarrow> n \<noteq> m \<Longrightarrow>
      st \<noteq> NodeUnfiled \<Longrightarrow> st' \<noteq> NodeUnfiled \<Longrightarrow> le_filed e \<noteq> le_filed e'"
  shows "local_inv s"
  using assms unfolding local_inv_def by blast

lemma local_inv_init: "local_inv local_init"
  by (simp add: local_inv_def local_init_def)

lemma local_inv_node:
  assumes inv: "local_inv s" and n: "ls_nodes s n = None"
    and new: "\<And>m e st. ls_nodes s m = Some (e, st) \<Longrightarrow>
       (st = NodeRunning \<longrightarrow> le_id e \<noteq> i) \<and> (st \<noteq> NodeUnfiled \<longrightarrow> le_filed e \<noteq> h)"
    and c: "lc_heap (ls_locals s) h = Some c" "hc_strong c \<noteq> 0"
    and f: "local_entry_file i h (ls_locals s) = (e', l')"
  shows "local_inv (s\<lparr>ls_locals := l', ls_nodes := (ls_nodes s)(n \<mapsto> (e', NodeRunning))\<rparr>)"
    (is "local_inv ?s")
proof -
  have e': "le_id e' = i" "le_filed e' = h" "lc_map l' = (lc_map (ls_locals s))(i \<mapsto> h)"
    "lc_heap l' = lc_heap (ls_locals s)"
    using f by (auto simp: local_entry_file_def)
  show ?thesis
  proof (rule local_invI)
    fix m e assume m: "ls_nodes ?s m = Some (e, NodeRunning)"
    show "lc_map (ls_locals ?s) (le_id e) = Some (le_filed e) \<and>
      (\<exists>c. lc_heap (ls_locals ?s) (le_filed e) = Some c \<and> hc_strong c \<noteq> 0)"
    proof (cases "m = n")
      case True
      with m e' c show ?thesis by auto
    next
      case False
      with m have "ls_nodes s m = Some (e, NodeRunning)" by simp
      with local_invD(1,2) [OF inv this] new [OF this] e' show ?thesis by simp
    qed
  next
    fix j g assume j: "lc_map (ls_locals ?s) j = Some g"
    show "\<exists>m e st. ls_nodes ?s m = Some (e, st) \<and> st \<noteq> NodeUnfiled \<and> le_id e = j \<and> le_filed e = g"
    proof (cases "j = i")
      case True
      with j e' show ?thesis by (intro exI [of _ n]) auto
    next
      case False
      with j e' have "lc_map (ls_locals s) j = Some g" by simp
      from local_invD(3) [OF inv this] obtain m e st where m: "ls_nodes s m = Some (e, st)"
        "st \<noteq> NodeUnfiled" "le_id e = j" "le_filed e = g" by blast
      with n have "m \<noteq> n" by auto
      with m show ?thesis by (intro exI [of _ m]) auto
    qed
  next
    fix m m' e e2 st st2
    assume "ls_nodes ?s m = Some (e, st)" "ls_nodes ?s m' = Some (e2, st2)" "m \<noteq> m'"
      "st \<noteq> NodeUnfiled" "st2 \<noteq> NodeUnfiled"
    then show "le_filed e \<noteq> le_filed e2"
      using new [of m' e2 st2] new [of m e st] e' local_invD(4) [OF inv, of m e st m' e2 st2]
      by (auto split: if_splits)
  qed
qed

lemma local_inv_stage:
  assumes inv: "local_inv s" and n: "ls_nodes s n = Some (e, NodeRunning)"
  shows "local_inv (s\<lparr>ls_nodes := (ls_nodes s)(n \<mapsto> (e, NodeEnded))\<rparr>)" (is "local_inv ?s")
proof (rule local_invI)
  fix m e' assume "ls_nodes ?s m = Some (e', NodeRunning)"
  then have "ls_nodes s m = Some (e', NodeRunning)" by (auto split: if_splits)
  from local_invD(1,2) [OF inv this]
  show "lc_map (ls_locals ?s) (le_id e') = Some (le_filed e') \<and>
      (\<exists>c. lc_heap (ls_locals ?s) (le_filed e') = Some c \<and> hc_strong c \<noteq> 0)" by simp
next
  fix i h assume "lc_map (ls_locals ?s) i = Some h"
  then have "lc_map (ls_locals s) i = Some h" by simp
  from local_invD(3) [OF inv this] obtain m e' st where m: "ls_nodes s m = Some (e', st)"
    "st \<noteq> NodeUnfiled" "le_id e' = i" "le_filed e' = h" by blast
  with n show "\<exists>m e st. ls_nodes ?s m = Some (e, st) \<and> st \<noteq> NodeUnfiled \<and> le_id e = i \<and> le_filed e = h"
    by (intro exI [of _ m]) auto
next
  fix m m' e1 e2 st st2
  assume "ls_nodes ?s m = Some (e1, st)" "ls_nodes ?s m' = Some (e2, st2)" "m \<noteq> m'"
    "st \<noteq> NodeUnfiled" "st2 \<noteq> NodeUnfiled"
  then show "le_filed e1 \<noteq> le_filed e2"
    using n local_invD(4) [OF inv, of m e1 _ m' e2 _] by (auto split: if_splits)
qed

lemma local_inv_unfile:
  assumes inv: "local_inv s" and n: "ls_nodes s n = Some (e, NodeEnded)"
  shows "local_inv (s\<lparr>ls_locals := local_entry_drop e (ls_locals s),
      ls_nodes := (ls_nodes s)(n \<mapsto> (e, NodeUnfiled))\<rparr>)" (is "local_inv ?s")
proof -
  have heap: "lc_heap (local_entry_drop e (ls_locals s)) = lc_heap (ls_locals s)"
    by (simp add: local_entry_drop_def)
  have e: "\<lparr>le_id = le_id e, le_filed = le_filed e\<rparr> = e" by simp
  note keeps = locals.unfile_keeps [where i = "le_id e" and a = "le_filed e", unfolded e]
  note shrinks = locals.unfile_shrinks [where i = "le_id e" and a = "le_filed e", unfolded e]
  show ?thesis
  proof (rule local_invI)
    fix m e' assume m: "ls_nodes ?s m = Some (e', NodeRunning)"
    then have m': "ls_nodes s m = Some (e', NodeRunning)" "m \<noteq> n" by (auto split: if_splits)
    have "le_filed e' \<noteq> le_filed e" using local_invD(4) [OF inv m'(1) n m'(2)] by simp
    with keeps [OF local_invD(1) [OF inv m'(1)]] local_invD(2) [OF inv m'(1)] heap
    show "lc_map (ls_locals ?s) (le_id e') = Some (le_filed e') \<and>
      (\<exists>c. lc_heap (ls_locals ?s) (le_filed e') = Some c \<and> hc_strong c \<noteq> 0)" by simp
  next
    fix i h assume "lc_map (ls_locals ?s) i = Some h"
    then have h: "lc_map (ls_locals s) i = Some h" "i = le_id e \<longrightarrow> h \<noteq> le_filed e"
      using shrinks [of "ls_locals s" i h] by auto
    from local_invD(3) [OF inv h(1)] obtain m e' st where m: "ls_nodes s m = Some (e', st)"
      "st \<noteq> NodeUnfiled" "le_id e' = i" "le_filed e' = h" by blast
    have "m \<noteq> n" using m n h(2) by auto
    with m show "\<exists>m e st. ls_nodes ?s m = Some (e, st) \<and> st \<noteq> NodeUnfiled \<and> le_id e = i \<and> le_filed e = h"
      by (intro exI [of _ m]) auto
  next
    fix m m' e1 e2 st st2
    assume "ls_nodes ?s m = Some (e1, st)" "ls_nodes ?s m' = Some (e2, st2)" "m \<noteq> m'"
      "st \<noteq> NodeUnfiled" "st2 \<noteq> NodeUnfiled"
    then show "le_filed e1 \<noteq> le_filed e2"
      using local_invD(4) [OF inv, of m e1 st m' e2 st2] by (auto split: if_splits)
  qed
qed

lemma local_inv_handlers:
  assumes inv: "local_inv s"
    and keep: "\<And>m e. ls_nodes s m = Some (e, NodeRunning) \<Longrightarrow>
      \<exists>c'. heap' (le_filed e) = Some c' \<and> hc_strong c' \<noteq> 0"
  shows "local_inv (s\<lparr>ls_locals := (ls_locals s)\<lparr>lc_heap := heap'\<rparr>\<rparr>)"
  by (rule local_invI) (use keep local_invD [OF inv] in simp_all)

lemma local_inv_step:
  assumes inv: "local_inv s" and stp: "local_step False s s'"
  shows "local_inv s'"
  using stp
proof (cases rule: local_step.cases)
  case (step_node n i h c e' l')
  then show ?thesis unfolding step_node(1) by (intro local_inv_node [OF inv]) blast+
next
  case (step_node_end n e)
  with local_inv_stage [OF inv] show ?thesis by simp
next
  case (step_node_unfile n e)
  with local_inv_unfile [OF inv] show ?thesis by simp
next
  case (step_handlers heap')
  then show ?thesis unfolding step_handlers(1) by (intro local_inv_handlers [OF inv]) blast
qed

interpretation local: state_machine local_init "local_step False" local_inv
  by unfold_locales (auto intro: local_inv_init local_inv_step)

section \<open>Properties\<close>


text \<open>
  Two nodes under one reissued identity: node 0 ended, node 1 filed over its entry, and then
  node 0 unfiled. \<open>h0\<close> and \<open>h1\<close> are their handlers.
\<close>

definition reissued_state :: "addr \<Rightarrow> addr \<Rightarrow> local_sys" where
  "reissued_state h0 h1 =
     \<lparr>ls_locals = local_entry_drop \<lparr>le_id = (9, 70), le_filed = h0\<rparr>
        \<lparr>lc_heap = [5 \<mapsto> \<lparr>hc_strong = 1, hc_type = 3\<rparr>, 6 \<mapsto> \<lparr>hc_strong = 1, hc_type = 3\<rparr>],
         lc_map = [(9, 70) \<mapsto> h1]\<rparr>,
      ls_nodes = [0 \<mapsto> (\<lparr>le_id = (9, 70), le_filed = h0\<rparr>, NodeUnfiled),
        1 \<mapsto> (\<lparr>le_id = (9, 70), le_filed = h1\<rparr>, NodeRunning)]\<rparr>"

lemma reissued_reach:
  assumes "h0 \<in> {5, 6}" and "h1 \<in> {5, 6}" and "shared \<or> h0 \<noteq> h1"
  shows "reach local_init (local_step shared) (reissued_state h0 h1)"
proof -
  let ?h = "[5 \<mapsto> \<lparr>hc_strong = 1, hc_type = 3\<rparr>, 6 \<mapsto> \<lparr>hc_strong = 1, hc_type = 3\<rparr>]"
  let ?e = "\<lambda>h. \<lparr>le_id = (9, 70), le_filed = h\<rparr>"
  let ?s = "\<lambda>m ns. \<lparr>ls_locals = \<lparr>lc_heap = ?h, lc_map = m\<rparr>, ls_nodes = ns\<rparr>"
  have "reach local_init (local_step shared) local_init" by (rule reach_init)
  then have "reach local_init (local_step shared) (?s Map.empty Map.empty)"
    by (rule reach_step) (use step_handlers [of local_init ?h shared] in \<open>simp add: local_init_def\<close>)
  then have "reach local_init (local_step shared) (?s [(9, 70) \<mapsto> h0] [0 \<mapsto> (?e h0, NodeRunning)])"
    by (rule reach_step)
      (use step_node [where s = "?s Map.empty Map.empty" and n = 0 and shared = shared and i = "(9, 70)" and h = h0] assms(1) in
        \<open>auto simp: local_entry_file_def\<close>)
  then have "reach local_init (local_step shared) (?s [(9, 70) \<mapsto> h0] [0 \<mapsto> (?e h0, NodeEnded)])"
    by (rule reach_step)
      (use step_node_end [of "?s [(9, 70) \<mapsto> h0] [0 \<mapsto> (?e h0, NodeRunning)]" 0 "?e h0" shared] in simp)
  then have "reach local_init (local_step shared)
      (?s [(9, 70) \<mapsto> h1] [0 \<mapsto> (?e h0, NodeEnded), 1 \<mapsto> (?e h1, NodeRunning)])"
    by (rule reach_step)
      (use step_node [where s = "?s [(9, 70) \<mapsto> h0] [0 \<mapsto> (?e h0, NodeEnded)]" and n = 1 and shared = shared
          and i = "(9, 70)" and h = h1] assms(2,3)
        in \<open>auto simp: local_entry_file_def split: if_splits\<close>)
  then show ?thesis
    by (rule reach_step)
      (use step_node_unfile [of "?s [(9, 70) \<mapsto> h1] [0 \<mapsto> (?e h0, NodeEnded), 1 \<mapsto> (?e h1, NodeRunning)]"
          0 "?e h0" shared] in \<open>simp add: reissued_state_def fun_upd_twist\<close>)
qed



end
