(* ===== verification/Ipc_Death.thy ===== *)
theory Ipc_Death
  imports Ipc_Prelude
begin

text \<open>
  \<^verbatim>\<open>death.rs\<close>: the latch behind \<^verbatim>\<open>Node::is_dead\<close>, a flag and a wakeup. \<^verbatim>\<open>wait\<close> and
  \<^verbatim>\<open>declare\<close> are cut at every access to shared state, so the interleavings of any number
  of waiters with the declaration are the runs of a step relation. tokio's \<^verbatim>\<open>Notify\<close> is the
  parameter \<open>T\<close>; atomic accesses are taken in one total order.
\<close>

section \<open>The notifier\<close>

text \<open>The calls of \<^verbatim>\<open>tokio::sync::Notify\<close>; a \<^verbatim>\<open>Notified\<close> future is named by its waiter.\<close>

record 'n notify =
  nt_default :: 'n
  nt_notified :: "nat \<Rightarrow> 'n \<Rightarrow> 'n"
  nt_enable :: "nat \<Rightarrow> 'n \<Rightarrow> 'n"
  nt_notify_waiters :: "'n \<Rightarrow> 'n"
  nt_ready :: "nat \<Rightarrow> 'n \<Rightarrow> bool"

text \<open>
  What the latch relies on. \<open>en w n\<close>: the future of waiter \<open>w\<close> is registered. A registered
  future is made ready by \<^verbatim>\<open>notify_waiters\<close>, readiness and registration are not taken away
  by other calls, a new future is not ready, and nothing but \<^verbatim>\<open>notify_waiters\<close> makes one ready.
\<close>

definition notify_law :: "'n notify \<Rightarrow> (nat \<Rightarrow> 'n \<Rightarrow> bool) \<Rightarrow> bool" where
  "notify_law T en \<longleftrightarrow>
     (\<forall>w. \<not> nt_ready T w (nt_default T)) \<and>
     (\<forall>w n. en w (nt_enable T w n)) \<and>
     (\<forall>w v n. en w n \<longrightarrow> en w (nt_enable T v n) \<and> (v \<noteq> w \<longrightarrow> en w (nt_notified T v n))) \<and>
     (\<forall>w n. en w n \<longrightarrow> nt_ready T w (nt_notify_waiters T n)) \<and>
     (\<forall>w n. nt_ready T w n \<longrightarrow> nt_ready T w (nt_notify_waiters T n)) \<and>
     (\<forall>w v n. nt_ready T w (nt_enable T v n) = nt_ready T w n) \<and>
     (\<forall>w n. \<not> nt_ready T w (nt_notified T w n)) \<and>
     (\<forall>w v n. v \<noteq> w \<longrightarrow> nt_ready T w (nt_notified T v n) = nt_ready T w n)"

section \<open>The latch\<close>

record 'n death =
  dead_flag :: bool
  dead_notify :: 'n

definition death_default :: "'n notify \<Rightarrow> 'n death" where
  "death_default T = \<lparr>dead_flag = False, dead_notify = nt_default T\<rparr>"

definition death_is_dead :: "'n death \<Rightarrow> bool" where
  "death_is_dead d = dead_flag d"

text \<open>\<^verbatim>\<open>Death::wait\<close>, one access to shared state at a time; \<open>None\<close> is "not ready yet".\<close>

datatype wait_pc = WaitCalled | WaitPinned | WaitEnabled | WaitParked | WaitReturned

fun wait_step :: "'n notify \<Rightarrow> nat \<Rightarrow> wait_pc \<Rightarrow> 'n death \<Rightarrow> (wait_pc \<times> 'n death) option" where
  "wait_step T w WaitCalled d =
     Some (WaitPinned, d\<lparr>dead_notify := nt_notified T w (dead_notify d)\<rparr>)"
| "wait_step T w WaitPinned d =
     Some (WaitEnabled, d\<lparr>dead_notify := nt_enable T w (dead_notify d)\<rparr>)"
| "wait_step T w WaitEnabled d =
     (if death_is_dead d then Some (WaitReturned, d) else Some (WaitParked, d))"
| "wait_step T w WaitParked d =
     (if nt_ready T w (dead_notify d) then Some (WaitReturned, d) else None)"
| "wait_step T w WaitReturned d = None"

text \<open>\<^verbatim>\<open>Death::declare\<close>, run by the drop of the one tombstone.\<close>

datatype tombstone = TombHeld | TombStored | TombDropped

fun declare_step :: "'n notify \<Rightarrow> tombstone \<Rightarrow> 'n death \<Rightarrow> (tombstone \<times> 'n death) option" where
  "declare_step T TombHeld d = Some (TombStored, d\<lparr>dead_flag := True\<rparr>)"
| "declare_step T TombStored d =
     Some (TombDropped, d\<lparr>dead_notify := nt_notify_waiters T (dead_notify d)\<rparr>)"
| "declare_step T TombDropped d = None"

text \<open>The same two bodies, uninterrupted.\<close>

definition death_declare :: "'n notify \<Rightarrow> 'n death \<Rightarrow> 'n death" where
  "death_declare T d =
     d\<lparr>dead_flag := True, dead_notify := nt_notify_waiters T (dead_notify d)\<rparr>"

fun wait_run :: "'n notify \<Rightarrow> nat \<Rightarrow> nat \<Rightarrow> wait_pc \<Rightarrow> 'n death \<Rightarrow> wait_pc \<times> 'n death" where
  "wait_run T 0 w pc d = (pc, d)"
| "wait_run T (Suc n) w pc d =
     (case wait_step T w pc d of None \<Rightarrow> (pc, d) | Some (pc', d') \<Rightarrow> wait_run T n w pc' d')"

lemma death_declare_steps:
  "declare_step T TombHeld d = Some (TombStored, d') \<Longrightarrow>
   declare_step T TombStored d' = Some (TombDropped, death_declare T d)"
  by (auto simp: death_declare_def)

section \<open>Interleavings\<close>

record 'n death_sys =
  ds_death :: "'n death"
  ds_waits :: "nat \<Rightarrow> wait_pc"
  ds_tomb :: tombstone

definition death_init :: "'n notify \<Rightarrow> 'n death_sys" where
  "death_init T =
     \<lparr>ds_death = death_default T, ds_waits = (\<lambda>_. WaitCalled), ds_tomb = TombHeld\<rparr>"

inductive death_step :: "'n notify \<Rightarrow> 'n death_sys \<Rightarrow> 'n death_sys \<Rightarrow> bool" for T where
  step_wait: "wait_step T w (ds_waits s w) (ds_death s) = Some (pc, d) \<Longrightarrow>
    death_step T s (s\<lparr>ds_waits := (ds_waits s)(w := pc), ds_death := d\<rparr>)"
| step_declare: "declare_step T (ds_tomb s) (ds_death s) = Some (p, d) \<Longrightarrow>
    death_step T s (s\<lparr>ds_tomb := p, ds_death := d\<rparr>)"

inductive_cases death_stepE: "death_step T s t"

text \<open>
  The invariant: the flag is up from the store on; a waiter past \<^verbatim>\<open>enable\<close> is registered
  or already woken; once the declaration is complete a parked waiter has been woken; and a
  waiter is woken or returned only after the flag went up.
\<close>

definition death_inv :: "'n notify \<Rightarrow> (nat \<Rightarrow> 'n \<Rightarrow> bool) \<Rightarrow> 'n death_sys \<Rightarrow> bool" where
  "death_inv T en s \<longleftrightarrow>
     (dead_flag (ds_death s) = (ds_tomb s \<noteq> TombHeld)) \<and>
     (\<forall>w. ds_waits s w \<in> {WaitEnabled, WaitParked} \<longrightarrow>
        en w (dead_notify (ds_death s)) \<or> nt_ready T w (dead_notify (ds_death s))) \<and>
     (\<forall>w. ds_waits s w = WaitParked \<and> ds_tomb s = TombDropped \<longrightarrow>
        nt_ready T w (dead_notify (ds_death s))) \<and>
     (\<forall>w. nt_ready T w (dead_notify (ds_death s)) \<longrightarrow> ds_tomb s = TombDropped) \<and>
     (\<forall>w. ds_waits s w = WaitReturned \<longrightarrow> ds_tomb s \<noteq> TombHeld)"


lemma notify_lawD:
  assumes "notify_law T en"
  shows "\<not> nt_ready T w (nt_default T)"
    and "en w (nt_enable T w n)"
    and "en w n \<Longrightarrow> en w (nt_enable T v n)"
    and "en w n \<Longrightarrow> v \<noteq> w \<Longrightarrow> en w (nt_notified T v n)"
    and "en w n \<Longrightarrow> nt_ready T w (nt_notify_waiters T n)"
    and "nt_ready T w n \<Longrightarrow> nt_ready T w (nt_notify_waiters T n)"
    and "nt_ready T w (nt_enable T v n) = nt_ready T w n"
    and "nt_ready T w (nt_notified T v n) = (v \<noteq> w \<and> nt_ready T w n)"
  using assms by (auto simp: notify_law_def) metis

lemma death_inv_init: "notify_law T en \<Longrightarrow> death_inv T en (death_init T)"
  by (simp add: death_inv_def death_init_def death_default_def notify_law_def)

lemma death_inv_wait:
  assumes law: "notify_law T en" and inv: "death_inv T en s"
    and stp: "wait_step T w (ds_waits s w) (ds_death s) = Some (pc, d)"
  shows "death_inv T en (s\<lparr>ds_waits := (ds_waits s)(w := pc), ds_death := d\<rparr>)"
proof (cases "ds_waits s w")
  case WaitCalled
  with inv stp show ?thesis unfolding death_inv_def
    by (auto simp: notify_lawD [OF law])
next
  case WaitPinned
  with inv stp show ?thesis unfolding death_inv_def
    by (auto simp: notify_lawD [OF law])
next
  case WaitEnabled
  with inv stp show ?thesis unfolding death_inv_def
    by (auto simp: death_is_dead_def split: if_splits)
next
  case WaitParked
  with inv stp show ?thesis unfolding death_inv_def
    by (auto split: if_splits)
qed (use stp in simp)

lemma death_inv_declare:
  assumes law: "notify_law T en" and inv: "death_inv T en s"
    and stp: "declare_step T (ds_tomb s) (ds_death s) = Some (p, d)"
  shows "death_inv T en (s\<lparr>ds_tomb := p, ds_death := d\<rparr>)"
proof (cases "ds_tomb s")
  case TombHeld
  with inv stp show ?thesis unfolding death_inv_def by auto
next
  case TombStored
  with inv stp show ?thesis unfolding death_inv_def
    by (auto simp: notify_lawD [OF law])
qed (use stp in simp)

interpretation latch: state_machine "death_init T" "death_step T"
  "\<lambda>s. notify_law T en \<longrightarrow> death_inv T en s" for T :: "'n notify" and en
  by unfold_locales
    (auto simp: death_inv_init elim!: death_stepE intro: death_inv_wait death_inv_declare)

lemma wait_step_flag: "wait_step T w pc d = Some (pc', d') \<Longrightarrow> dead_flag d' = dead_flag d"
  by (cases pc) (auto split: if_splits)

lemma declare_step_flag: "declare_step T p d = Some (p', d') \<Longrightarrow> dead_flag d \<Longrightarrow> dead_flag d'"
  by (cases p) auto

lemma death_flag_mono: "death_step T s t \<Longrightarrow> dead_flag (ds_death s) \<Longrightarrow> dead_flag (ds_death t)"
  by (elim death_stepE) (auto dest: wait_step_flag declare_step_flag)

lemma death_flag_forever:
  "(death_step T)\<^sup>*\<^sup>* s t \<Longrightarrow> dead_flag (ds_death s) \<Longrightarrow> dead_flag (ds_death t)"
  by (induction rule: rtranclp_induct) (auto dest: death_flag_mono)

section \<open>A notifier that satisfies the law\<close>

text \<open>The registered waiters and the woken ones.\<close>

definition sample_notify :: "(nat list \<times> nat list) notify" where
  "sample_notify =
     \<lparr>nt_default = ([], []),
      nt_notified = (\<lambda>w (reg, wok). (removeAll w reg, removeAll w wok)),
      nt_enable = (\<lambda>w (reg, wok). (w # reg, wok)),
      nt_notify_waiters = (\<lambda>(reg, wok). (reg, reg @ wok)),
      nt_ready = (\<lambda>w (reg, wok). w \<in> set wok)\<rparr>"

lemma sample_notify_law: "notify_law sample_notify (\<lambda>w (reg, wok). w \<in> set reg)"
  by (auto simp: notify_law_def sample_notify_def)

text \<open>
  A run in which the declaration lands between the check and the parking of waiter 0: the
  states of the run, in order.
\<close>

definition racing_state :: "(nat list \<times> nat list) death_sys" where
  "racing_state =
     \<lparr>ds_death = \<lparr>dead_flag = True, dead_notify = ([0], [0])\<rparr>,
      ds_waits = (\<lambda>_. WaitCalled)(0 := WaitParked), ds_tomb = TombDropped\<rparr>"

lemma racing_reachable: "reach (death_init sample_notify) (death_step sample_notify) racing_state"
proof -
  let ?i = "death_init sample_notify"
  let ?d = "\<lambda>f n. \<lparr>dead_flag = f, dead_notify = n\<rparr>"
  let ?s = "\<lambda>d pc t. \<lparr>ds_death = d, ds_waits = (\<lambda>_. WaitCalled)(0 := pc), ds_tomb = t\<rparr>"
  have w: "death_step sample_notify (?s d pc t) (?s d' pc' t)"
    if "wait_step sample_notify 0 pc d = Some (pc', d')" for d d' pc pc' t
    using step_wait [of sample_notify 0 "?s d pc t" pc' d'] that by simp
  have c: "death_step sample_notify (?s d pc t) (?s d' pc t')"
    if "declare_step sample_notify t d = Some (t', d')" for d d' pc t t'
    using step_declare [of sample_notify "?s d pc t" t' d'] that by simp
  have 0: "?i = ?s (?d False ([], [])) WaitCalled TombHeld"
    by (simp add: death_init_def death_default_def sample_notify_def fun_eq_iff)
  have "reach ?i (death_step sample_notify) ?i" by (rule reach_init)
  then have "reach ?i (death_step sample_notify) (?s (?d False ([], [])) WaitPinned TombHeld)"
    unfolding 0 by (rule reach_step) (rule w, simp add: sample_notify_def)
  then have "reach ?i (death_step sample_notify) (?s (?d False ([0], [])) WaitEnabled TombHeld)"
    by (rule reach_step) (rule w, simp add: sample_notify_def)
  then have "reach ?i (death_step sample_notify) (?s (?d False ([0], [])) WaitParked TombHeld)"
    by (rule reach_step) (rule w, simp add: death_is_dead_def)
  then have "reach ?i (death_step sample_notify) (?s (?d True ([0], [])) WaitParked TombStored)"
    by (rule reach_step) (rule c, simp)
  then have "reach ?i (death_step sample_notify) (?s (?d True ([0], [0])) WaitParked TombDropped)"
    by (rule reach_step) (rule c, simp add: sample_notify_def)
  then show ?thesis by (simp add: racing_state_def)
qed

section \<open>Properties\<close>

text \<open>C21: no wakeup is lost. However the steps of the waiters and of the declaration
  interleave, once the tombstone has dropped every call of \<^verbatim>\<open>wait\<close> that has not returned
  returns within four of its own steps: a declaration landing between the check of the flag
  and the parking still wakes the waiter, because it registered before it checked.\<close>

theorem no_lost_wakeup:
  assumes "notify_law T en" and "reach (death_init T) (death_step T) s"
    and "ds_tomb s = TombDropped"
  shows "fst (wait_run T 4 w (ds_waits s w) (ds_death s)) = WaitReturned"
proof -
  have inv: "death_inv T en s" using latch.reach_inv [OF assms(2)] assms(1) by blast
  with assms(3) have "death_is_dead (ds_death s)" by (simp add: death_inv_def death_is_dead_def)
  with inv assms(3) show ?thesis
    by (cases "ds_waits s w") (auto simp: death_inv_def death_is_dead_def numeral_eq_Suc)
qed

theorem no_lost_wakeup_witness:
  "fst (wait_run sample_notify 4 0 (ds_waits racing_state 0) (ds_death racing_state)) = WaitReturned"
  by (rule no_lost_wakeup [OF sample_notify_law racing_reachable]) (simp add: racing_state_def)

text \<open>C22: the latch reports no death that has not happened and never takes one back: a
  \<^verbatim>\<open>wait\<close> that has returned means the flag is up, the flag is up only once the tombstone
  began to drop, and a state with the flag up has it up in every later state.\<close>

theorem death_is_a_latch:
  assumes "notify_law T en" and "reach (death_init T) (death_step T) s"
  shows "(ds_waits s w = WaitReturned \<longrightarrow> death_is_dead (ds_death s)) \<and>
    (death_is_dead (ds_death s) \<longleftrightarrow> ds_tomb s \<noteq> TombHeld) \<and>
    ((death_step T)\<^sup>*\<^sup>* s t \<and> death_is_dead (ds_death s) \<longrightarrow> death_is_dead (ds_death t))"
proof -
  have "death_inv T en s" using latch.reach_inv [OF assms(2)] assms(1) by blast
  then show ?thesis
    by (auto simp: death_inv_def death_is_dead_def intro: death_flag_forever)
qed

theorem death_is_a_latch_witness:
  "death_is_dead (ds_death racing_state)"
  using death_is_a_latch [OF sample_notify_law racing_reachable, of 1 racing_state]
  by (simp add: racing_state_def)

end
