(* ===== verification/Ipc_Node.thy ===== *)
theory Ipc_Node
  imports Ipc_Local Ipc_Death
begin

text \<open>
  \<^verbatim>\<open>node.rs\<close>: the receive loop, which turns a datagram into a call of the handler, and the
  node around it: its construction, its two ends of life (the task ends, or the handle is
  dropped) and \<^verbatim>\<open>to_service\<close>.
\<close>

section \<open>The receive loop\<close>

text \<open>
  A \<^verbatim>\<open>Handler\<close> is the application's code: it is lent the payload to write into, owns the
  descriptors, changes a state of its own and the kernel, and may panic.
\<close>

type_synonym ('s, 'k) handler =
  "u8 list \<Rightarrow> fd list \<Rightarrow> ucred option \<Rightarrow> 's \<times> 'k \<Rightarrow> u8 list outcome \<times> 's \<times> 'k"

type_synonym call = "u8 list \<times> fd list \<times> ucred option"

datatype loop_end = LoopHungUp | LoopFailed io_error | LoopPanicked

text \<open>
  \<^verbatim>\<open>recv_loop\<close>, one element of the list per round: the wake-ups of its \<^verbatim>\<open>recv\<close>. The result
  lists the calls of the handler, in order, and how the loop ended, if it has. What a
  dropped message or a hangup carried is closed.
\<close>

fun recv_loop ::
  "bool \<Rightarrow> 'k net \<Rightarrow> ('s, 'k) handler \<Rightarrow> fd \<Rightarrow> 'k wakeups list \<Rightarrow> u8 list \<Rightarrow> 's \<Rightarrow> 'k \<Rightarrow>
   call list \<times> loop_end option \<times> 's \<times> 'k" where
  "recv_loop debug N H d [] buf s k = ([], None, s, k)"
| "recv_loop debug N H d (ws # rounds) buf s k =
     (case reactive_recv debug N d buf (MAX_ANCILLARY_BUFFER_SIZE N) ws k of
        (None, k1) \<Rightarrow> ([], None, s, k1)
      | (Some (Inl e), k1) \<Rightarrow> ([], Some (LoopFailed e), s, k1)
      | (Some (Inr Panicked), k1) \<Rightarrow> ([], Some LoopPanicked, s, k1)
      | (Some (Inr (Returned (r, buf1))), k1) \<Rightarrow>
          if rc_bytes r = 0 then ([], Some LoopHungUp, s, close_all N (rc_fds r) k1)
          else if received_truncated r (length buf1)
          then recv_loop debug N H d rounds buf1 s (close_all N (rc_fds r) k1)
          else
            (let call = (take (rc_bytes r) buf1, rc_fds r, rc_creds r)
             in case H (take (rc_bytes r) buf1) (rc_fds r) (rc_creds r) (s, k1) of
                  (Panicked, s1, k2) \<Rightarrow> ([call], Some LoopPanicked, s1, k2)
                | (Returned data, s1, k2) \<Rightarrow>
                    (case recv_loop debug N H d rounds
                            (overwrite (take (rc_bytes r) data) buf1) s1 k2 of
                       (calls, rest) \<Rightarrow> (call # calls, rest))))"

definition recv_loop_start ::
  "bool \<Rightarrow> 'k net \<Rightarrow> ('s, 'k) handler \<Rightarrow> fd \<Rightarrow> 'k wakeups list \<Rightarrow> 's \<Rightarrow> 'k \<Rightarrow>
   call list \<times> loop_end option \<times> 's \<times> 'k" where
  "recv_loop_start debug N H d rounds = recv_loop debug N H d rounds (replicate MAX_MESSAGE_SIZE 0)"

section \<open>Nodes\<close>

text \<open>What the spawned task owns: the socket, its entry in \<^verbatim>\<open>LOCALS\<close>, and the tombstone.\<close>

record node_task =
  nt_socket :: fd
  nt_local :: "local_entry option"

record 'n node =
  nd_handler :: addr
  nd_death :: "'n death"
  nd_task :: node_task

text \<open>\<^verbatim>\<open>Node::new_raw\<close>; \<open>feature\<close> is \<^verbatim>\<open>local-handlers\<close>.\<close>

definition node_new_raw ::
  "bool \<Rightarrow> 'n notify \<Rightarrow> 'k net \<Rightarrow> nat option \<Rightarrow> addr \<Rightarrow> addr \<Rightarrow> 'o caps \<times> locals \<times> 'k \<Rightarrow>
   ('n node \<times> addr, node_error) result \<times> ('o caps \<times> locals \<times> 'k)" where
  "node_new_raw feature T N rt a h = (\<lambda>(c, l, k).
     (case wire_socketpair N k of
        (Inl e, k1) \<Rightarrow> (Inl (node_error_from_io e), (c, l, k1))
      | (Inr (tx, rx), k1) \<Rightarrow>
          (case reactive_new N rx (enable_credentials N rx k1) of
             (Inl e, k2) \<Rightarrow> (Inl (node_error_from_io e), (c, l, net_close N tx k2))
           | (Inr socket, k2) \<Rightarrow>
               (case ref_from_fd N rt a tx (c, k2) of
                  (r, (c1, k3)) \<Rightarrow>
                    (case (if feature then ref_socket_id (cp_heap c1) r else None) of
                       None \<Rightarrow>
                         (Inr (\<lparr>nd_handler = h, nd_death = death_default T,
                                nd_task = \<lparr>nt_socket = socket, nt_local = None\<rparr>\<rparr>, r), (c1, l, k3))
                     | Some i \<Rightarrow>
                         (case local_entry_file i h l of
                            (e, l1) \<Rightarrow>
                              (Inr (\<lparr>nd_handler = h, nd_death = death_default T,
                                     nd_task = \<lparr>nt_socket = socket, nt_local = Some e\<rparr>\<rparr>, r),
                               (c1, l1, k3))))))))"

definition node_new ::
  "bool \<Rightarrow> 'n notify \<Rightarrow> 'k net \<Rightarrow> nat option \<Rightarrow> addr \<Rightarrow> addr \<Rightarrow> 'o caps \<times> locals \<times> 'k \<Rightarrow>
   ('n node \<times> addr, node_error) result \<times> ('o caps \<times> locals \<times> 'k)" where
  "node_new feature T N rt a h = node_new_raw feature T N rt a h"

definition node_is_dead :: "'n node \<Rightarrow> bool" where
  "node_is_dead n = death_is_dead (nd_death n)"

text \<open>\<^verbatim>\<open>handler\<close>, also what \<^verbatim>\<open>Deref\<close> gives.\<close>

definition node_handler :: "'n node \<Rightarrow> addr" where
  "node_handler n = nd_handler n"

definition node_deref :: "'n node \<Rightarrow> addr" where
  "node_deref n = node_handler n"

definition node_death_notification ::
  "'n notify \<Rightarrow> nat \<Rightarrow> nat \<Rightarrow> wait_pc \<Rightarrow> 'n node \<Rightarrow> wait_pc \<times> 'n node" where
  "node_death_notification T fuel w pc n =
     (case wait_run T fuel w pc (nd_death n) of (pc', d) \<Rightarrow> (pc', n\<lparr>nd_death := d\<rparr>))"

definition node_debug :: "'n node \<Rightarrow> string" where
  "node_debug n = ''Node { dead: '' @ (if node_is_dead n then ''true'' else ''false'') @ '', .. }''"

section \<open>The life of a node\<close>

text \<open>
  The handle is held, dropped with its abort handle armed, or was given up with
  \<^verbatim>\<open>to_service\<close>, which disarms it. The task runs its loop; when the loop ends or the task is
  aborted, the loop's socket and its share of the handler are dropped, then the entry in
  \<^verbatim>\<open>LOCALS\<close>, then the tombstone.
\<close>

datatype node_handle = HandleHeld | HandleDropped | HandleService

datatype task_stage = TaskRunning | TaskSocketClosed | TaskUnfiled

datatype task_cause = NotEnded | LoopReturned | Aborted

record 'n node_sys =
  ns_handle :: node_handle
  ns_task :: task_stage
  ns_cause :: task_cause
  ns_filed :: bool
  ns_tomb :: tombstone
  ns_death :: "'n death"

definition node_sys_init :: "'n notify \<Rightarrow> bool \<Rightarrow> 'n node_sys" where
  "node_sys_init T filed =
     \<lparr>ns_handle = HandleHeld, ns_task = TaskRunning, ns_cause = NotEnded, ns_filed = filed,
      ns_tomb = TombHeld, ns_death = death_default T\<rparr>"

inductive node_step :: "'n notify \<Rightarrow> 'n node_sys \<Rightarrow> 'n node_sys \<Rightarrow> bool" for T where
  step_node_drop: "ns_handle s = HandleHeld \<Longrightarrow>
    node_step T s (s\<lparr>ns_handle := HandleDropped\<rparr>)"
| step_to_service: "ns_handle s = HandleHeld \<Longrightarrow>
    node_step T s (s\<lparr>ns_handle := HandleService\<rparr>)"
| step_abort: "ns_handle s = HandleDropped \<Longrightarrow> ns_task s = TaskRunning \<Longrightarrow>
    node_step T s (s\<lparr>ns_task := TaskSocketClosed, ns_cause := Aborted\<rparr>)"
| step_loop_end: "ns_task s = TaskRunning \<Longrightarrow>
    node_step T s (s\<lparr>ns_task := TaskSocketClosed, ns_cause := LoopReturned\<rparr>)"
| step_task_unfile: "ns_task s = TaskSocketClosed \<Longrightarrow>
    node_step T s (s\<lparr>ns_task := TaskUnfiled, ns_filed := False\<rparr>)"
| step_tombstone: "ns_task s = TaskUnfiled \<Longrightarrow>
    declare_step T (ns_tomb s) (ns_death s) = Some (p, d) \<Longrightarrow>
    node_step T s (s\<lparr>ns_tomb := p, ns_death := d\<rparr>)"
| step_node_wait: "wait_step T w pc (ns_death s) = Some (pc', d) \<Longrightarrow>
    node_step T s (s\<lparr>ns_death := d\<rparr>)"

inductive_cases node_stepE: "node_step T s t"

end
