(* ===== verification/Ipc_Node_Props.thy ===== *)
theory Ipc_Node_Props
  imports Ipc_Node
begin

text \<open>
  What a node promises: its handler is called with exactly the datagrams that arrived, it
  reports its death only after its task, and building one leaves nothing behind on failure.
\<close>

section \<open>What a sequenced-packet socket promises\<close>

text \<open>
  \<open>q\<close> lists the datagrams waiting at descriptor \<open>d\<close>, each its payload and the number of
  descriptors in flight with it; \<open>hung\<close> says that nobody can send any more. A receive with
  room for every descriptor takes one whole datagram from the front: its own length with
  \<^verbatim>\<open>MSG_TRUNC\<close>, as many of its bytes as fit, its descriptors under new numbers and the sender's
  credentials, none of it truncated. At the end it reads zero bytes, and otherwise nothing to
  read is \<^verbatim>\<open>WouldBlock\<close>. Closing another descriptor takes no datagram away, but may hang the
  socket up.
\<close>

type_synonym datagram = "u8 list \<times> nat"

definition seqpacket_law :: "'k net \<Rightarrow> fd \<Rightarrow> ('k \<Rightarrow> datagram list) \<Rightarrow> ('k \<Rightarrow> bool) \<Rightarrow> bool" where
  "seqpacket_law N d q hung \<longleftrightarrow>
     (\<forall>k len. q k = [] \<and> hung k \<longrightarrow>
        (\<exists>k'. net_recvmsg N d len (MAX_ANCILLARY_BUFFER_SIZE N) {CMSG_CLOEXEC, TRUNC} k =
           (Inr \<lparr>rr_bytes = 0, rr_written = [], rr_anc = [], rr_ctrunc = False\<rparr>, k') \<and> hung k')) \<and>
     (\<forall>k len. q k = [] \<and> \<not> hung k \<longrightarrow>
        (\<exists>e k'. net_recvmsg N d len (MAX_ANCILLARY_BUFFER_SIZE N) {CMSG_CLOEXEC, TRUNC} k = (Inl e, k') \<and>
           io_error_kind e = WouldBlock)) \<and>
     (\<forall>k len p n ps. q k = (p, n) # ps \<longrightarrow>
        (\<exists>anc k'. net_recvmsg N d len (MAX_ANCILLARY_BUFFER_SIZE N) {CMSG_CLOEXEC, TRUNC} k =
           (Inr \<lparr>rr_bytes = length p, rr_written = take len p, rr_anc = anc, rr_ctrunc = False\<rparr>, k') \<and>
           q k' = ps \<and> hung k' = hung k \<and> length (fst (collect_ancillary anc ([], None))) = n \<and>
           d \<notin> set (fst (collect_ancillary anc ([], None))))) \<and>
     (\<forall>f k. f \<noteq> d \<longrightarrow> q (net_close N f k) = q k \<and> (hung k \<longrightarrow> hung (net_close N f k)))"

text \<open>
  A round that is woken once, while nothing arrives; and a handler that, unless it is handed
  the socket itself, neither takes datagrams from it nor sends any to it.
\<close>

definition keeps :: "('k \<Rightarrow> datagram list) \<Rightarrow> ('k \<Rightarrow> bool) \<Rightarrow> 'k \<Rightarrow> 'k \<Rightarrow> bool" where
  "keeps q hung k k' \<longleftrightarrow> q k' = q k \<and> (hung k \<longrightarrow> hung k')"

definition quiet :: "('k \<Rightarrow> datagram list) \<Rightarrow> ('k \<Rightarrow> bool) \<Rightarrow> 'k wakeups \<Rightarrow> bool" where
  "quiet q hung ws \<longleftrightarrow> (\<exists>env. ws = [Inr env] \<and> (\<forall>k. keeps q hung k (env k)))"

definition hands_off ::
  "fd \<Rightarrow> ('k \<Rightarrow> datagram list) \<Rightarrow> ('k \<Rightarrow> bool) \<Rightarrow> ('s, 'k) handler \<Rightarrow> bool" where
  "hands_off d q hung H \<longleftrightarrow>
     (\<forall>p fs cr s k. d \<notin> set fs \<longrightarrow> keeps q hung k (snd (snd (H p fs cr (s, k)))))"

text \<open>The datagrams the handler is due: up to the first empty one, without the oversized.\<close>

fun deliveries :: "datagram list \<Rightarrow> datagram list" where
  "deliveries [] = []"
| "deliveries (p # ps) =
     (if fst p = [] then [] else if MAX_MESSAGE_SIZE < length (fst p) then deliveries ps
      else p # deliveries ps)"

text \<open>What a call of the handler shows of the datagram it was made for.\<close>

definition call_datagram :: "call \<Rightarrow> datagram" where
  "call_datagram c = (fst c, length (fst (snd c)))"

lemma keeps_refl [simp]: "keeps q hung k k"
  by (simp add: keeps_def)

lemma keeps_trans [trans]: "keeps q hung k k1 \<Longrightarrow> keeps q hung k1 k2 \<Longrightarrow> keeps q hung k k2"
  by (simp add: keeps_def)

lemma close_all_keeps:
  assumes "seqpacket_law N d q hung" and "d \<notin> set fs"
  shows "keeps q hung k (close_all N fs k)"
  using assms(2)
proof (induction fs arbitrary: k)
  case (Cons f fs)
  with assms(1) have "keeps q hung k (net_close N f k)"
    by (simp add: seqpacket_law_def keeps_def)
  with Cons show ?case by (auto simp: close_all_def intro: keeps_trans)
qed (simp add: close_all_def)

text \<open>One round: nothing, the end, or the datagram at the front.\<close>

lemma recv_round:
  assumes law: "seqpacket_law N d q hung" and ws: "quiet q hung ws"
  obtains (empty) k1 where "q k = []" "\<not> hung k"
      "reactive_recv debug N d buf (MAX_ANCILLARY_BUFFER_SIZE N) ws k = (None, k1)"
    | (hup) k1 where "q k = []" "hung k1"
      "reactive_recv debug N d buf (MAX_ANCILLARY_BUFFER_SIZE N) ws k =
        (Some (Inr (Returned (\<lparr>rc_bytes = 0, rc_fds = [], rc_creds = None\<rparr>, buf))), k1)"
    | (datagram) p n ps fds creds k1 where "q k = (p, n) # ps" "q k1 = ps" "hung k \<longrightarrow> hung k1"
      "d \<notin> set fds" "length fds = n"
      "reactive_recv debug N d buf (MAX_ANCILLARY_BUFFER_SIZE N) ws k =
        (Some (Inr (Returned (\<lparr>rc_bytes = length p, rc_fds = fds, rc_creds = creds\<rparr>,
           overwrite (take (length buf) p) buf))), k1)"
proof -
  from ws obtain env where env: "ws = [Inr env]" "q (env k) = q k" "hung k \<longrightarrow> hung (env k)"
    by (auto simp: quiet_def keeps_def)
  show thesis
  proof (cases "q k")
    case Nil
    show thesis
    proof (cases "hung (env k)")
      case True
      with law env Nil obtain k1 where "net_recvmsg N d (length buf) (MAX_ANCILLARY_BUFFER_SIZE N)
          {CMSG_CLOEXEC, TRUNC} (env k) =
          (Inr \<lparr>rr_bytes = 0, rr_written = [], rr_anc = [], rr_ctrunc = False\<rparr>, k1)" "hung k1"
        unfolding seqpacket_law_def by metis
      with env Nil show thesis
        by (intro hup [of k1]) (simp_all add: reactive_recv_def recv_now_def io_defs overwrite_def)
    next
      case False
      with law env Nil obtain e k1 where "net_recvmsg N d (length buf) (MAX_ANCILLARY_BUFFER_SIZE N)
          {CMSG_CLOEXEC, TRUNC} (env k) = (Inl e, k1)" "io_error_kind e = WouldBlock"
        unfolding seqpacket_law_def by metis
      with env Nil False show thesis
        by (intro empty [of k1]) (auto simp add: reactive_recv_def recv_now_def io_defs)
    qed
  next
    case (Cons pn ps)
    obtain p n where pn: "pn = (p, n)" by fastforce
    with Cons env have "q (env k) = (p, n) # ps" by simp
    with law obtain anc k1 where r: "net_recvmsg N d (length buf) (MAX_ANCILLARY_BUFFER_SIZE N)
        {CMSG_CLOEXEC, TRUNC} (env k) = (Inr \<lparr>rr_bytes = length p, rr_written = take (length buf) p,
          rr_anc = anc, rr_ctrunc = False\<rparr>, k1)" "q k1 = ps" "hung k1 = hung (env k)"
        "length (fst (collect_ancillary anc ([], None))) = n"
        "d \<notin> set (fst (collect_ancillary anc ([], None)))"
      unfolding seqpacket_law_def by metis
    obtain fds creds where c: "collect_ancillary anc ([], None) = (fds, creds)" by fastforce
    from r c env Cons pn show thesis
      by (intro datagram [of p n ps k1 fds creds]) (simp_all add: reactive_recv_def recv_now_def io_defs)
  qed
qed

lemma overwrite_length: "length w \<le> length buf \<Longrightarrow> length (overwrite w buf) = length buf"
  by (simp add: overwrite_def)

lemma overwrite_take: "take (length w) (overwrite w buf) = w"
  by (simp add: overwrite_def)

text \<open>A call of the handler that panics, in some state.\<close>

definition panics_on :: "('s, 'k) handler \<Rightarrow> call \<Rightarrow> bool" where
  "panics_on H c \<longleftrightarrow> (\<exists>s k. fst (H (fst c) (fst (snd c)) (snd (snd c)) (s, k)) = Panicked)"

text \<open>What the loop has delivered of \<open>due\<close>, and how it may have ended in kernel \<open>k'\<close>.\<close>

definition delivered ::
  "('s, 'k) handler \<Rightarrow> datagram list \<Rightarrow> bool \<Rightarrow> bool \<Rightarrow> call list \<Rightarrow> loop_end option \<Rightarrow> bool \<Rightarrow> bool" where
  "delivered H due stop hup calls e hup' \<longleftrightarrow>
     prefix (map call_datagram calls) due \<and>
     (if e = Some LoopPanicked then \<exists>c \<in> set calls. panics_on H c
      else map call_datagram calls = due \<and> (e = None \<or> e = Some LoopHungUp) \<and>
        (hup \<or> stop \<longrightarrow> e = Some LoopHungUp) \<and> (e = Some LoopHungUp \<longrightarrow> hup' \<or> stop))"

lemma delivered_Cons:
  "delivered H due stop hup calls e hup' \<Longrightarrow> (hup0 \<longrightarrow> hup) \<Longrightarrow>
   delivered H (call_datagram c # due) stop hup0 (c # calls) e hup'"
  by (auto simp: delivered_def)

lemma delivered_weaken:
  "delivered H due stop hup calls e hup' \<Longrightarrow> (hup0 \<longrightarrow> hup) \<Longrightarrow> delivered H due stop hup0 calls e hup'"
  by (auto simp: delivered_def)

text \<open>The state of a handler that keeps it apart from the kernel is a fold over its calls.\<close>

definition fold_calls :: "(u8 list \<Rightarrow> fd list \<Rightarrow> 's \<Rightarrow> 's) \<Rightarrow> call list \<Rightarrow> 's \<Rightarrow> 's" where
  "fold_calls f = fold (\<lambda>c. f (fst c) (fst (snd c)))"

lemma recv_loop_state:
  assumes "\<And>p fds cr s k. fst (snd (H p fds cr (s, k))) = f p fds s"
  shows "recv_loop debug N H d rounds buf s k = (calls, e, s', k') \<Longrightarrow> s' = fold_calls f calls s"
proof (induction rounds arbitrary: buf s k calls)
  case (Cons ws rounds)
  note run = Cons.prems
  obtain out k1 where r: "reactive_recv debug N d buf (MAX_ANCILLARY_BUFFER_SIZE N) ws k = (out, k1)"
    by fastforce
  consider (stop) "out = None \<or> (\<exists>x. out = Some (Inl x)) \<or> out = Some (Inr Panicked)"
    | (msg) x buf1 where "out = Some (Inr (Returned (x, buf1)))"
    by (metis old.prod.exhaust option.exhaust outcome.exhaust sum.exhaust)
  then show ?case
  proof cases
    case stop
    with run r show ?thesis by (auto simp: fold_calls_def)
  next
    case msg
    obtain o1 s1 k2 where h: "H (take (rc_bytes x) buf1) (rc_fds x) (rc_creds x) (s, k1) = (o1, s1, k2)"
      by (metis prod.exhaust)
    then have s1: "s1 = f (take (rc_bytes x) buf1) (rc_fds x) s" using assms by (metis fst_conv snd_conv)
    from run r msg h s1 Cons.IH show ?thesis
      by (cases o1) (auto simp: fold_calls_def split: if_splits prod.splits)
  qed
qed (simp add: fold_calls_def)

lemma recv_loop_delivers:
  assumes law: "seqpacket_law N d q hung" and off: "hands_off d q hung H"
  shows "\<forall>ws \<in> set rounds. quiet q hung ws \<Longrightarrow> length (q k) < length rounds \<Longrightarrow>
    length buf = MAX_MESSAGE_SIZE \<Longrightarrow> recv_loop debug N H d rounds buf s k = (calls, e, s', k') \<Longrightarrow>
    delivered H (deliveries (q k)) ([] \<in> fst ` set (q k)) (hung k) calls e (hung k')"
proof (induction rounds arbitrary: k buf s calls)
  case (Cons ws rounds)
  have wsq: "quiet q hung ws" using Cons.prems(1) by simp
  note run = Cons.prems(4)
  show ?case
  proof (cases rule: recv_round [OF law wsq, of k debug buf])
    case (1 k1)
    with run show ?thesis by (simp add: delivered_def)
  next
    case (2 k1)
    with run show ?thesis by (auto simp: close_all_def delivered_def)
  next
    case datagram: (3 p n ps fds creds k1)
    let ?buf = "overwrite (take (length buf) p) buf"
    have len: "length ?buf = MAX_MESSAGE_SIZE" using Cons.prems(3) by (simp add: overwrite_length)
    have rounds: "\<forall>ws \<in> set rounds. quiet q hung ws" "length ps < length rounds"
      using Cons.prems(1,2) datagram(1) by simp_all
    have IH: "delivered H (deliveries ps) ([] \<in> fst ` set ps) (hung k) cs e (hung k')"
      if "keeps q hung k1 k2" "length buf2 = MAX_MESSAGE_SIZE"
        "recv_loop debug N H d rounds buf2 s2 k2 = (cs, e, s', k')" for k2 buf2 s2 cs
    proof -
      have "q k2 = ps" "hung k \<longrightarrow> hung k2" using that(1) datagram(2,3) by (auto simp: keeps_def)
      with Cons.IH [OF rounds(1) _ that(2,3)] rounds(2) show ?thesis by (auto intro: delivered_weaken)
    qed
    consider (zero) "p = []" | (big) "p \<noteq> []" "MAX_MESSAGE_SIZE < length p"
      | (fits) "p \<noteq> []" "length p \<le> MAX_MESSAGE_SIZE" by fastforce
    then show ?thesis
    proof cases
      case zero
      with run datagram show ?thesis by (auto simp: delivered_def)
    next
      case big
      have "recv_loop debug N H d rounds ?buf s (close_all N fds k1) = (calls, e, s', k')"
        using run datagram(6) big len by (simp add: received_truncated_def)
      from IH [OF close_all_keeps [OF law datagram(4)] len this] show ?thesis
        using datagram(1) big by auto
    next
      case fits
      then have take_p: "take (length p) ?buf = p"
        using overwrite_take [of p buf] Cons.prems(3) by simp
      have not_big: "\<not> received_truncated \<lparr>rc_bytes = length p, rc_fds = fds, rc_creds = creds\<rparr> (length ?buf)"
        using fits len by (simp add: received_truncated_def)
      have due: "deliveries (q k) = call_datagram (p, fds, creds) # deliveries ps"
        "([] \<in> fst ` set (q k)) = ([] \<in> fst ` set ps)"
        using datagram(1,5) fits by (auto simp: call_datagram_def)
      obtain out s1 k2 where h: "H p fds creds (s, k1) = (out, s1, k2)" by (metis prod.exhaust)
      with off datagram(4) have kept: "keeps q hung k1 k2" unfolding hands_off_def by (metis snd_conv)
      show ?thesis
      proof (cases out)
        case Panicked
        with run datagram fits take_p not_big h
        have "calls = [(p, fds, creds)]" "e = Some LoopPanicked" by auto
        moreover have "panics_on H (p, fds, creds)"
          using h Panicked unfolding panics_on_def by (metis fst_conv snd_conv)
        ultimately show ?thesis using due by (simp add: delivered_def)
      next
        case (Returned data)
        let ?buf2 = "overwrite (take (length p) data) ?buf"
        obtain cs rest where r: "recv_loop debug N H d rounds ?buf2 s1 k2 = (cs, rest)"
          by (rule prod.exhaust)
        with run datagram fits take_p not_big h Returned
        have c: "calls = (p, fds, creds) # cs" "rest = (e, s', k')" by simp_all
        have "length ?buf2 = MAX_MESSAGE_SIZE" using len fits by (simp add: overwrite_length)
        from IH [OF kept this r [unfolded c]] show ?thesis
          unfolding c due by (rule delivered_Cons) simp
      qed
    qed
  qed
qed simp

section \<open>The life of a node\<close>

definition node_inv :: "bool \<Rightarrow> 'n node_sys \<Rightarrow> bool" where
  "node_inv filed s \<longleftrightarrow>
     dead_flag (ns_death s) = (ns_tomb s \<noteq> TombHeld) \<and>
     (ns_tomb s \<noteq> TombHeld \<longrightarrow> ns_task s = TaskUnfiled) \<and>
     ns_filed s = (filed \<and> ns_task s \<noteq> TaskUnfiled) \<and>
     (ns_cause s = NotEnded) = (ns_task s = TaskRunning) \<and>
     (ns_cause s = Aborted \<longrightarrow> ns_handle s = HandleDropped)"

lemma node_inv_init: "node_inv filed (node_sys_init T filed)"
  by (simp add: node_inv_def node_sys_init_def death_default_def)

lemma declare_step_cases:
  "declare_step T p d = Some (p', d') \<Longrightarrow> p' \<noteq> TombHeld \<and> dead_flag d'  = (p = TombHeld \<or> dead_flag d)"
  by (cases p) auto

lemma node_inv_step: "node_inv filed s \<Longrightarrow> node_step T s s' \<Longrightarrow> node_inv filed s'"
  by (erule node_stepE)
    (auto simp: node_inv_def dest: declare_step_cases wait_step_flag)

interpretation node_life: state_machine "node_sys_init T filed" "node_step T" "node_inv filed"
  for T :: "'n notify" and filed
  by unfold_locales (auto intro: node_inv_init node_inv_step)

section \<open>Descriptors of a new node\<close>

text \<open>
  A socket pair is two new descriptors or none; asking for credentials and closing change
  nothing else.
\<close>

definition pair_law :: "'k net \<Rightarrow> ('k \<Rightarrow> fd set) \<Rightarrow> bool" where
  "pair_law N opn \<longleftrightarrow>
     (\<forall>fl k e k'. net_socketpair N fl k = (Inl e, k') \<longrightarrow> opn k' = opn k) \<and>
     (\<forall>fl k a b k'. net_socketpair N fl k = (Inr (a, b), k') \<longrightarrow>
        a \<noteq> b \<and> a \<notin> opn k \<and> b \<notin> opn k \<and> opn k' = insert a (insert b (opn k))) \<and>
     (\<forall>d v k. opn (snd (net_passcred N d v k)) = opn k)"

lemma sample_pair_law: "pair_law sample_net (\<lambda>k. set (sk_open k))"
proof -
  have second: "sample_fresh (k\<lparr>sk_open := sample_fresh k # sk_open k\<rparr>) \<notin> set (sk_open k)"
    "sample_fresh (k\<lparr>sk_open := sample_fresh k # sk_open k\<rparr>) \<noteq> sample_fresh k" for k
    using sample_fresh [of "k\<lparr>sk_open := sample_fresh k # sk_open k\<rparr>"] by simp_all
  show ?thesis
    by (auto simp: pair_law_def sample_net_def sample_new_fd_def io_defs sample_fresh second
        dest: second(2) [THEN notE, rotated, OF sym] second(2) [THEN notE, rotated])
qed

lemma reactive_new_open:
  assumes "descriptor_law N opn" and "reactive_new N d k = (r, k')"
  shows "case r of Inl e \<Rightarrow> opn k' = opn k - {d} | Inr d' \<Rightarrow> d' = d \<and> opn k' = opn k"
proof -
  obtain x k1 where x: "net_async_fd N d k = (x, k1)" by fastforce
  have a: "opn k1 = opn k" using other_calls_open [OF assms(1)] x by (metis snd_conv)
  have c: "opn (net_close N d k1) = opn k1 - {d}" using other_calls_open [OF assms(1)] by blast
  show ?thesis using assms(2) x a c
    by (auto simp: reactive_new_def io_defs split: sum.splits)
qed

text \<open>C30: building a node fails without a trace and succeeds with a live one. When
  \<^verbatim>\<open>Node::new_raw\<close> fails, at the socket pair or at the registration with the reactor, no
  descriptor stays open and no registry has changed; when it succeeds the node is not dead,
  gives back the handler it was built from, and a \<^verbatim>\<open>Ref\<close> with an identity already leads back
  to that handler, if the feature is on and the handler is asked for by its type.\<close>

theorem node_new_is_clean:
  assumes "descriptor_law N opn" and "pair_law N opn"
    and "node_new_raw feature T N rt a h (c, l, k) = (res, (c', l', k'))"
  shows "case res of
      Inl e \<Rightarrow> opn k' = opn k \<and> c' = c \<and> l' = l
    | Inr (n, r) \<Rightarrow> \<not> node_is_dead n \<and> node_handler n = h \<and>
        (\<forall>x i y. cp_heap c' r = Some x \<and> ri_id (inner x) = Some i \<and> feature \<and>
           lc_heap l h = Some y \<and> hc_strong y \<noteq> 0 \<longrightarrow>
           fst (ref_local_handler (hc_type y) (inner x) l') = Some h)"
proof -
  obtain p k1 where p: "wire_socketpair N k = (p, k1)" by fastforce
  show ?thesis
  proof (cases p)
    case (Inl e)
    with p assms(2) have "opn k1 = opn k" by (auto simp: wire_socketpair_def pair_law_def)
    with assms(3) p Inl show ?thesis by (auto simp: node_new_raw_def)
  next
    case (Inr tr)
    obtain tx rx where tr: "tr = (tx, rx)" by fastforce
    have pair: "tx \<noteq> rx" "tx \<notin> opn k" "rx \<notin> opn k" "opn k1 = insert tx (insert rx (opn k))"
      using assms(2) p unfolding wire_socketpair_def pair_law_def Inr tr by blast+
    let ?k2 = "enable_credentials N rx k1"
    have cred: "opn ?k2 = opn k1" using assms(2) by (simp add: enable_credentials_def pair_law_def)
    obtain x k3 where x: "reactive_new N rx ?k2 = (x, k3)" by fastforce
    note reg = reactive_new_open [OF assms(1) x]
    show ?thesis
    proof (cases x)
      case (Inl e)
      have "opn (net_close N tx k3) = opn k3 - {tx}" using other_calls_open [OF assms(1)] by blast
      with reg Inl cred pair have "opn (net_close N tx k3) = opn k" by auto
      with assms(3) p Inr tr x Inl show ?thesis by (auto simp: node_new_raw_def)
    next
      case sock: (Inr s)
      with assms(3) p Inr tr x show ?thesis
        by (auto simp: node_new_raw_def ref_socket_id_def node_is_dead_def node_handler_def death_is_dead_def
            death_default_def ref_local_handler_def local_entry_file_def local_handler_def Let_def
            split: prod.splits option.splits if_splits)
    qed
  qed
qed

theorem node_new_is_clean_witness:
  "\<exists>n r c l k. node_new_raw True sample_notify sample_net None 1 5
      (\<lparr>cp_heap = Map.empty, cp_refs = Map.empty\<rparr>,
       \<lparr>lc_heap = [5 \<mapsto> \<lparr>hc_strong = 1, hc_type = 3\<rparr>], lc_map = Map.empty\<rparr>, sample_kernel) =
      (Inr (n, r), (c :: unit caps, l, k)) \<and> \<not> node_is_dead n \<and> node_handler n = 5"
proof -
  let ?c = "\<lparr>cp_heap = Map.empty, cp_refs = Map.empty\<rparr> :: unit caps"
  let ?l = "\<lparr>lc_heap = [5 \<mapsto> \<lparr>hc_strong = 1, hc_type = 3\<rparr>], lc_map = Map.empty\<rparr>"
  have "\<exists>n r c l k. node_new_raw True sample_notify sample_net None 1 5 (?c, ?l, sample_kernel) =
      (Inr (n, r), (c, l, k))"
    by (simp add: node_new_raw_def wire_socketpair_def sample_defs io_defs reactive_new_def
        enable_credentials_def ref_from_fd_def ref_socket_id_def socket_id_def arc_new_def local_entry_file_def ref_inner_new_def)
  then obtain n r c l k where run: "node_new_raw True sample_notify sample_net None 1 5
      (?c, ?l, sample_kernel) = (Inr (n, r), (c, l, k))" by blast
  from node_new_is_clean [OF sample_descriptor_law sample_pair_law run] run show ?thesis by auto
qed

section \<open>Properties\<close>

text \<open>C9: the handler gets exactly what was sent. Whatever the handler does with the buffer it
  is lent, and whatever was in it before, its calls have the datagrams waiting at the socket,
  in order, each whole and byte for byte and with all the descriptors that were attached, up
  to the first empty one and without those above the limit. It misses none unless it panics;
  then the loop has returned if an empty datagram or the hangup of all senders was reached,
  and for no other reason.\<close>

theorem handler_gets_what_was_sent:
  assumes "seqpacket_law N d q hung" and "hands_off d q hung H"
    and "\<forall>ws \<in> set rounds. quiet q hung ws" and "length (q k) < length rounds"
    and "recv_loop_start debug N H d rounds s k = (calls, e, s', k')"
  shows "prefix (map call_datagram calls) (deliveries (q k)) \<and>
    (if e = Some LoopPanicked then \<exists>c \<in> set calls. panics_on H c
     else map call_datagram calls = deliveries (q k) \<and> (e = None \<or> e = Some LoopHungUp) \<and>
       (hung k \<or> [] \<in> fst ` set (q k) \<longrightarrow> e = Some LoopHungUp) \<and>
       (e = Some LoopHungUp \<longrightarrow> hung k' \<or> [] \<in> fst ` set (q k)))"
  using recv_loop_delivers [OF assms(1-4) _ assms(5) [unfolded recv_loop_start_def]]
  by (simp add: delivered_def)

text \<open>A kernel with one long and then one short datagram, which must not show the long one's tail.\<close>

definition two_datagrams :: skern where
  "two_datagrams = sample_kernel\<lparr>sk_queue := [([1, 2, 3], [7]), ([9], [])]\<rparr>"

definition sample_waiting :: "skern \<Rightarrow> datagram list" where
  "sample_waiting k = map (\<lambda>(p, fs). (p, length fs)) (sk_queue k)"

lemma sample_seqpacket_law: "seqpacket_law sample_net 0 sample_waiting sk_gone"
proof -
  have anc: "length (fst (collect_ancillary a ([], None))) = length fs \<and>
      0 \<notin> set (fst (collect_ancillary a ([], None)))"
    if "a = (if fs = [] then [] else [ScmRights [sample_fresh k ..< sample_fresh k + length fs]])
      @ [ScmCredentials (1, 0, 0)]" for fs :: "fd list" and k a
  proof -
    have "length ds = length fs \<and> 0 \<notin> set ds" if "ds = [sample_fresh k ..< sample_fresh k + length fs]"
      for ds using that by (simp add: sample_fresh_def del: upt_Suc)
    with that show ?thesis by auto
  qed
  have data: "\<exists>anc k'. sample_recvmsg 0 len c {CMSG_CLOEXEC, TRUNC} k =
      (Inr \<lparr>rr_bytes = length p, rr_written = take len p, rr_anc = anc, rr_ctrunc = False\<rparr>, k') \<and>
      sample_waiting k' = ps \<and> sk_gone k' = sk_gone k \<and>
      length (fst (collect_ancillary anc ([], None))) = n \<and>
      0 \<notin> set (fst (collect_ancillary anc ([], None)))"
    if "sample_waiting k = (p, n) # ps" for k len c p n ps
  proof -
    from that obtain fs rest where qk: "sk_queue k = (p, fs) # rest" "n = length fs"
      "ps = map (\<lambda>(p, fs). (p, length fs)) rest" by (auto simp: sample_waiting_def)
    show ?thesis using qk anc [OF refl, of fs k]
      by (simp add: sample_recvmsg_def sample_waiting_def)
  qed
  have empty: "sample_waiting k = [] \<longleftrightarrow> sk_queue k = []" for k by (simp add: sample_waiting_def)
  show ?thesis
    unfolding seqpacket_law_def using data
    by (auto simp: sample_net_def sample_recvmsg_def empty) (simp add: sample_waiting_def)
qed

text \<open>A handler that scribbles over what it is lent and closes what it is given.\<close>

definition scribbler :: "(nat, skern) handler" where
  "scribbler p fs cr = (\<lambda>(s, k). (Returned (map (\<lambda>_. 255) p), Suc s, close_all sample_net fs k))"

lemma scribbler_hands_off: "hands_off 0 sample_waiting sk_gone scribbler"
  using close_all_keeps [OF sample_seqpacket_law] by (simp add: hands_off_def scribbler_def)

lemma scribbler_never_panics: "\<not> panics_on scribbler c"
  by (simp add: panics_on_def scribbler_def)

theorem handler_gets_what_was_sent_witness:
  "map call_datagram (fst (recv_loop_start True sample_net scribbler 0
     [[Inr id], [Inr id], [Inr id]] 0 two_datagrams)) = [([1, 2, 3], 1), ([9], 0)]"
proof -
  let ?run = "recv_loop_start True sample_net scribbler 0 [[Inr id], [Inr id], [Inr id]] 0 two_datagrams"
  obtain calls e s k where run: "?run = (calls, e, s, k)" by (metis prod.exhaust)
  have quiet: "\<forall>ws \<in> set [[Inr id], [Inr id], [Inr id]]. quiet sample_waiting sk_gone ws"
    by (simp add: quiet_def)
  from handler_gets_what_was_sent [OF sample_seqpacket_law scribbler_hands_off quiet _ run]
  have "map call_datagram calls = [([1, 2, 3], 1), ([9], 0)]"
    by (simp add: two_datagrams_def MAX_MESSAGE_SIZE_def sample_waiting_def scribbler_never_panics
        split: if_splits)
  with run show ?thesis by simp
qed


definition service_state :: "(nat list \<times> nat list) node_sys" where
  "service_state =
     \<lparr>ns_handle = HandleService, ns_task = TaskUnfiled, ns_cause = LoopReturned, ns_filed = False,
      ns_tomb = TombStored, ns_death = \<lparr>dead_flag = True, dead_notify = ([], [])\<rparr>\<rparr>"

lemma service_reach: "reach (node_sys_init sample_notify True) (node_step sample_notify) service_state"
proof -
  let ?i = "node_sys_init sample_notify True"
  let ?s = "\<lambda>h t c f b d. \<lparr>ns_handle = h, ns_task = t, ns_cause = c, ns_filed = f, ns_tomb = b,
     ns_death = \<lparr>dead_flag = d, dead_notify = ([], [])\<rparr>\<rparr>"
  have i: "?i = ?s HandleHeld TaskRunning NotEnded True TombHeld False"
    by (simp add: node_sys_init_def death_default_def sample_notify_def)
  have "reach ?i (node_step sample_notify) ?i" by (rule reach_init)
  then have "reach ?i (node_step sample_notify) (?s HandleService TaskRunning NotEnded True TombHeld False)"
    by (rule reach_step) (use step_to_service [of ?i sample_notify] in \<open>simp add: i\<close>)
  then have "reach ?i (node_step sample_notify) (?s HandleService TaskSocketClosed LoopReturned True TombHeld False)"
    by (rule reach_step)
      (use step_loop_end [of "?s HandleService TaskRunning NotEnded True TombHeld False" sample_notify] in simp)
  then have "reach ?i (node_step sample_notify) (?s HandleService TaskUnfiled LoopReturned False TombHeld False)"
    by (rule reach_step)
      (use step_task_unfile [of "?s HandleService TaskSocketClosed LoopReturned True TombHeld False" sample_notify] in simp)
  then show ?thesis
    by (rule reach_step)
      (use step_tombstone [of "?s HandleService TaskUnfiled LoopReturned False TombHeld False" sample_notify] in
        \<open>simp add: service_state_def\<close>)
qed


end
