(* ===== verification/Ipc_Outbox.thy ===== *)
theory Ipc_Outbox
  imports Ipc_Wire_Laws
begin

text \<open>
  \<^verbatim>\<open>outbox.rs\<close>: the backlog of a \<^verbatim>\<open>Ref\<close>, a bounded channel with a count of what is not
  on the wire yet, and the task that drains it. tokio's \<^verbatim>\<open>mpsc\<close> is the parameter \<open>M\<close>, a
  record of its calls on a channel state \<open>'c\<close>; the law the outbox relies on is stated
  through a view \<open>V\<close> of that state.
\<close>

section \<open>The channel\<close>

datatype 'm mpsc_error = ChFull 'm | ChClosed 'm

text \<open>
  \<^verbatim>\<open>reserve\<close> and \<^verbatim>\<open>recv\<close> are futures: \<open>None\<close> is "pending". A ready \<^verbatim>\<open>reserve\<close> is an error
  (\<open>Inl\<close>, the channel is closed) or a permit; a ready \<^verbatim>\<open>recv\<close> is a message or, once every
  sender is gone and the queue is empty, none.
\<close>

record ('c, 'm) mpsc =
  ch_channel :: "nat \<Rightarrow> 'c"
  ch_try_send :: "'m \<Rightarrow> 'c \<Rightarrow> 'm mpsc_error + 'c"
  ch_reserve :: "'c \<Rightarrow> (unit + 'c) option"
  ch_permit_send :: "'m \<Rightarrow> 'c \<Rightarrow> 'c"
  ch_recv :: "'c \<Rightarrow> ('m option \<times> 'c) option"
  ch_drop_receiver :: "'c \<Rightarrow> 'c"
  ch_drop_senders :: "'c \<Rightarrow> 'c"

record ('c, 'm) mpsc_view =
  vw_cap :: "'c \<Rightarrow> nat"
  vw_queue :: "'c \<Rightarrow> 'm list"
  vw_permits :: "'c \<Rightarrow> nat"
  vw_closed :: "'c \<Rightarrow> bool"
  vw_gone :: "'c \<Rightarrow> bool"

text \<open>What no call but the named ones changes.\<close>

definition same_channel :: "('c, 'm) mpsc_view \<Rightarrow> 'c \<Rightarrow> 'c \<Rightarrow> bool" where
  "same_channel V c c' \<longleftrightarrow>
     vw_cap V c' = vw_cap V c \<and> vw_closed V c' = vw_closed V c \<and> vw_gone V c' = vw_gone V c"

definition mpsc_law :: "('c, 'm) mpsc \<Rightarrow> ('c, 'm) mpsc_view \<Rightarrow> bool" where
  "mpsc_law M V \<longleftrightarrow>
     (\<forall>n. vw_cap V (ch_channel M n) = n \<and> vw_queue V (ch_channel M n) = [] \<and>
        vw_permits V (ch_channel M n) = 0 \<and> \<not> vw_closed V (ch_channel M n) \<and>
        \<not> vw_gone V (ch_channel M n)) \<and>
     (\<forall>m c. case ch_try_send M m c of
        Inl (ChClosed m') \<Rightarrow> m' = m \<and> vw_closed V c
      | Inl (ChFull m') \<Rightarrow> m' = m \<and> \<not> vw_closed V c
      | Inr c' \<Rightarrow> \<not> vw_closed V c \<and> length (vw_queue V c) + vw_permits V c < vw_cap V c \<and>
          vw_queue V c' = vw_queue V c @ [m] \<and> vw_permits V c' = vw_permits V c \<and>
          same_channel V c c') \<and>
     (\<forall>c. case ch_reserve M c of
        None \<Rightarrow> True
      | Some (Inl _) \<Rightarrow> vw_closed V c
      | Some (Inr c') \<Rightarrow> \<not> vw_closed V c \<and>
          length (vw_queue V c) + vw_permits V c < vw_cap V c \<and>
          vw_queue V c' = vw_queue V c \<and> vw_permits V c' = Suc (vw_permits V c) \<and>
          same_channel V c c') \<and>
     (\<forall>m c. 0 < vw_permits V c \<longrightarrow>
        vw_queue V (ch_permit_send M m c) =
          (if vw_closed V c then vw_queue V c else vw_queue V c @ [m]) \<and>
        vw_permits V (ch_permit_send M m c) = vw_permits V c - 1 \<and>
        same_channel V c (ch_permit_send M m c)) \<and>
     (\<forall>c. case ch_recv M c of
        None \<Rightarrow> vw_queue V c = [] \<and> \<not> vw_gone V c
      | Some (None, c') \<Rightarrow> vw_queue V c = [] \<and> vw_gone V c \<and> c' = c
      | Some (Some m, c') \<Rightarrow> vw_queue V c = m # vw_queue V c' \<and>
          vw_permits V c' = vw_permits V c \<and> same_channel V c c') \<and>
     (\<forall>c. vw_closed V (ch_drop_receiver M c) \<and> vw_queue V (ch_drop_receiver M c) = [] \<and>
        vw_permits V (ch_drop_receiver M c) = vw_permits V c \<and>
        vw_cap V (ch_drop_receiver M c) = vw_cap V c \<and>
        vw_gone V (ch_drop_receiver M c) = vw_gone V c) \<and>
     (\<forall>c. vw_gone V (ch_drop_senders M c) \<and> vw_queue V (ch_drop_senders M c) = vw_queue V c \<and>
        vw_permits V (ch_drop_senders M c) = vw_permits V c \<and>
        vw_cap V (ch_drop_senders M c) = vw_cap V c \<and>
        vw_closed V (ch_drop_senders M c) = vw_closed V c)"

section \<open>The outbox\<close>

definition DEPTH :: nat where
  "DEPTH = 8"

record 'c outbox =
  ob_sender :: 'c
  ob_pending :: usize

text \<open>The two atomic updates of \<^verbatim>\<open>pending\<close>, and its test.\<close>

definition outbox_claim :: "'c outbox \<Rightarrow> 'c outbox" where
  "outbox_claim b = b\<lparr>ob_pending := ob_pending b + 1\<rparr>"

definition outbox_release :: "'c outbox \<Rightarrow> 'c outbox" where
  "outbox_release b = b\<lparr>ob_pending := ob_pending b - 1\<rparr>"

definition outbox_is_backed_up :: "'c outbox \<Rightarrow> bool" where
  "outbox_is_backed_up b = (ob_pending b \<noteq> 0)"

text \<open>
  \<^verbatim>\<open>Outbox::build\<close>. The runtime is the one captured with the \<^verbatim>\<open>Ref\<close>, else the current one;
  \<^verbatim>\<open>Handle::current\<close> panics when there is none. The duplicated descriptor goes to the
  reactor, and the drain task that owns it starts at its first \<^verbatim>\<open>recv\<close>.
\<close>

definition outbox_build ::
  "'k net \<Rightarrow> ('c, message) mpsc \<Rightarrow> nat option \<Rightarrow> nat option \<Rightarrow> fd \<Rightarrow>
   (('c outbox \<times> fd) outcome, 'k) io" where
  "outbox_build N M runtime current d =
     (case (case runtime of Some h \<Rightarrow> Some h | None \<Rightarrow> current) of
        None \<Rightarrow> io_ret Panicked
      | Some h \<Rightarrow>
          io_bind (net_dup N d) (\<lambda>d'.
          io_bind (reactive_new N d') (\<lambda>socket.
            io_ret (Returned (\<lparr>ob_sender = ch_channel M DEPTH, ob_pending = 0\<rparr>, socket)))))"

fun mpsc_to_try_send_error :: "message mpsc_error \<Rightarrow> try_send_error" where
  "mpsc_to_try_send_error (ChFull m) = TryFull m"
| "mpsc_to_try_send_error (ChClosed m) = TryClosed m"

definition outbox_push ::
  "('c, message) mpsc \<Rightarrow> message \<Rightarrow> 'c outbox \<Rightarrow> (unit, try_send_error) result \<times> 'c outbox" where
  "outbox_push M m b =
     (let b1 = outbox_claim b
      in case ch_try_send M m (ob_sender b1) of
           Inr c \<Rightarrow> (Inr (), b1\<lparr>ob_sender := c\<rparr>)
         | Inl e \<Rightarrow> (Inl (mpsc_to_try_send_error e), outbox_release b1))"

text \<open>
  \<^verbatim>\<open>Outbox::send\<close> waits for a permit. Each element of \<open>ws\<close> is what the rest of the program
  did to the outbox before the next poll; the result is \<open>None\<close> while it is still waiting.
\<close>

fun outbox_reserve ::
  "('c, message) mpsc \<Rightarrow> ('c outbox \<Rightarrow> 'c outbox) list \<Rightarrow> 'c outbox \<Rightarrow>
   (unit + unit) option \<times> 'c outbox" where
  "outbox_reserve M [] b = (None, b)"
| "outbox_reserve M (w # ws) b =
     (case ch_reserve M (ob_sender (w b)) of
        None \<Rightarrow> outbox_reserve M ws (w b)
      | Some (Inl _) \<Rightarrow> (Some (Inl ()), w b)
      | Some (Inr c) \<Rightarrow> (Some (Inr ()), (w b)\<lparr>ob_sender := c\<rparr>))"

definition outbox_permit_send :: "('c, message) mpsc \<Rightarrow> message \<Rightarrow> 'c outbox \<Rightarrow> 'c outbox" where
  "outbox_permit_send M m b = b\<lparr>ob_sender := ch_permit_send M m (ob_sender b)\<rparr>"

definition outbox_send ::
  "('c, message) mpsc \<Rightarrow> message \<Rightarrow> ('c outbox \<Rightarrow> 'c outbox) list \<Rightarrow> 'c outbox \<Rightarrow>
   (unit, send_error) result option \<times> 'c outbox" where
  "outbox_send M m ws b =
     (case outbox_reserve M ws b of
        (None, b1) \<Rightarrow> (None, b1)
      | (Some (Inl _), b1) \<Rightarrow> (Some (Inl (SendClosed m)), b1)
      | (Some (Inr _), b1) \<Rightarrow> (Some (Inr ()), outbox_permit_send M m (outbox_claim b1)))"

section \<open>The drain task\<close>

text \<open>
  \<^verbatim>\<open>Outbox::drain\<close> at each of its accesses to shared state: waiting in \<^verbatim>\<open>recv\<close>, sending what
  it took, done sending with a result, and past the decrement; it ends when the channel
  does or when a send failed, and its receiver is dropped with it.
\<close>

datatype drain_pc =
    DrainRecv
  | DrainSending message
  | DrainSent "(unit, io_error) result"
  | DrainReleased "(unit, io_error) result"
  | DrainStopped "(unit, io_error) result"

datatype drain_event = DrainQuiet | DrainTook message | DrainWrote | DrainGaveUp | DrainClosed

text \<open>
  One step of the task: \<open>attempt\<close> is the outcome of a wake-up of \<^verbatim>\<open>Reactive::send\<close>, \<open>None\<close>
  when the reactor failed and otherwise the result of \<^verbatim>\<open>send_now\<close>. \<open>None\<close> is "parked".
\<close>

fun drain_step ::
  "('c, message) mpsc \<Rightarrow> (message \<Rightarrow> (unit, 'k) io) \<Rightarrow> io_error option \<Rightarrow> drain_pc \<Rightarrow>
   'k \<times> 'c outbox \<Rightarrow> (drain_pc \<times> ('k \<times> 'c outbox) \<times> drain_event) option" where
  "drain_step M attempt reactor DrainRecv (k, b) =
     (case ch_recv M (ob_sender b) of
        None \<Rightarrow> None
      | Some (None, c) \<Rightarrow>
          Some (DrainStopped (Inr ()), (k, b\<lparr>ob_sender := ch_drop_receiver M c\<rparr>), DrainClosed)
      | Some (Some m, c) \<Rightarrow> Some (DrainSending m, (k, b\<lparr>ob_sender := c\<rparr>), DrainTook m))"
| "drain_step M attempt reactor (DrainSending m) (k, b) =
     (case reactor of
        Some e \<Rightarrow> Some (DrainSent (Inl e), (k, b), DrainGaveUp)
      | None \<Rightarrow>
          (case attempt m k of
             (Inr _, k1) \<Rightarrow> Some (DrainSent (Inr ()), (k1, b), DrainWrote)
           | (Inl e, k1) \<Rightarrow>
               if io_error_kind e = WouldBlock
               then Some (DrainSending m, (k1, b), DrainQuiet)
               else Some (DrainSent (Inl e), (k1, b), DrainGaveUp)))"
| "drain_step M attempt reactor (DrainSent r) (k, b) =
     Some (DrainReleased r, (k, outbox_release b), DrainQuiet)"
| "drain_step M attempt reactor (DrainReleased r) (k, b) =
     (case r of
        Inr _ \<Rightarrow> Some (DrainRecv, (k, b), DrainQuiet)
      | Inl e \<Rightarrow>
          Some (DrainStopped (Inl e),
            (k, b\<lparr>ob_sender := ch_drop_receiver M (ob_sender b)\<rparr>), DrainClosed))"
| "drain_step M attempt reactor (DrainStopped r) (k, b) = None"

lemmas outbox_defs =
  outbox_claim_def outbox_release_def outbox_is_backed_up_def outbox_push_def
  outbox_permit_send_def outbox_send_def

section \<open>A channel that satisfies the law\<close>

record 'm schan =
  sc_cap :: nat
  sc_queue :: "'m list"
  sc_permits :: nat
  sc_closed :: bool
  sc_gone :: bool

definition sample_mpsc :: "('m schan, 'm) mpsc" where
  "sample_mpsc =
     \<lparr>ch_channel = (\<lambda>n. \<lparr>sc_cap = n, sc_queue = [], sc_permits = 0, sc_closed = False,
                        sc_gone = False\<rparr>),
      ch_try_send = (\<lambda>m c. if sc_closed c then Inl (ChClosed m)
         else if sc_cap c \<le> length (sc_queue c) + sc_permits c then Inl (ChFull m)
         else Inr (c\<lparr>sc_queue := sc_queue c @ [m]\<rparr>)),
      ch_reserve = (\<lambda>c. if sc_closed c then Some (Inl ())
         else if sc_cap c \<le> length (sc_queue c) + sc_permits c then None
         else Some (Inr (c\<lparr>sc_permits := Suc (sc_permits c)\<rparr>))),
      ch_permit_send = (\<lambda>m c. (if sc_closed c then c else c\<lparr>sc_queue := sc_queue c @ [m]\<rparr>)
         \<lparr>sc_permits := sc_permits c - 1\<rparr>),
      ch_recv = (\<lambda>c. case sc_queue c of
           [] \<Rightarrow> if sc_gone c then Some (None, c) else None
         | m # q \<Rightarrow> Some (Some m, c\<lparr>sc_queue := q\<rparr>)),
      ch_drop_receiver = (\<lambda>c. c\<lparr>sc_closed := True, sc_queue := []\<rparr>),
      ch_drop_senders = (\<lambda>c. c\<lparr>sc_gone := True\<rparr>)\<rparr>"

definition sample_view :: "('m schan, 'm) mpsc_view" where
  "sample_view =
     \<lparr>vw_cap = sc_cap, vw_queue = sc_queue, vw_permits = sc_permits, vw_closed = sc_closed,
      vw_gone = sc_gone\<rparr>"

lemma sample_mpsc_law: "mpsc_law sample_mpsc sample_view"
  by (simp add: mpsc_law_def sample_mpsc_def sample_view_def same_channel_def split: list.splits)

section \<open>Facts about the channel\<close>

lemma mpsc_lawD:
  assumes "mpsc_law M V"
  shows mpsc_channel: "vw_cap V (ch_channel M n) = n" "vw_queue V (ch_channel M n) = []"
      "vw_permits V (ch_channel M n) = 0" "\<not> vw_closed V (ch_channel M n)"
      "\<not> vw_gone V (ch_channel M n)"
    and mpsc_try_full: "ch_try_send M m c = Inl (ChFull m') \<Longrightarrow> m' = m \<and> \<not> vw_closed V c"
    and mpsc_try_closed: "ch_try_send M m c = Inl (ChClosed m') \<Longrightarrow> m' = m \<and> vw_closed V c"
    and mpsc_try_ok: "ch_try_send M m c = Inr c' \<Longrightarrow> \<not> vw_closed V c \<and>
      length (vw_queue V c) + vw_permits V c < vw_cap V c \<and>
      vw_queue V c' = vw_queue V c @ [m] \<and> vw_permits V c' = vw_permits V c \<and> same_channel V c c'"
    and mpsc_reserve_closed: "ch_reserve M c = Some (Inl u) \<Longrightarrow> vw_closed V c"
    and mpsc_reserve_ok: "ch_reserve M c = Some (Inr c') \<Longrightarrow> \<not> vw_closed V c \<and>
      length (vw_queue V c) + vw_permits V c < vw_cap V c \<and>
      vw_queue V c' = vw_queue V c \<and> vw_permits V c' = Suc (vw_permits V c) \<and> same_channel V c c'"
    and mpsc_permit: "0 < vw_permits V c \<Longrightarrow>
      vw_queue V (ch_permit_send M m c) =
        (if vw_closed V c then vw_queue V c else vw_queue V c @ [m]) \<and>
      vw_permits V (ch_permit_send M m c) = vw_permits V c - 1 \<and>
      same_channel V c (ch_permit_send M m c)"
    and mpsc_recv_none: "ch_recv M c = None \<Longrightarrow> vw_queue V c = [] \<and> \<not> vw_gone V c"
    and mpsc_recv_end: "ch_recv M c = Some (None, c') \<Longrightarrow>
      vw_queue V c = [] \<and> vw_gone V c \<and> c' = c"
    and mpsc_recv_some: "ch_recv M c = Some (Some m, c') \<Longrightarrow> vw_queue V c = m # vw_queue V c' \<and>
      vw_permits V c' = vw_permits V c \<and> same_channel V c c'"
    and mpsc_drop_receiver: "vw_closed V (ch_drop_receiver M c)"
      "vw_queue V (ch_drop_receiver M c) = []"
      "vw_permits V (ch_drop_receiver M c) = vw_permits V c"
      "vw_cap V (ch_drop_receiver M c) = vw_cap V c"
      "vw_gone V (ch_drop_receiver M c) = vw_gone V c"
    and mpsc_drop_senders: "vw_gone V (ch_drop_senders M c)"
      "vw_queue V (ch_drop_senders M c) = vw_queue V c"
      "vw_permits V (ch_drop_senders M c) = vw_permits V c"
      "vw_cap V (ch_drop_senders M c) = vw_cap V c"
      "vw_closed V (ch_drop_senders M c) = vw_closed V c"
proof -
  note law = assms [unfolded mpsc_law_def]
  note l1 = law [THEN conjunct1, rule_format]
  note l2 = law [THEN conjunct2, THEN conjunct1, rule_format]
  note l3 = law [THEN conjunct2, THEN conjunct2, THEN conjunct1, rule_format]
  note l4 = law [THEN conjunct2, THEN conjunct2, THEN conjunct2, THEN conjunct1, rule_format]
  note r = law [THEN conjunct2, THEN conjunct2, THEN conjunct2, THEN conjunct2]
  note l5 = r [THEN conjunct1, rule_format]
  note l6 = r [THEN conjunct2, THEN conjunct1, rule_format]
  note l7 = r [THEN conjunct2, THEN conjunct2, rule_format]
  show "vw_cap V (ch_channel M n) = n" "vw_queue V (ch_channel M n) = []"
    "vw_permits V (ch_channel M n) = 0" "\<not> vw_closed V (ch_channel M n)"
    "\<not> vw_gone V (ch_channel M n)"
    using l1 [of n] by simp_all
  show "ch_try_send M m c = Inl (ChFull m') \<Longrightarrow> m' = m \<and> \<not> vw_closed V c"
    "ch_try_send M m c = Inl (ChClosed m') \<Longrightarrow> m' = m \<and> vw_closed V c"
    "ch_try_send M m c = Inr c' \<Longrightarrow> \<not> vw_closed V c \<and>
      length (vw_queue V c) + vw_permits V c < vw_cap V c \<and>
      vw_queue V c' = vw_queue V c @ [m] \<and> vw_permits V c' = vw_permits V c \<and> same_channel V c c'"
    using l2 [of m c] by simp_all
  show "ch_reserve M c = Some (Inl u) \<Longrightarrow> vw_closed V c"
    "ch_reserve M c = Some (Inr c') \<Longrightarrow> \<not> vw_closed V c \<and>
      length (vw_queue V c) + vw_permits V c < vw_cap V c \<and>
      vw_queue V c' = vw_queue V c \<and> vw_permits V c' = Suc (vw_permits V c) \<and> same_channel V c c'"
    using l3 [of c] by simp_all
  show "0 < vw_permits V c \<Longrightarrow>
      vw_queue V (ch_permit_send M m c) =
        (if vw_closed V c then vw_queue V c else vw_queue V c @ [m]) \<and>
      vw_permits V (ch_permit_send M m c) = vw_permits V c - 1 \<and>
      same_channel V c (ch_permit_send M m c)"
    using l4 [of c m] by simp
  show "ch_recv M c = None \<Longrightarrow> vw_queue V c = [] \<and> \<not> vw_gone V c"
    "ch_recv M c = Some (None, c') \<Longrightarrow> vw_queue V c = [] \<and> vw_gone V c \<and> c' = c"
    "ch_recv M c = Some (Some m, c') \<Longrightarrow> vw_queue V c = m # vw_queue V c' \<and>
      vw_permits V c' = vw_permits V c \<and> same_channel V c c'"
    using l5 [of c] by simp_all
qed (use assms [unfolded mpsc_law_def] in simp_all)

end
