(* ===== verification/Ipc_Send.thy ===== *)
theory Ipc_Send
  imports Ipc_Outbox
begin

text \<open>
  \<^verbatim>\<open>capability.rs\<close>, the two-tier send: \<^verbatim>\<open>RefInner::outbox\<close>, \<^verbatim>\<open>Ref::try_send\<close> and
  \<^verbatim>\<open>Ref::send\<close>, first as whole calls, then cut at every access to what concurrent callers
  and the drain task share, so that their interleavings are the runs of a step relation.
\<close>

section \<open>What a reference sends with\<close>

text \<open>
  The surroundings of one \<^verbatim>\<open>RefInner\<close>: kernel and libraries, the channel, how an attached
  \<^verbatim>\<open>Ref\<close> lends its descriptor, this reference's own descriptor and captured runtime, the
  runtime of the caller, and the number of threads that share the reference.
\<close>

record ('k, 'c) ref_env =
  env_net :: "'k net"
  env_mpsc :: "('c, message) mpsc"
  env_borrow :: "addr \<Rightarrow> fd"
  env_fd :: fd
  env_runtime :: "nat option"
  env_current :: "nat option"
  env_threads :: nat

text \<open>What the callers share: the kernel, and the \<^verbatim>\<open>OnceLock\<close> with the outbox.\<close>

record ('k, 'c) ref_shared =
  sh_kern :: 'k
  sh_outbox :: "('c outbox \<times> fd) option"

definition env_send_now :: "('k, 'c) ref_env \<Rightarrow> fd \<Rightarrow> message \<Rightarrow> (unit, 'k) io" where
  "env_send_now E d m = send_now (env_net E) (env_borrow E) d m"

definition env_build :: "('k, 'c) ref_env \<Rightarrow> (('c outbox \<times> fd) outcome, 'k) io" where
  "env_build E =
     outbox_build (env_net E) (env_mpsc E) (env_runtime E) (env_current E) (env_fd E)"

section \<open>Whole calls\<close>

text \<open>\<^verbatim>\<open>RefInner::outbox\<close>: afterwards the lock holds an outbox, ours or an earlier one.\<close>

definition ref_outbox ::
  "('k, 'c) ref_env \<Rightarrow> ('k, 'c) ref_shared \<Rightarrow>
   (unit outcome, io_error) result \<times> ('k, 'c) ref_shared" where
  "ref_outbox E sh =
     (case sh_outbox sh of
        Some _ \<Rightarrow> (Inr (Returned ()), sh)
      | None \<Rightarrow>
          (case env_build E (sh_kern sh) of
             (Inl e, k) \<Rightarrow> (Inl e, sh\<lparr>sh_kern := k\<rparr>)
           | (Inr Panicked, k) \<Rightarrow> (Inr Panicked, sh\<lparr>sh_kern := k\<rparr>)
           | (Inr (Returned b), k) \<Rightarrow>
               (Inr (Returned ()),
                sh\<lparr>sh_kern := k,
                   sh_outbox := (case sh_outbox sh of None \<Rightarrow> Some b | Some b' \<Rightarrow> Some b')\<rparr>)))"

definition ref_backed_up :: "('k, 'c) ref_shared \<Rightarrow> bool" where
  "ref_backed_up sh =
     (case sh_outbox sh of None \<Rightarrow> False | Some (b, _) \<Rightarrow> outbox_is_backed_up b)"

text \<open>The end of \<^verbatim>\<open>try_send\<close>: the queue, built first if this is the first time it is needed.\<close>

definition try_send_queue ::
  "('k, 'c) ref_env \<Rightarrow> message \<Rightarrow> ('k, 'c) ref_shared \<Rightarrow>
   (unit, try_send_error) result outcome \<times> ('k, 'c) ref_shared" where
  "try_send_queue E m sh =
     (case ref_outbox E sh of
        (Inl _, sh1) \<Rightarrow> (Returned (Inl (TryClosed m)), sh1)
      | (Inr Panicked, sh1) \<Rightarrow> (Panicked, sh1)
      | (Inr (Returned _), sh1) \<Rightarrow>
          (case sh_outbox sh1 of
             None \<Rightarrow> (Panicked, sh1)
           | Some (b, d) \<Rightarrow>
               (case outbox_push (env_mpsc E) m b of
                  (r, b1) \<Rightarrow> (Returned r, sh1\<lparr>sh_outbox := Some (b1, d)\<rparr>))))"

definition ref_try_send ::
  "('k, 'c) ref_env \<Rightarrow> message \<Rightarrow> ('k, 'c) ref_shared \<Rightarrow>
   (unit, try_send_error) result outcome \<times> ('k, 'c) ref_shared" where
  "ref_try_send E m sh =
     (if MAX_MESSAGE_SIZE < length (message_data m) then (Returned (Inl (TryTooLarge m)), sh)
      else
        (let backed_up = ref_backed_up sh;
             inline_ok = length (message_fds m) \<le> MAX_FDS \<and> \<not> backed_up
         in if inline_ok
            then (case env_send_now E (env_fd E) m (sh_kern sh) of
                    (Inr _, k) \<Rightarrow> (Returned (Inr ()), sh\<lparr>sh_kern := k\<rparr>)
                  | (Inl e, k) \<Rightarrow>
                      if io_error_kind e = WouldBlock then try_send_queue E m (sh\<lparr>sh_kern := k\<rparr>)
                      else (Returned (Inl (TryClosed m)), sh\<lparr>sh_kern := k\<rparr>))
            else try_send_queue E m sh))"

text \<open>
  \<^verbatim>\<open>Ref::send\<close>; \<open>ws\<close> is what the rest of the program does to the outbox between two polls of
  the permit, and the result is \<open>None\<close> while the call is still waiting for room.
\<close>

definition ref_send ::
  "('k, 'c) ref_env \<Rightarrow> message \<Rightarrow> ('c outbox \<Rightarrow> 'c outbox) list \<Rightarrow> ('k, 'c) ref_shared \<Rightarrow>
   (unit, send_error) result outcome option \<times> ('k, 'c) ref_shared" where
  "ref_send E m ws sh =
     (case ref_try_send E m sh of
        (Panicked, sh1) \<Rightarrow> (Some Panicked, sh1)
      | (Returned (Inr _), sh1) \<Rightarrow> (Some (Returned (Inr ())), sh1)
      | (Returned (Inl (TryClosed m')), sh1) \<Rightarrow> (Some (Returned (Inl (SendClosed m'))), sh1)
      | (Returned (Inl (TryTooLarge m')), sh1) \<Rightarrow> (Some (Returned (Inl (SendTooLarge m'))), sh1)
      | (Returned (Inl (TryFull m')), sh1) \<Rightarrow>
          (case ref_outbox E sh1 of
             (Inl _, sh2) \<Rightarrow> (Some (Returned (Inl (SendClosed m'))), sh2)
           | (Inr Panicked, sh2) \<Rightarrow> (Some Panicked, sh2)
           | (Inr (Returned _), sh2) \<Rightarrow>
               (case sh_outbox sh2 of
                  None \<Rightarrow> (Some Panicked, sh2)
                | Some (b, d) \<Rightarrow>
                    (case outbox_send (env_mpsc E) m' ws b of
                       (r, b1) \<Rightarrow>
                         (map_option Returned r, sh2\<lparr>sh_outbox := Some (b1, d)\<rparr>)))))"

section \<open>Calls cut at their accesses to shared state\<close>

datatype call_kind = CallTrySend | CallSend

datatype call_result =
    CallOk | CallTryErr try_send_error | CallSendErr send_error | CallPanicked

text \<open>
  Where a thread is: before the check of the backlog, before the inline \<^verbatim>\<open>sendmsg\<close>, before
  \<^verbatim>\<open>outbox()\<close> (a second time for a \<^verbatim>\<open>send\<close> that was told \<open>Full\<close>), between building an
  outbox and setting it, and at the two accesses of \<^verbatim>\<open>push\<close> and of \<^verbatim>\<open>send\<close> on either side of
  the channel.
\<close>

datatype 'c send_pc =
    SendIdle
  | SendCheck call_kind message
  | SendInline call_kind message
  | SendOutbox call_kind message
  | SendSet call_kind message "'c outbox \<times> fd"
  | PushClaim call_kind message
  | PushTry call_kind message
  | PushRelease call_kind try_send_error
  | AgainOutbox message
  | AgainSet message "'c outbox \<times> fd"
  | SendReserve message
  | PermitClaim message
  | PermitSend message
  | SendDone call_result

text \<open>What a step did that the accounting of messages must know.\<close>

datatype send_event = SendQuiet | SentInline message | Queued message

definition send_begin :: "call_kind \<Rightarrow> message \<Rightarrow> 'c send_pc" where
  "send_begin kd m =
     (if MAX_MESSAGE_SIZE < length (message_data m)
      then SendDone (case kd of CallTrySend \<Rightarrow> CallTryErr (TryTooLarge m)
                     | CallSend \<Rightarrow> CallSendErr (SendTooLarge m))
      else SendCheck kd m)"

text \<open>How \<^verbatim>\<open>try_send\<close> ends with an error, on its own or as the first half of \<^verbatim>\<open>send\<close>.\<close>

fun try_send_failed :: "call_kind \<Rightarrow> try_send_error \<Rightarrow> 'c send_pc" where
  "try_send_failed CallTrySend e = SendDone (CallTryErr e)"
| "try_send_failed CallSend (TryFull m) = AgainOutbox m"
| "try_send_failed CallSend (TryTooLarge m) = SendDone (CallSendErr (SendTooLarge m))"
| "try_send_failed CallSend (TryClosed m) = SendDone (CallSendErr (SendClosed m))"

definition set_once :: "'a \<Rightarrow> 'a option \<Rightarrow> 'a option" where
  "set_once x cell = (case cell of None \<Rightarrow> Some x | Some y \<Rightarrow> Some y)"

text \<open>One step of a thread; \<open>None\<close> is "not ready": idle, finished, or waiting for a permit.\<close>

fun sender_step ::
  "('k, 'c) ref_env \<Rightarrow> 'c send_pc \<Rightarrow> ('k, 'c) ref_shared \<Rightarrow>
   ('c send_pc \<times> ('k, 'c) ref_shared \<times> send_event) option" where
  "sender_step E SendIdle sh = None"
| "sender_step E (SendDone r) sh = None"
| "sender_step E (SendCheck kd m) sh =
     Some (if length (message_fds m) \<le> MAX_FDS \<and> \<not> ref_backed_up sh
           then SendInline kd m else SendOutbox kd m, sh, SendQuiet)"
| "sender_step E (SendInline kd m) sh =
     (case env_send_now E (env_fd E) m (sh_kern sh) of
        (Inr _, k) \<Rightarrow> Some (SendDone CallOk, sh\<lparr>sh_kern := k\<rparr>, SentInline m)
      | (Inl e, k) \<Rightarrow>
          Some (if io_error_kind e = WouldBlock then SendOutbox kd m
                else try_send_failed kd (TryClosed m), sh\<lparr>sh_kern := k\<rparr>, SendQuiet))"
| "sender_step E (SendOutbox kd m) sh =
     (case sh_outbox sh of
        Some _ \<Rightarrow> Some (PushClaim kd m, sh, SendQuiet)
      | None \<Rightarrow>
          (case env_build E (sh_kern sh) of
             (Inl e, k) \<Rightarrow> Some (try_send_failed kd (TryClosed m), sh\<lparr>sh_kern := k\<rparr>, SendQuiet)
           | (Inr Panicked, k) \<Rightarrow> Some (SendDone CallPanicked, sh\<lparr>sh_kern := k\<rparr>, SendQuiet)
           | (Inr (Returned b), k) \<Rightarrow> Some (SendSet kd m b, sh\<lparr>sh_kern := k\<rparr>, SendQuiet)))"
| "sender_step E (SendSet kd m b) sh =
     Some (PushClaim kd m, sh\<lparr>sh_outbox := set_once b (sh_outbox sh)\<rparr>, SendQuiet)"
| "sender_step E (PushClaim kd m) sh =
     (case sh_outbox sh of
        None \<Rightarrow> Some (SendDone CallPanicked, sh, SendQuiet)
      | Some (b, d) \<Rightarrow>
          Some (PushTry kd m, sh\<lparr>sh_outbox := Some (outbox_claim b, d)\<rparr>, SendQuiet))"
| "sender_step E (PushTry kd m) sh =
     (case sh_outbox sh of
        None \<Rightarrow> Some (SendDone CallPanicked, sh, SendQuiet)
      | Some (b, d) \<Rightarrow>
          (case ch_try_send (env_mpsc E) m (ob_sender b) of
             Inr c \<Rightarrow>
               Some (SendDone CallOk, sh\<lparr>sh_outbox := Some (b\<lparr>ob_sender := c\<rparr>, d)\<rparr>, Queued m)
           | Inl e \<Rightarrow> Some (PushRelease kd (mpsc_to_try_send_error e), sh, SendQuiet)))"
| "sender_step E (PushRelease kd e) sh =
     (case sh_outbox sh of
        None \<Rightarrow> Some (SendDone CallPanicked, sh, SendQuiet)
      | Some (b, d) \<Rightarrow>
          Some (try_send_failed kd e, sh\<lparr>sh_outbox := Some (outbox_release b, d)\<rparr>, SendQuiet))"
| "sender_step E (AgainOutbox m) sh =
     (case sh_outbox sh of
        Some _ \<Rightarrow> Some (SendReserve m, sh, SendQuiet)
      | None \<Rightarrow>
          (case env_build E (sh_kern sh) of
             (Inl e, k) \<Rightarrow>
               Some (SendDone (CallSendErr (SendClosed m)), sh\<lparr>sh_kern := k\<rparr>, SendQuiet)
           | (Inr Panicked, k) \<Rightarrow> Some (SendDone CallPanicked, sh\<lparr>sh_kern := k\<rparr>, SendQuiet)
           | (Inr (Returned b), k) \<Rightarrow> Some (AgainSet m b, sh\<lparr>sh_kern := k\<rparr>, SendQuiet)))"
| "sender_step E (AgainSet m b) sh =
     Some (SendReserve m, sh\<lparr>sh_outbox := set_once b (sh_outbox sh)\<rparr>, SendQuiet)"
| "sender_step E (SendReserve m) sh =
     (case sh_outbox sh of
        None \<Rightarrow> Some (SendDone CallPanicked, sh, SendQuiet)
      | Some (b, d) \<Rightarrow>
          (case ch_reserve (env_mpsc E) (ob_sender b) of
             None \<Rightarrow> None
           | Some (Inl _) \<Rightarrow> Some (SendDone (CallSendErr (SendClosed m)), sh, SendQuiet)
           | Some (Inr c) \<Rightarrow>
               Some (PermitClaim m, sh\<lparr>sh_outbox := Some (b\<lparr>ob_sender := c\<rparr>, d)\<rparr>, SendQuiet)))"
| "sender_step E (PermitClaim m) sh =
     (case sh_outbox sh of
        None \<Rightarrow> Some (SendDone CallPanicked, sh, SendQuiet)
      | Some (b, d) \<Rightarrow>
          Some (PermitSend m, sh\<lparr>sh_outbox := Some (outbox_claim b, d)\<rparr>, SendQuiet))"
| "sender_step E (PermitSend m) sh =
     (case sh_outbox sh of
        None \<Rightarrow> Some (SendDone CallPanicked, sh, SendQuiet)
      | Some (b, d) \<Rightarrow>
          Some (SendDone CallOk,
            sh\<lparr>sh_outbox := Some (outbox_permit_send (env_mpsc E) m b, d)\<rparr>, Queued m))"

text \<open>Running a thread alone, for at most \<open>n\<close> steps.\<close>

fun sender_run ::
  "('k, 'c) ref_env \<Rightarrow> nat \<Rightarrow> 'c send_pc \<Rightarrow> ('k, 'c) ref_shared \<Rightarrow>
   'c send_pc \<times> ('k, 'c) ref_shared" where
  "sender_run E 0 pc sh = (pc, sh)"
| "sender_run E (Suc n) pc sh =
     (case sender_step E pc sh of
        None \<Rightarrow> (pc, sh)
      | Some (pc', sh', _) \<Rightarrow> sender_run E n pc' sh')"

end
