(* ===== verification/Ipc_Send_Props.thy ===== *)
theory Ipc_Send_Props
  imports Ipc_Send
begin

text \<open>
  The two-tier send as whole calls: the steps of \<^verbatim>\<open>Ipc_Send\<close>, run without interruption, are
  \<^verbatim>\<open>Ref::try_send\<close>, and both calls hand a refused message back as it was.
\<close>

section \<open>Whole calls are uninterrupted runs\<close>

definition try_result :: "(unit, try_send_error) result outcome \<Rightarrow> call_result" where
  "try_result r =
     (case r of Panicked \<Rightarrow> CallPanicked | Returned (Inr _) \<Rightarrow> CallOk
      | Returned (Inl e) \<Rightarrow> CallTryErr e)"

lemmas queue_run_defs =
  try_send_queue_def ref_outbox_def outbox_push_def outbox_claim_def outbox_release_def
  set_once_def try_result_def

lemma mpsc_err_is_not_large: "mpsc_to_try_send_error e \<noteq> TryTooLarge m"
  by (cases e) simp_all

lemma push_run:
  assumes "sh_outbox sh = Some (b, d)"
  shows "sender_run E 3 (PushClaim CallTrySend m) sh =
    (case outbox_push (env_mpsc E) m b of (r, b1) \<Rightarrow>
       (SendDone (try_result (Returned r)), sh\<lparr>sh_outbox := Some (b1, d)\<rparr>))"
  using assms
  by (cases "ch_try_send (env_mpsc E) m (ob_sender b)")
    (simp_all add: numeral_eq_Suc queue_run_defs)

lemma sender_run_add:
  "sender_run E (i + j) pc sh = (case sender_run E i pc sh of (pc', sh') \<Rightarrow> sender_run E j pc' sh')"
proof (induction i arbitrary: pc sh)
  case (Suc i)
  show ?case
  proof (cases "sender_step E pc sh")
    case None
    then show ?thesis by (cases j) simp_all
  qed (simp add: Suc split: prod.splits)
qed simp

lemma sender_run_done [simp]: "sender_run E n (SendDone r) sh = (SendDone r, sh)"
  by (cases n) simp_all

lemma queue_run:
  "sender_run E 5 (SendOutbox CallTrySend m) sh =
    (case try_send_queue E m sh of (r, sh') \<Rightarrow> (SendDone (try_result r), sh'))"
proof (cases "sh_outbox sh")
  case None
  obtain r k where b: "env_build E (sh_kern sh) = (r, k)" by fastforce
  show ?thesis
  proof (cases r)
    case (Inr x)
    show ?thesis
    proof (cases x)
      case (Returned bd)
      obtain bb d where "bd = (bb, d)" by fastforce
      let ?sh = "sh\<lparr>sh_kern := k, sh_outbox := Some (bb, d)\<rparr>"
      have "sender_run E (2 + 3) (SendOutbox CallTrySend m) sh =
          sender_run E 3 (PushClaim CallTrySend m) ?sh"
        unfolding sender_run_add using None b Inr Returned \<open>bd = (bb, d)\<close>
        by (simp add: numeral_2_eq_2 set_once_def)
      also have "\<dots> = (case try_send_queue E m sh of (r, sh') \<Rightarrow> (SendDone (try_result r), sh'))"
        using push_run [of ?sh bb d E m] None b Inr Returned \<open>bd = (bb, d)\<close>
        by (simp add: try_send_queue_def ref_outbox_def split: prod.splits)
      finally show ?thesis by simp
    qed (use None b Inr in \<open>simp add: numeral_eq_Suc queue_run_defs\<close>)
  qed (use None b in \<open>simp add: numeral_eq_Suc queue_run_defs\<close>)
next
  case (Some bd)
  obtain b d where bd: "bd = (b, d)" by fastforce
  have "sender_run E (1 + 4) (SendOutbox CallTrySend m) sh =
      sender_run E (3 + 1) (PushClaim CallTrySend m) sh"
    unfolding sender_run_add [of _ 1] using Some by simp
  also have "\<dots> = (case try_send_queue E m sh of (r, sh') \<Rightarrow> (SendDone (try_result r), sh'))"
    unfolding sender_run_add [of _ 3] push_run [OF Some [unfolded bd]]
    by (simp add: try_send_queue_def ref_outbox_def Some bd split: prod.splits)
  finally show ?thesis by simp
qed

lemma queue_run_more:
  "sender_run E (5 + n) (SendOutbox CallTrySend m) sh =
    (case try_send_queue E m sh of (r, sh') \<Rightarrow> (SendDone (try_result r), sh'))"
  by (simp add: sender_run_add queue_run split: prod.splits)

section \<open>What comes back\<close>

lemma push_hands_back:
  assumes "mpsc_law M V" and "outbox_push M m b = (Inl e, b')"
  shows "try_send_error_into_message e = m \<and> \<not> (\<exists>m'. e = TryTooLarge m')"
proof (cases "ch_try_send M m (ob_sender b)")
  case (Inl e0)
  with assms mpsc_try_full [OF assms(1)] mpsc_try_closed [OF assms(1)] show ?thesis
    by (cases e0) (auto simp: outbox_push_def outbox_claim_def Let_def)
qed (use assms(2) in \<open>simp add: outbox_push_def outbox_claim_def Let_def\<close>)

lemma queue_hands_back:
  assumes "mpsc_law (env_mpsc E) V" and "try_send_queue E m sh = (Returned (Inl e), sh')"
  shows "try_send_error_into_message e = m \<and> \<not> (\<exists>m'. e = TryTooLarge m') \<and>
    (try_send_error_is_full e \<longrightarrow> sh_outbox sh' \<noteq> None)"
  using assms(2) push_hands_back [OF assms(1), of m]
  by (auto simp: try_send_queue_def split: prod.splits sum.splits outcome.splits option.splits)

lemma try_send_error_message:
  assumes "mpsc_law (env_mpsc E) V" and "ref_try_send E m sh = (Returned (Inl e), sh')"
  shows "try_send_error_into_message e = m \<and>
    ((\<exists>m'. e = TryTooLarge m') \<longleftrightarrow> MAX_MESSAGE_SIZE < length (message_data m)) \<and>
    (try_send_error_is_full e \<longrightarrow> sh_outbox sh' \<noteq> None)"
  using assms(2) queue_hands_back [OF assms(1), of m]
  by (auto simp: ref_try_send_def Let_def split: if_splits prod.splits sum.splits; blast)

section \<open>Surroundings with a concrete kernel\<close>

text \<open>
  A peer that reads at once while its kernel has room (\<open>sk_room\<close>), and that refuses more
  descriptors than \<^verbatim>\<open>SCM_MAX_FD\<close>.
\<close>

definition reading_sendmsg ::
  "fd \<Rightarrow> u8 list \<Rightarrow> fd list option \<Rightarrow> send_flag set \<Rightarrow> (nat, skern) io" where
  "reading_sendmsg d iov ctl fl k =
     (if MAX_FDS < length (case ctl of None \<Rightarrow> [] | Some fs \<Rightarrow> fs)
      then (Inl (OsError InvalidInput 22), k)
      else if sk_room k = 0 then (Inl (OsError WouldBlock 11), k) else (Inr (length iov), k))"

definition sample_env :: "(skern, message schan) ref_env" where
  "sample_env =
     \<lparr>env_net = sample_net\<lparr>net_sendmsg := reading_sendmsg\<rparr>, env_mpsc = sample_mpsc,
      env_borrow = (\<lambda>r. r + 100), env_fd = 3, env_runtime = Some 0, env_current = None,
      env_threads = 2\<rparr>"

definition plain :: "u8 \<Rightarrow> message" where
  "plain x = \<lparr>msg_data = [x], msg_fds = []\<rparr>"

text \<open>An outbox that is full: eight messages and no receiver moving.\<close>

definition full_outbox :: "message schan outbox" where
  "full_outbox =
     \<lparr>ob_sender = \<lparr>sc_cap = 8, sc_queue = map (\<lambda>i. plain (of_nat i)) [0 ..< 8], sc_permits = 0,
                   sc_closed = False, sc_gone = False\<rparr>,
      ob_pending = 8\<rparr>"

definition full_shared :: "(skern, message schan) ref_shared" where
  "full_shared = \<lparr>sh_kern = sample_kernel, sh_outbox = Some (full_outbox, 4)\<rparr>"

lemmas sample_run_defs =
  sample_env_def reading_sendmsg_def sample_mpsc_def sample_defs io_defs env_send_now_def
  env_build_def send_now_def outbox_build_def reactive_new_def ref_backed_up_def outbox_defs
  send_begin_def message_defs MAX_FDS_def MAX_MESSAGE_SIZE_def DEPTH_def EXPECTED_FDS_def
  set_once_def EXPECTED_ANCILLARY_BUFFER_SIZE_def

section \<open>Properties\<close>


text \<open>\<^verbatim>\<open>try_send\<close> never loses the message it refuses: the error carries exactly the message
  it was given; it says \<^verbatim>\<open>TooLarge\<close> exactly for payloads above the limit; and it says
  \<^verbatim>\<open>Full\<close> only when the outbox exists, which is what \<^verbatim>\<open>send\<close> builds on.\<close>

theorem try_send_hands_back:
  assumes "mpsc_law (env_mpsc E) V" and "ref_try_send E m sh = (Returned (Inl e), sh')"
  shows "try_send_error_into_message e = m \<and>
    ((\<exists>m'. e = TryTooLarge m') \<longleftrightarrow> MAX_MESSAGE_SIZE < length (message_data m)) \<and>
    (try_send_error_is_full e \<longrightarrow> sh_outbox sh' \<noteq> None)"
  using assms by (rule try_send_error_message)

theorem try_send_hands_back_witness:
  "try_send_error_into_message (TryFull (plain 9)) = plain 9 \<and> sh_outbox full_shared \<noteq> None"
proof -
  have law: "mpsc_law (env_mpsc sample_env) sample_view"
    using sample_mpsc_law by (simp add: sample_env_def)
  have "ref_try_send sample_env (plain 9) full_shared =
      (Returned (Inl (TryFull (plain 9))), full_shared)"
    by (simp add: full_shared_def full_outbox_def ref_try_send_def try_send_queue_def
        ref_outbox_def sample_run_defs plain_def)
  from try_send_hands_back [OF law this] show ?thesis by simp
qed

text \<open>C23: \<^verbatim>\<open>send\<close> waits out a full queue, so it never reports \<^verbatim>\<open>Full\<close>; when it reports an
  error the error carries exactly the message it was given, and it says \<^verbatim>\<open>TooLarge\<close>
  exactly for payloads above the limit, whatever the rest of the program does while it
  waits.\<close>

theorem send_hands_back:
  assumes "mpsc_law (env_mpsc E) V" and "ref_send E m ws sh = (Some (Returned (Inl e)), sh')"
  shows "send_error_into_message e = m \<and>
    ((\<exists>m'. e = SendTooLarge m') \<longleftrightarrow> MAX_MESSAGE_SIZE < length (message_data m))"
proof -
  obtain r sh1 where t: "ref_try_send E m sh = (r, sh1)" by fastforce
  show ?thesis
  proof (cases r)
    case (Returned x)
    with assms(2) t obtain e1 where x: "x = Inl e1" by (cases x) (auto simp: ref_send_def)
    from try_send_error_message [OF assms(1) t [unfolded Returned x]]
    have b: "try_send_error_into_message e1 = m"
      "(\<exists>m'. e1 = TryTooLarge m') \<longleftrightarrow> MAX_MESSAGE_SIZE < length (message_data m)"
      "try_send_error_is_full e1 \<longrightarrow> sh_outbox sh1 \<noteq> None" by blast+
    show ?thesis
    proof (cases e1)
      case (TryFull m')
      with b have "m' = m" "sh_outbox sh1 \<noteq> None" by auto
      then obtain b d where "sh_outbox sh1 = Some (b, d)" by auto
      with assms(2) t Returned x TryFull have "e = SendClosed m'"
        by (auto simp: ref_send_def ref_outbox_def outbox_send_def split: prod.splits option.splits sum.splits)
      with b TryFull show ?thesis by auto
    qed (use assms(2) t Returned x b in \<open>auto simp: ref_send_def\<close>)
  qed (use assms(2) t in \<open>simp add: ref_send_def\<close>)
qed

theorem send_hands_back_witness:
  "send_error_into_message (SendClosed (plain 9)) = plain 9"
proof -
  let ?close = "\<lambda>b. b\<lparr>ob_sender := ch_drop_receiver sample_mpsc (ob_sender b)\<rparr>"
  have law: "mpsc_law (env_mpsc sample_env) sample_view"
    using sample_mpsc_law by (simp add: sample_env_def)
  have "ref_send sample_env (plain 9) [\<lambda>b. b, ?close] full_shared =
      (Some (Returned (Inl (SendClosed (plain 9)))),
       full_shared\<lparr>sh_outbox := Some (?close full_outbox, 4)\<rparr>)"
    by (simp add: full_shared_def full_outbox_def ref_send_def ref_try_send_def
        try_send_queue_def ref_outbox_def sample_run_defs plain_def)
  from send_hands_back [OF law this] show ?thesis by simp
qed

end
