(* ===== verification/Ipc_Order.thy ===== *)
theory Ipc_Order
  imports Ipc_Send_Props
begin

text \<open>
  One \<^verbatim>\<open>Ref\<close> shared by any number of threads, with its drain task: the step relation of the
  two-tier send, the invariant that ties the pending count, the channel, the drain task and
  the order of messages together, and its preservation by every step.
\<close>

section \<open>Many senders, one drain task\<close>

text \<open>
  The machine of one reference: the shared state, the drain task of the outbox, one
  program counter per thread, and whether the last \<^verbatim>\<open>Ref\<close> is gone. The other fields only
  keep account: every message with the thread that sent it, in the order of the events: on
  the wire, in the queue, in the hands of the drain task, accepted; how many were dropped
  with the queue, and whether the task failed.
\<close>

record ('k, 'c) ref_sys =
  rs_sh :: "('k, 'c) ref_shared"
  rs_drain :: drain_pc
  rs_pcs :: "nat \<Rightarrow> 'c send_pc"
  rs_dropped :: bool
  rs_wire :: "(nat \<times> message) list"
  rs_queue :: "(nat \<times> message) list"
  rs_hold :: "(nat \<times> message) list"
  rs_accepted :: "(nat \<times> message) list"
  rs_leaked :: nat
  rs_failed :: bool

definition ref_sys_init :: "'k \<Rightarrow> ('k, 'c) ref_sys" where
  "ref_sys_init k =
     \<lparr>rs_sh = \<lparr>sh_kern = k, sh_outbox = None\<rparr>, rs_drain = DrainRecv,
      rs_pcs = (\<lambda>_. SendIdle), rs_dropped = False, rs_wire = [], rs_queue = [], rs_hold = [],
      rs_accepted = [], rs_leaked = 0, rs_failed = False\<rparr>"

definition drain_stopped :: "drain_pc \<Rightarrow> bool" where
  "drain_stopped p = (case p of DrainStopped _ \<Rightarrow> True | _ \<Rightarrow> False)"

fun note_send :: "nat \<Rightarrow> send_event \<Rightarrow> ('k, 'c) ref_sys \<Rightarrow> ('k, 'c) ref_sys" where
  "note_send t SendQuiet s = s"
| "note_send t (SentInline m) s =
     s\<lparr>rs_wire := rs_wire s @ [(t, m)], rs_accepted := rs_accepted s @ [(t, m)]\<rparr>"
| "note_send t (Queued m) s =
     (if drain_stopped (rs_drain s)
      then s\<lparr>rs_accepted := rs_accepted s @ [(t, m)], rs_leaked := Suc (rs_leaked s)\<rparr>
      else s\<lparr>rs_accepted := rs_accepted s @ [(t, m)], rs_queue := rs_queue s @ [(t, m)]\<rparr>)"

fun note_drain :: "drain_event \<Rightarrow> ('k, 'c) ref_sys \<Rightarrow> ('k, 'c) ref_sys" where
  "note_drain DrainQuiet s = s"
| "note_drain (DrainTook m) s = s\<lparr>rs_hold := take 1 (rs_queue s), rs_queue := tl (rs_queue s)\<rparr>"
| "note_drain DrainWrote s = s\<lparr>rs_wire := rs_wire s @ rs_hold s, rs_hold := []\<rparr>"
| "note_drain DrainGaveUp s = s\<lparr>rs_hold := [], rs_failed := True\<rparr>"
| "note_drain DrainClosed s =
     s\<lparr>rs_leaked := rs_leaked s + length (rs_queue s), rs_queue := []\<rparr>"

text \<open>
  The steps: a thread calls \<^verbatim>\<open>try_send\<close> or \<^verbatim>\<open>send\<close>, moves on, returns, or drops a \<^verbatim>\<open>send\<close>
  that waits at its one \<^verbatim>\<open>await\<close>; the drain task moves; the last \<^verbatim>\<open>Ref\<close> is dropped, which no
  call in progress allows; and anything at all happens to the kernel.
\<close>

inductive ref_step ::
  "('k, 'c) ref_env \<Rightarrow> ('k, 'c) ref_sys \<Rightarrow> ('k, 'c) ref_sys \<Rightarrow> bool" for E where
  step_call: "t < env_threads E \<Longrightarrow> rs_pcs s t = SendIdle \<Longrightarrow> \<not> rs_dropped s \<Longrightarrow>
    ref_step E s (s\<lparr>rs_pcs := (rs_pcs s)(t := send_begin kd m)\<rparr>)"
| step_return: "rs_pcs s t = SendDone r \<Longrightarrow>
    ref_step E s (s\<lparr>rs_pcs := (rs_pcs s)(t := SendIdle)\<rparr>)"
| step_cancel: "rs_pcs s t = SendReserve m \<Longrightarrow>
    ref_step E s (s\<lparr>rs_pcs := (rs_pcs s)(t := SendIdle)\<rparr>)"
| step_sender: "sender_step E (rs_pcs s t) (rs_sh s) = Some (pc, sh, ev) \<Longrightarrow>
    ref_step E s (note_send t ev (s\<lparr>rs_pcs := (rs_pcs s)(t := pc), rs_sh := sh\<rparr>))"
| step_drain: "sh_outbox (rs_sh s) = Some (b, d) \<Longrightarrow>
    drain_step (env_mpsc E) (env_send_now E d) reactor (rs_drain s) (sh_kern (rs_sh s), b) =
      Some (pc, (k, b'), ev) \<Longrightarrow>
    ref_step E s (note_drain ev
      (s\<lparr>rs_drain := pc, rs_sh := \<lparr>sh_kern = k, sh_outbox = Some (b', d)\<rparr>\<rparr>))"
| step_drop: "(\<And>t. rs_pcs s t = SendIdle) \<Longrightarrow> \<not> rs_dropped s \<Longrightarrow>
    ref_step E s (s\<lparr>rs_dropped := True,
      rs_sh := (rs_sh s)\<lparr>sh_outbox := map_option
        (\<lambda>(b, d). (b\<lparr>ob_sender := ch_drop_senders (env_mpsc E) (ob_sender b)\<rparr>, d))
        (sh_outbox (rs_sh s))\<rparr>\<rparr>)"
| step_kernel: "ref_step E s (s\<lparr>rs_sh := (rs_sh s)\<lparr>sh_kern := k\<rparr>\<rparr>)"

inductive_cases ref_stepE: "ref_step E s t"

section \<open>The invariant\<close>

fun claims :: "'c send_pc \<Rightarrow> bool" where
  "claims (PushTry _ _) = True"
| "claims (PushRelease _ _) = True"
| "claims (PermitSend _) = True"
| "claims _ = False"

fun permitted :: "'c send_pc \<Rightarrow> bool" where
  "permitted (PermitClaim _) = True"
| "permitted (PermitSend _) = True"
| "permitted _ = False"

fun needs_outbox :: "'c send_pc \<Rightarrow> bool" where
  "needs_outbox (PushClaim _ _) = True"
| "needs_outbox (PushTry _ _) = True"
| "needs_outbox (PushRelease _ _) = True"
| "needs_outbox (AgainOutbox _) = True"
| "needs_outbox (AgainSet _ _) = True"
| "needs_outbox (SendReserve _) = True"
| "needs_outbox (PermitClaim _) = True"
| "needs_outbox (PermitSend _) = True"
| "needs_outbox _ = False"

fun inlining :: "'c send_pc \<Rightarrow> bool" where
  "inlining (SendInline _ _) = True"
| "inlining _ = False"

fun building :: "'c send_pc \<Rightarrow> ('c outbox \<times> fd) option" where
  "building (SendSet _ _ b) = Some b"
| "building (AgainSet _ b) = Some b"
| "building _ = None"

fun drain_holds :: "drain_pc \<Rightarrow> nat" where
  "drain_holds (DrainSending _) = 1"
| "drain_holds (DrainSent _) = 1"
| "drain_holds _ = 0"

fun drain_failed :: "drain_pc \<Rightarrow> bool" where
  "drain_failed (DrainSent (Inl _)) = True"
| "drain_failed (DrainReleased (Inl _)) = True"
| "drain_failed (DrainStopped (Inl _)) = True"
| "drain_failed _ = False"

fun drain_message :: "drain_pc \<Rightarrow> message list" where
  "drain_message (DrainSending m) = [m]"
| "drain_message _ = []"

definition count_pcs :: "nat \<Rightarrow> ('c send_pc \<Rightarrow> bool) \<Rightarrow> (nat \<Rightarrow> 'c send_pc) \<Rightarrow> nat" where
  "count_pcs n P f = (\<Sum>t < n. if P (f t) then 1 else 0)"

lemma count_pcs_update:
  "t < n \<Longrightarrow> count_pcs n P (f(t := x)) + (if P (f t) then 1 else 0) =
     count_pcs n P f + (if P x then 1 else 0)"
proof -
  assume t: "t < n"
  have "count_pcs n P g = (if P (g t) then 1 else 0) + (\<Sum>u \<in> {..<n} - {t}. if P (g u) then 1 else 0)" for g
    unfolding count_pcs_def using t by (subst sum.remove [of _ t]) auto
  moreover have "(\<Sum>u \<in> {..<n} - {t}. if P ((f(t := x)) u) then 1 else 0 :: nat) =
      (\<Sum>u \<in> {..<n} - {t}. if P (f u) then 1 else 0)"
    by (rule sum.cong) auto
  ultimately show ?thesis by simp
qed

lemma count_pcs_le: "count_pcs n P f \<le> n"
proof -
  have "count_pcs n P f \<le> (\<Sum>t < n. 1)" unfolding count_pcs_def by (rule sum_mono) auto
  then show ?thesis by simp
qed

lemma count_pcs_none: "(\<And>t. \<not> P (f t)) \<Longrightarrow> count_pcs n P f = 0"
  by (simp add: count_pcs_def)

lemma count_pcs_pos: "t < n \<Longrightarrow> P (f t) \<Longrightarrow> 0 < count_pcs n P f"
  unfolding count_pcs_def by (subst sum.remove [of _ t]) auto

text \<open>The outbox and its counters; the shape of the threads and the drain; the order.\<close>

definition box_inv ::
  "('k, 'c) ref_env \<Rightarrow> ('c, message) mpsc_view \<Rightarrow> ('k, 'c) ref_sys \<Rightarrow> bool" where
  "box_inv E V s \<longleftrightarrow>
     (case sh_outbox (rs_sh s) of
        None \<Rightarrow> rs_drain s = DrainRecv \<and> rs_queue s = [] \<and> rs_leaked s = 0 \<and>
          (\<forall>t. \<not> needs_outbox (rs_pcs s t))
      | Some (b, _) \<Rightarrow>
          vw_cap V (ob_sender b) = DEPTH \<and>
          vw_queue V (ob_sender b) = map snd (rs_queue s) \<and>
          vw_permits V (ob_sender b) = count_pcs (env_threads E) permitted (rs_pcs s) \<and>
          length (rs_queue s) + vw_permits V (ob_sender b) + rs_leaked s \<le> DEPTH \<and>
          unat (ob_pending b) = length (rs_queue s) + drain_holds (rs_drain s) +
            count_pcs (env_threads E) claims (rs_pcs s) + rs_leaked s \<and>
          vw_closed V (ob_sender b) = drain_stopped (rs_drain s) \<and>
          vw_gone V (ob_sender b) = rs_dropped s)"

definition shape_inv :: "('k, 'c) ref_env \<Rightarrow> ('k, 'c) ref_sys \<Rightarrow> bool" where
  "shape_inv E s \<longleftrightarrow>
     (\<forall>t. env_threads E \<le> t \<or> rs_dropped s \<longrightarrow> rs_pcs s t = SendIdle) \<and>
     (\<forall>t b d. building (rs_pcs s t) = Some (b, d) \<longrightarrow>
        b = \<lparr>ob_sender = ch_channel (env_mpsc E) DEPTH, ob_pending = 0\<rparr>) \<and>
     map snd (rs_hold s) = drain_message (rs_drain s) \<and>
     rs_failed s = drain_failed (rs_drain s) \<and>
     (\<not> rs_failed s \<or> \<not> drain_stopped (rs_drain s) \<longrightarrow> rs_leaked s = 0) \<and>
     (drain_stopped (rs_drain s) \<longrightarrow> rs_queue s = []) \<and>
     (drain_stopped (rs_drain s) \<and> \<not> rs_failed s \<longrightarrow> rs_dropped s)"

definition order_inv :: "('k, 'c) ref_sys \<Rightarrow> bool" where
  "order_inv s \<longleftrightarrow>
     (\<forall>t. inlining (rs_pcs s t) \<longrightarrow> by_sender t (rs_hold s @ rs_queue s) = []) \<and>
     (\<forall>t. subseq (by_sender t (rs_wire s @ rs_hold s @ rs_queue s)) (by_sender t (rs_accepted s))) \<and>
     (\<not> rs_failed s \<longrightarrow>
        (\<forall>t. by_sender t (rs_wire s @ rs_hold s @ rs_queue s) = by_sender t (rs_accepted s)))"

definition ref_inv ::
  "('k, 'c) ref_env \<Rightarrow> ('c, message) mpsc_view \<Rightarrow> ('k, 'c) ref_sys \<Rightarrow> bool" where
  "ref_inv E V s \<longleftrightarrow> box_inv E V s \<and> shape_inv E s \<and> order_inv s"

lemmas ref_inv_defs = ref_inv_def box_inv_def shape_inv_def order_inv_def

lemma ref_inv_init: "ref_inv E V (ref_sys_init k)"
  by (simp add: ref_inv_defs ref_sys_init_def drain_stopped_def)

lemma permitted_needs: "permitted pc \<Longrightarrow> needs_outbox pc"
  by (cases pc) auto

lemma claims_needs: "claims pc \<Longrightarrow> needs_outbox pc"
  by (cases pc) auto


lemma subseq_snoc3:
  "subseq (a @ b @ c) x \<Longrightarrow> subseq (a @ b @ c @ [m]) (x @ [m])"
  using list_emb_append_mono [of "(=)" "a @ b @ c" x "[m]" "[m]"] by simp

lemma subseq_snoc_right: "subseq xs ys \<Longrightarrow> subseq xs (ys @ [m])"
  using list_emb_append_mono [of "(=)" xs ys "[]" "[m]"] by simp

lemma env_build_fresh:
  "env_build E k = (Inr (Returned (b, d)), k') \<Longrightarrow>
   b = \<lparr>ob_sender = ch_channel (env_mpsc E) DEPTH, ob_pending = 0\<rparr>"
  by (auto simp: env_build_def outbox_build_def io_defs split: option.splits prod.splits sum.splits)

lemma inv_outbox:
  assumes "ref_inv E V s" and "needs_outbox (rs_pcs s t)"
  obtains b d where "sh_outbox (rs_sh s) = Some (b, d)"
  using assms by (auto simp: ref_inv_def box_inv_def split: option.splits)

lemma inv_active:
  assumes "ref_inv E V s" and "rs_pcs s t \<noteq> SendIdle"
  shows "t < env_threads E \<and> \<not> rs_dropped s"
proof -
  from assms(1) have "\<forall>t. env_threads E \<le> t \<or> rs_dropped s \<longrightarrow> rs_pcs s t = SendIdle"
    by (simp add: ref_inv_def shape_inv_def)
  with assms(2) show ?thesis using not_le_imp_less by blast
qed

lemma inv_pending_bound:
  assumes "ref_inv E V s" and "env_threads E + 10 < 2 ^ 64"
    and "sh_outbox (rs_sh s) = Some (b, d)"
  shows "unat (ob_pending b) + 1 < 2 ^ 64"
proof -
  have "unat (ob_pending b) = length (rs_queue s) + drain_holds (rs_drain s) +
      count_pcs (env_threads E) claims (rs_pcs s) + rs_leaked s"
    "length (rs_queue s) + vw_permits V (ob_sender b) + rs_leaked s \<le> 8"
    using assms(1,3) by (auto simp: ref_inv_def box_inv_def DEPTH_def)
  moreover have "drain_holds (rs_drain s) \<le> 1" by (cases "rs_drain s") auto
  moreover have "count_pcs (env_threads E) claims (rs_pcs s) \<le> env_threads E"
    by (rule count_pcs_le)
  ultimately show ?thesis using assms(2) by linarith
qed

text \<open>A step that moves one thread and touches neither the outbox nor the account.\<close>

lemma inv_move:
  assumes "ref_inv E V s" and "t < env_threads E \<and> \<not> rs_dropped s"
    and "sh_outbox sh = sh_outbox (rs_sh s)"
    and "claims pc = claims (rs_pcs s t)" and "permitted pc = permitted (rs_pcs s t)"
    and "needs_outbox pc \<longrightarrow> sh_outbox sh \<noteq> None"
    and "inlining pc \<longrightarrow> by_sender t (rs_hold s @ rs_queue s) = []"
    and "\<forall>b d. building pc = Some (b, d) \<longrightarrow>
      b = \<lparr>ob_sender = ch_channel (env_mpsc E) DEPTH, ob_pending = 0\<rparr>"
  shows "ref_inv E V (s\<lparr>rs_pcs := (rs_pcs s)(t := pc), rs_sh := sh\<rparr>)"
proof -
  note c = count_pcs_update [of t "env_threads E" _ "rs_pcs s" pc]
  have "box_inv E V (s\<lparr>rs_pcs := (rs_pcs s)(t := pc), rs_sh := sh\<rparr>)"
    using assms c [of permitted] c [of claims]
    by (auto simp: ref_inv_def box_inv_def split: option.splits if_splits)
  moreover have "shape_inv E (s\<lparr>rs_pcs := (rs_pcs s)(t := pc), rs_sh := sh\<rparr>)"
    using assms by (auto simp: ref_inv_def shape_inv_def)
  moreover have "order_inv (s\<lparr>rs_pcs := (rs_pcs s)(t := pc), rs_sh := sh\<rparr>)"
    using assms by (auto simp: ref_inv_def order_inv_def)
  ultimately show ?thesis by (simp add: ref_inv_def)
qed


text \<open>The two updates of the counter, whichever call makes them.\<close>

lemma inv_claim:
  assumes inv: "ref_inv E V s" and t: "t < env_threads E \<and> \<not> rs_dropped s"
    and bound: "env_threads E + 10 < 2 ^ 64"
    and box: "sh_outbox (rs_sh s) = Some (b, d)"
    and pc: "\<not> claims (rs_pcs s t)" "claims pc" "permitted pc = permitted (rs_pcs s t)"
      "\<not> inlining pc" "building pc = None"
  shows "ref_inv E V (s\<lparr>rs_pcs := (rs_pcs s)(t := pc),
    rs_sh := (rs_sh s)\<lparr>sh_outbox := Some (outbox_claim b, d)\<rparr>\<rparr>)" (is "ref_inv E V ?s")
proof -
  note c = count_pcs_update [of t "env_threads E" _ "rs_pcs s" pc]
  have "unat (ob_pending b + 1) = unat (ob_pending b) + 1"
    using inv_pending_bound [OF inv bound box] by (rule usize_inc)
  then have "box_inv E V ?s"
    using inv t box pc c [of permitted] c [of claims]
    by (auto simp: ref_inv_def box_inv_def outbox_claim_def)
  moreover have "shape_inv E ?s"
    using inv t pc by (auto simp: ref_inv_def shape_inv_def)
  moreover have "order_inv ?s"
    using inv pc by (auto simp: ref_inv_def order_inv_def)
  ultimately show ?thesis by (simp add: ref_inv_def)
qed

lemma inv_release:
  assumes inv: "ref_inv E V s" and t: "t < env_threads E \<and> \<not> rs_dropped s"
    and box: "sh_outbox (rs_sh s) = Some (b, d)"
    and pc: "claims (rs_pcs s t)" "\<not> claims pc" "permitted pc = permitted (rs_pcs s t)"
      "\<not> inlining pc" "building pc = None"
  shows "ref_inv E V (s\<lparr>rs_pcs := (rs_pcs s)(t := pc),
    rs_sh := (rs_sh s)\<lparr>sh_outbox := Some (outbox_release b, d)\<rparr>\<rparr>)" (is "ref_inv E V ?s")
proof -
  note c = count_pcs_update [of t "env_threads E" _ "rs_pcs s" pc]
  have "0 < count_pcs (env_threads E) claims (rs_pcs s)"
    using t pc(1) by (intro count_pcs_pos) auto
  moreover from inv box have p: "unat (ob_pending b) = length (rs_queue s) + drain_holds (rs_drain s) +
      count_pcs (env_threads E) claims (rs_pcs s) + rs_leaked s"
    by (simp add: ref_inv_def box_inv_def)
  ultimately have "unat (ob_pending b - 1) = unat (ob_pending b) - 1"
    by (intro usize_dec) simp
  with p have "box_inv E V ?s"
    using inv t box pc c [of permitted] c [of claims]
    by (auto simp: ref_inv_def box_inv_def outbox_release_def)
  moreover have "shape_inv E ?s"
    using inv t pc by (auto simp: ref_inv_def shape_inv_def)
  moreover have "order_inv ?s"
    using inv pc by (auto simp: ref_inv_def order_inv_def)
  ultimately show ?thesis by (simp add: ref_inv_def)
qed

text \<open>Setting the lock: either it was empty, and the new outbox is, or nothing changes.\<close>

lemma inv_set:
  assumes inv: "ref_inv E V s" and t: "t < env_threads E \<and> \<not> rs_dropped s"
    and law: "mpsc_law (env_mpsc E) V"
    and old: "building (rs_pcs s t) = Some (b, d)"
    and pc: "\<not> claims pc" "\<not> permitted pc" "\<not> inlining pc" "building pc = None"
  shows "ref_inv E V (s\<lparr>rs_pcs := (rs_pcs s)(t := pc),
    rs_sh := (rs_sh s)\<lparr>sh_outbox := set_once (b, d) (sh_outbox (rs_sh s))\<rparr>\<rparr>)"
    (is "ref_inv E V ?s")
proof (cases "sh_outbox (rs_sh s)")
  case None
  have b: "b = \<lparr>ob_sender = ch_channel (env_mpsc E) DEPTH, ob_pending = 0\<rparr>"
    using inv old by (auto simp: ref_inv_def shape_inv_def)
  have none: "\<not> needs_outbox (rs_pcs s u)" "rs_drain s = DrainRecv" "rs_queue s = []" "rs_leaked s = 0" for u
    using inv None by (auto simp: ref_inv_def box_inv_def)
  have "\<not> permitted (((rs_pcs s)(t := pc)) u)" "\<not> claims (((rs_pcs s)(t := pc)) u)" for u
    using none(1) [of u] pc permitted_needs claims_needs by auto
  then have "count_pcs (env_threads E) permitted ((rs_pcs s)(t := pc)) = 0"
    "count_pcs (env_threads E) claims ((rs_pcs s)(t := pc)) = 0"
    by (intro count_pcs_none; blast)+
  then have "box_inv E V ?s"
    using None none b t mpsc_channel [OF law, of DEPTH]
    by (simp add: box_inv_def set_once_def drain_stopped_def)
  moreover have "shape_inv E ?s"
    using inv t pc by (auto simp: ref_inv_def shape_inv_def)
  moreover have "order_inv ?s"
    using inv pc by (auto simp: ref_inv_def order_inv_def)
  ultimately show ?thesis by (simp add: ref_inv_def)
next
  case (Some x)
  have "claims (rs_pcs s t) = False" "permitted (rs_pcs s t) = False"
    using old by (cases "rs_pcs s t"; simp)+
  then show ?thesis
    using Some pc by (intro inv_move [OF inv t]) (auto simp: set_once_def)
qed

lemma inv_pushed:
  assumes inv: "ref_inv E V s" and t: "t < env_threads E \<and> \<not> rs_dropped s"
    and law: "mpsc_law (env_mpsc E) V"
    and box: "sh_outbox (rs_sh s) = Some (b, d)" and old: "rs_pcs s t = PushTry kd m"
    and ok: "ch_try_send (env_mpsc E) m (ob_sender b) = Inr c"
  shows "ref_inv E V (note_send t (Queued m) (s\<lparr>rs_pcs := (rs_pcs s)(t := SendDone CallOk),
    rs_sh := (rs_sh s)\<lparr>sh_outbox := Some (b\<lparr>ob_sender := c\<rparr>, d)\<rparr>\<rparr>))"
    (is "ref_inv E V (note_send t (Queued m) ?s)")
proof -
  note cnt = count_pcs_update [of t "env_threads E" _ "rs_pcs s" "SendDone CallOk"]
  note ch = mpsc_try_ok [OF law ok]
  have open': "\<not> drain_stopped (rs_drain s)"
    using ch inv box by (auto simp: ref_inv_def box_inv_def)
  then have "rs_leaked s = 0" using inv by (simp add: ref_inv_def shape_inv_def)
  then have "box_inv E V (note_send t (Queued m) ?s)"
    using inv t box old ch open' cnt [of permitted] cnt [of claims]
    by (auto simp: ref_inv_def box_inv_def same_channel_def)
  moreover have "shape_inv E (note_send t (Queued m) ?s)"
    using inv t open' by (auto simp: ref_inv_def shape_inv_def)
  moreover have "order_inv (note_send t (Queued m) ?s)"
    using inv open' old by (auto simp: ref_inv_def order_inv_def intro: subseq_snoc3)
  ultimately show ?thesis by (simp add: ref_inv_def)
qed

lemma inv_reserved:
  assumes inv: "ref_inv E V s" and t: "t < env_threads E \<and> \<not> rs_dropped s"
    and law: "mpsc_law (env_mpsc E) V"
    and box: "sh_outbox (rs_sh s) = Some (b, d)" and old: "rs_pcs s t = SendReserve m"
    and ok: "ch_reserve (env_mpsc E) (ob_sender b) = Some (Inr c)"
  shows "ref_inv E V (s\<lparr>rs_pcs := (rs_pcs s)(t := PermitClaim m),
    rs_sh := (rs_sh s)\<lparr>sh_outbox := Some (b\<lparr>ob_sender := c\<rparr>, d)\<rparr>\<rparr>)" (is "ref_inv E V ?s")
proof -
  note cnt = count_pcs_update [of t "env_threads E" _ "rs_pcs s" "PermitClaim m"]
  note ch = mpsc_reserve_ok [OF law ok]
  have "\<not> drain_stopped (rs_drain s)"
    using ch inv box by (auto simp: ref_inv_def box_inv_def)
  then have "rs_leaked s = 0" using inv by (simp add: ref_inv_def shape_inv_def)
  then have "box_inv E V ?s"
    using inv t box old ch cnt [of permitted] cnt [of claims]
    by (auto simp: ref_inv_def box_inv_def same_channel_def)
  moreover have "shape_inv E ?s"
    using inv t by (auto simp: ref_inv_def shape_inv_def)
  moreover have "order_inv ?s"
    using inv old by (auto simp: ref_inv_def order_inv_def)
  ultimately show ?thesis by (simp add: ref_inv_def)
qed

lemma inv_permit_sent:
  assumes inv: "ref_inv E V s" and t: "t < env_threads E \<and> \<not> rs_dropped s"
    and law: "mpsc_law (env_mpsc E) V"
    and box: "sh_outbox (rs_sh s) = Some (b, d)" and old: "rs_pcs s t = PermitSend m"
  shows "ref_inv E V (note_send t (Queued m) (s\<lparr>rs_pcs := (rs_pcs s)(t := SendDone CallOk),
    rs_sh := (rs_sh s)\<lparr>sh_outbox := Some (outbox_permit_send (env_mpsc E) m b, d)\<rparr>\<rparr>))"
    (is "ref_inv E V (note_send t (Queued m) ?s)")
proof -
  note cnt = count_pcs_update [of t "env_threads E" _ "rs_pcs s" "SendDone CallOk"]
  have "0 < count_pcs (env_threads E) permitted (rs_pcs s)"
    using t old by (intro count_pcs_pos) auto
  then have p: "0 < vw_permits V (ob_sender b)"
    using inv box by (simp add: ref_inv_def box_inv_def)
  note ch = mpsc_permit [OF law p, of m]
  have failed: "drain_stopped (rs_drain s) \<Longrightarrow> rs_failed s"
    using inv t by (auto simp: ref_inv_def shape_inv_def)
  have "box_inv E V (note_send t (Queued m) ?s)"
    using inv t box old ch p cnt [of permitted] cnt [of claims]
    by (auto simp: ref_inv_def box_inv_def same_channel_def outbox_permit_send_def)
  moreover have "shape_inv E (note_send t (Queued m) ?s)"
    using inv t failed by (auto simp: ref_inv_def shape_inv_def)
  moreover have "order_inv (note_send t (Queued m) ?s)"
    using inv failed old by (auto simp: ref_inv_def order_inv_def intro: subseq_snoc3 subseq_snoc_right)
  ultimately show ?thesis by (simp add: ref_inv_def)
qed


lemma inv_sent_inline:
  assumes inv: "ref_inv E V s" and t: "t < env_threads E \<and> \<not> rs_dropped s"
    and old: "rs_pcs s t = SendInline kd m"
  shows "ref_inv E V (note_send t (SentInline m) (s\<lparr>rs_pcs := (rs_pcs s)(t := SendDone CallOk),
    rs_sh := (rs_sh s)\<lparr>sh_kern := k\<rparr>\<rparr>))" (is "ref_inv E V (note_send t _ ?s)")
proof -
  have m: "ref_inv E V ?s" using old by (intro inv_move [OF inv t]) auto
  then have "box_inv E V (note_send t (SentInline m) ?s)"
    by (simp add: ref_inv_def box_inv_def cong: option.case_cong)
  moreover have "shape_inv E (note_send t (SentInline m) ?s)"
    using m by (simp add: ref_inv_def shape_inv_def)
  moreover have empty: "by_sender t (rs_hold s) = []" "by_sender t (rs_queue s) = []"
    using inv old by (auto simp: ref_inv_def order_inv_def)
  have "subseq (by_sender t (rs_wire s @ rs_hold s @ rs_queue s)) (by_sender t (rs_accepted s))"
    "\<not> rs_failed s \<Longrightarrow>
      by_sender t (rs_wire s @ rs_hold s @ rs_queue s) = by_sender t (rs_accepted s)"
    using inv by (auto simp: ref_inv_def order_inv_def)
  then have "subseq (by_sender t (rs_wire s)) (by_sender t (rs_accepted s))"
    "\<not> rs_failed s \<Longrightarrow> by_sender t (rs_wire s) = by_sender t (rs_accepted s)"
    using empty by simp_all
  then have "order_inv (note_send t (SentInline m) ?s)"
    using inv empty by (auto simp: ref_inv_def order_inv_def)
  ultimately show ?thesis by (simp add: ref_inv_def)
qed

text \<open>The check of the backlog: an empty count means nothing is queued or in hand.\<close>

lemma not_backed_up_empty:
  assumes "ref_inv E V s" and "\<not> ref_backed_up (rs_sh s)"
  shows "rs_hold s = [] \<and> rs_queue s = []"
proof (cases "sh_outbox (rs_sh s)")
  case None
  with assms(1) show ?thesis by (auto simp: ref_inv_def box_inv_def shape_inv_def)
next
  case (Some x)
  with assms have "length (rs_queue s) + drain_holds (rs_drain s) = 0"
    by (auto simp: ref_backed_up_def outbox_is_backed_up_def ref_inv_def box_inv_def)
  moreover from assms(1) have "map snd (rs_hold s) = drain_message (rs_drain s)"
    by (simp add: ref_inv_def shape_inv_def)
  ultimately show ?thesis by (cases "rs_drain s") auto
qed

lemma inv_sender:
  assumes law: "mpsc_law (env_mpsc E) V" and bound: "env_threads E + 10 < 2 ^ 64"
    and inv: "ref_inv E V s"
    and stp: "sender_step E (rs_pcs s t) (rs_sh s) = Some (pc, sh, ev)"
  shows "ref_inv E V (note_send t ev (s\<lparr>rs_pcs := (rs_pcs s)(t := pc), rs_sh := sh\<rparr>))"
proof -
  have "rs_pcs s t \<noteq> SendIdle" using stp by auto
  with inv have t: "t < env_threads E \<and> \<not> rs_dropped s" by (rule inv_active)
  note move = inv_move [OF inv t] and out = inv_outbox [OF inv, of t]
  have keep: "rs_sh s = (rs_sh s)\<lparr>sh_outbox := sh_outbox (rs_sh s)\<rparr>" by simp
  show ?thesis
  proof (cases "rs_pcs s t")
    case (SendCheck kd m)
    with stp not_backed_up_empty [OF inv] show ?thesis
      by (auto intro!: move split: if_splits)
  next
    case (SendInline kd m)
    obtain r k where r: "env_send_now E (env_fd E) m (sh_kern (rs_sh s)) = (r, k)" by fastforce
    show ?thesis
    proof (cases r)
      case (Inr u)
      with stp r SendInline inv_sent_inline [OF inv t SendInline] show ?thesis by auto
    next
      case (Inl e)
      with stp r SendInline show ?thesis
        by (cases kd) (auto intro!: move split: if_splits)
    qed
  next
    case (SendOutbox kd m)
    show ?thesis
    proof (cases "sh_outbox (rs_sh s)")
      case None
      with stp SendOutbox show ?thesis
        by (cases kd) (auto intro!: move dest: env_build_fresh split: prod.splits sum.splits outcome.splits)
    qed (use stp SendOutbox in \<open>auto intro!: move\<close>)
  next
    case (SendSet kd m b)
    with stp inv_set [OF inv t law, of "fst b" "snd b" "PushClaim kd m"] show ?thesis by auto
  next
    case (AgainSet m b)
    with stp inv_set [OF inv t law, of "fst b" "snd b" "SendReserve m"] show ?thesis by auto
  next
    case (PushClaim kd m)
    with out obtain b d where "sh_outbox (rs_sh s) = Some (b, d)" by auto
    with stp PushClaim inv_claim [OF inv t bound, of b d "PushTry kd m"] show ?thesis by auto
  next
    case (PermitClaim m)
    with out obtain b d where "sh_outbox (rs_sh s) = Some (b, d)" by auto
    with stp PermitClaim inv_claim [OF inv t bound, of b d "PermitSend m"] show ?thesis by auto
  next
    case (PushTry kd m)
    with out obtain b d where b: "sh_outbox (rs_sh s) = Some (b, d)" by auto
    show ?thesis
    proof (cases "ch_try_send (env_mpsc E) m (ob_sender b)")
      case (Inl e)
      with stp PushTry b show ?thesis by (auto intro!: move)
    next
      case (Inr c)
      with stp PushTry b inv_pushed [OF inv t law b PushTry Inr] show ?thesis by auto
    qed
  next
    case (PushRelease kd e)
    with out obtain b d where "sh_outbox (rs_sh s) = Some (b, d)" by auto
    with stp PushRelease inv_release [OF inv t, of b d "try_send_failed kd e"] show ?thesis
      by (cases kd; cases e) auto
  next
    case (AgainOutbox m)
    with out obtain b d where "sh_outbox (rs_sh s) = Some (b, d)" by auto
    with stp AgainOutbox show ?thesis by (auto intro!: move)
  next
    case (SendReserve m)
    with out obtain b d where b: "sh_outbox (rs_sh s) = Some (b, d)" by auto
    with stp SendReserve inv_reserved [OF inv t law b SendReserve] show ?thesis
      by (auto intro!: move split: option.splits sum.splits)
  next
    case (PermitSend m)
    with out obtain b d where b: "sh_outbox (rs_sh s) = Some (b, d)" by auto
    with stp PermitSend inv_permit_sent [OF inv t law b PermitSend] show ?thesis by auto
  qed (use stp in auto)
qed

text \<open>The steps of the drain task.\<close>

lemma subseq_drop_mid: "subseq (a @ h @ q) x \<Longrightarrow> subseq (a @ q) x"
proof -
  have "subseq q (h @ q)" using list_emb_append_mono [of "(=)" "[]" h q q] by simp
  then have "subseq (a @ q) (a @ h @ q)"
    using list_emb_append_mono [of "(=)" a a q "h @ q"] by simp
  then show "subseq (a @ h @ q) x \<Longrightarrow> subseq (a @ q) x" by (rule subseq_order.trans)
qed

lemma inv_drain:
  assumes law: "mpsc_law (env_mpsc E) V"
    and inv: "ref_inv E V s"
    and box: "sh_outbox (rs_sh s) = Some (b, d)"
    and stp: "drain_step (env_mpsc E) attempt reactor (rs_drain s) (sh_kern (rs_sh s), b) =
      Some (pc, (k, b'), ev)"
  shows "ref_inv E V (note_drain ev
    (s\<lparr>rs_drain := pc, rs_sh := \<lparr>sh_kern = k, sh_outbox = Some (b', d)\<rparr>\<rparr>))" (is "ref_inv E V ?s")
proof -
  note parts = inv [unfolded ref_inv_def]
  have B: "box_inv E V s" and S: "shape_inv E s" and R: "order_inv s" using parts by simp_all
  have hold: "map snd (rs_hold s) = drain_message (rs_drain s)"
    using S by (simp add: shape_inv_def)
  have queue: "vw_queue V (ob_sender b) = map snd (rs_queue s)"
    using B box by (simp add: box_inv_def)
  have "box_inv E V ?s \<and> shape_inv E ?s \<and> order_inv ?s"
  proof (cases "rs_drain s")
    case DrainRecv
    with hold have h: "rs_hold s = []" by simp
    have f: "\<not> rs_failed s" "rs_leaked s = 0"
      using S DrainRecv by (auto simp: shape_inv_def drain_stopped_def)
    show ?thesis
    proof (cases "ch_recv (env_mpsc E) (ob_sender b)")
      case None
      with stp DrainRecv show ?thesis by simp
    next
      case (Some x)
      obtain r c where x: "x = (r, c)" by fastforce
      show ?thesis
      proof (cases r)
        case None
        note ch = mpsc_recv_end [OF law Some [unfolded x None]]
        have q: "rs_queue s = []" using ch queue by simp
        have "pc = DrainStopped (Inr ())" "b' = b\<lparr>ob_sender := ch_drop_receiver (env_mpsc E) c\<rparr>"
          "ev = DrainClosed" using stp DrainRecv Some x None by simp_all
        moreover have "rs_dropped s" using B box ch by (simp add: box_inv_def)
        ultimately show ?thesis
          using B S R box DrainRecv ch q f h mpsc_drop_receiver [OF law, of c]
          by (simp add: box_inv_def shape_inv_def order_inv_def drain_stopped_def)
      next
        case m: (Some m)
        note ch = mpsc_recv_some [OF law Some [unfolded x m]]
        from ch queue obtain y ys where q: "rs_queue s = y # ys" "snd y = m"
          "vw_queue V c = map snd ys" by auto
        have "pc = DrainSending m" "b' = b\<lparr>ob_sender := c\<rparr>" "ev = DrainTook m"
          using stp DrainRecv Some x m by simp_all
        then show ?thesis
          using B S R box DrainRecv ch q f h
          by (auto simp: box_inv_def shape_inv_def order_inv_def drain_stopped_def
              same_channel_def)
      qed
    qed
  next
    case (DrainSending m)
    have b': "b' = b" using stp DrainSending by (auto split: option.splits sum.splits prod.splits if_splits)
    have f: "\<not> rs_failed s" "rs_leaked s = 0"
      using S DrainSending by (auto simp: shape_inv_def drain_stopped_def)
    have "pc = DrainSending m \<and> ev = DrainQuiet \<or> pc = DrainSent (Inr ()) \<and> ev = DrainWrote \<or>
        (\<exists>e. pc = DrainSent (Inl e) \<and> ev = DrainGaveUp)"
      using stp DrainSending by (auto split: option.splits sum.splits prod.splits if_splits)
    then show ?thesis
    proof (elim disjE conjE exE)
      assume "pc = DrainSending m" "ev = DrainQuiet"
      then show ?thesis using B S R box b' DrainSending
        by (simp add: box_inv_def shape_inv_def order_inv_def)
    next
      assume "pc = DrainSent (Inr ())" "ev = DrainWrote"
      then show ?thesis using B S R box b' DrainSending f
        by (simp add: box_inv_def shape_inv_def order_inv_def drain_stopped_def)
    next
      fix e assume e: "pc = DrainSent (Inl e)" "ev = DrainGaveUp"
      have "box_inv E V ?s \<and> shape_inv E ?s" using B S box b' DrainSending f e
        by (simp add: box_inv_def shape_inv_def drain_stopped_def)
      moreover have "order_inv ?s" using R e
        by (auto simp: order_inv_def intro: subseq_drop_mid)
      ultimately show ?thesis by simp
    qed
  next
    case (DrainSent r)
    have e: "pc = DrainReleased r" "b' = outbox_release b" "ev = DrainQuiet"
      using stp DrainSent by simp_all
    have l: "rs_leaked s = 0" using S DrainSent by (auto simp: shape_inv_def drain_stopped_def)
    have "unat (ob_pending b - 1) = unat (ob_pending b) - 1"
      using B box DrainSent by (intro usize_dec) (simp add: box_inv_def)
    with e show ?thesis using B S R box DrainSent l
      by (cases r) (simp_all add: box_inv_def shape_inv_def order_inv_def outbox_release_def drain_stopped_def)
  next
    case (DrainReleased r)
    have l: "rs_leaked s = 0" using S DrainReleased by (auto simp: shape_inv_def drain_stopped_def)
    show ?thesis
    proof (cases r)
      case (Inr u)
      then have "pc = DrainRecv" "b' = b" "ev = DrainQuiet" using stp DrainReleased by simp_all
      then show ?thesis using B S R box DrainReleased Inr l
        by (simp add: box_inv_def shape_inv_def order_inv_def drain_stopped_def)
    next
      case (Inl e)
      then have e: "pc = DrainStopped (Inl e)"
        "b' = b\<lparr>ob_sender := ch_drop_receiver (env_mpsc E) (ob_sender b)\<rparr>" "ev = DrainClosed"
        using stp DrainReleased by simp_all
      have h: "rs_hold s = []" using hold DrainReleased by simp
      have "box_inv E V ?s" using B box DrainReleased Inl l e mpsc_drop_receiver [OF law]
        by (simp add: box_inv_def drain_stopped_def)
      moreover have "shape_inv E ?s" using S DrainReleased Inl l e
        by (simp add: shape_inv_def drain_stopped_def)
      moreover have "order_inv ?s" using R e DrainReleased Inl h S
        by (auto simp: order_inv_def shape_inv_def dest: spec intro: subseq_drop_mid [of _ "by_sender _ (rs_queue s)" "[]", simplified])
      ultimately show ?thesis by simp
    qed
  next
    case (DrainStopped r)
    with stp show ?thesis by simp
  qed
  then show ?thesis by (simp add: ref_inv_def)
qed

text \<open>All steps.\<close>

lemma inv_retire:
  assumes "ref_inv E V s" and "t < env_threads E \<and> \<not> rs_dropped s"
    and "\<not> claims pc" "\<not> permitted pc" "\<not> needs_outbox pc" "\<not> inlining pc" "building pc = None"
    and "\<not> claims (rs_pcs s t)" "\<not> permitted (rs_pcs s t)"
  shows "ref_inv E V (s\<lparr>rs_pcs := (rs_pcs s)(t := pc)\<rparr>)"
  using inv_move [OF assms(1,2), of "rs_sh s" pc] assms by simp

lemma ref_inv_step:
  assumes law: "mpsc_law (env_mpsc E) V" and bound: "env_threads E + 10 < 2 ^ 64"
    and inv: "ref_inv E V s" and stp: "ref_step E s s'"
  shows "ref_inv E V s'"
  using stp
proof (cases rule: ref_step.cases)
  case (step_call t kd m)
  then show ?thesis
    by (simp, intro inv_retire [OF inv]) (auto simp: send_begin_def split: call_kind.splits)
next
  case (step_return t r)
  with inv_active [OF inv, of t] show ?thesis
    by (simp, intro inv_retire [OF inv]) auto
next
  case (step_cancel t m)
  with inv_active [OF inv, of t] show ?thesis
    by (simp, intro inv_retire [OF inv]) auto
next
  case (step_sender t pc sh ev)
  with inv_sender [OF law bound inv] show ?thesis by simp
next
  case (step_drain b d reactor pc k b' ev)
  with inv_drain [OF law inv] show ?thesis by simp
next
  case step_drop
  have "count_pcs (env_threads E) permitted (rs_pcs s) = 0"
    using step_drop by (intro count_pcs_none) simp
  then have "box_inv E V s'"
    using inv step_drop mpsc_drop_senders [OF law]
    by (auto simp: ref_inv_def box_inv_def split: option.splits)
  moreover have "shape_inv E s'" "order_inv s'"
    using inv step_drop by (auto simp: ref_inv_def shape_inv_def order_inv_def)
  ultimately show ?thesis by (simp add: ref_inv_def)
next
  case (step_kernel k)
  with inv have "box_inv E V s'" by (simp add: ref_inv_def box_inv_def cong: option.case_cong)
  moreover from inv step_kernel have "shape_inv E s'" "order_inv s'"
    by (simp_all add: ref_inv_def shape_inv_def order_inv_def)
  ultimately show ?thesis by (simp add: ref_inv_def)
qed

interpretation reference: state_machine "ref_sys_init k" "ref_step E"
  "\<lambda>s. mpsc_law (env_mpsc E) V \<and> env_threads E + 10 < 2 ^ 64 \<longrightarrow> ref_inv E V s"
  for E :: "('k, 'c) ref_env" and V :: "('c, message) mpsc_view" and k :: 'k
  by unfold_locales (auto intro: ref_inv_init ref_inv_step)

section \<open>Runs that can be computed\<close>

text \<open>A schedule names who moves next; running one gives a reachable state.\<close>

datatype 'k turn =
  ActCall nat call_kind message | ActStep nat | ActReturn nat | ActDrain | ActKernel "'k \<Rightarrow> 'k"

fun ref_act :: "('k, 'c) ref_env \<Rightarrow> 'k turn \<Rightarrow> ('k, 'c) ref_sys \<Rightarrow> ('k, 'c) ref_sys option" where
  "ref_act E (ActCall t kd m) s =
     (case rs_pcs s t of
        SendIdle \<Rightarrow> if t < env_threads E \<and> \<not> rs_dropped s
                    then Some (s\<lparr>rs_pcs := (rs_pcs s)(t := send_begin kd m)\<rparr>) else None
      | _ \<Rightarrow> None)"
| "ref_act E (ActStep t) s =
     (case sender_step E (rs_pcs s t) (rs_sh s) of
        None \<Rightarrow> None
      | Some (pc, sh, ev) \<Rightarrow> Some (note_send t ev (s\<lparr>rs_pcs := (rs_pcs s)(t := pc), rs_sh := sh\<rparr>)))"
| "ref_act E (ActReturn t) s =
     (case rs_pcs s t of
        SendDone _ \<Rightarrow> Some (s\<lparr>rs_pcs := (rs_pcs s)(t := SendIdle)\<rparr>)
      | _ \<Rightarrow> None)"
| "ref_act E ActDrain s =
     (case sh_outbox (rs_sh s) of
        None \<Rightarrow> None
      | Some (b, d) \<Rightarrow>
          (case drain_step (env_mpsc E) (env_send_now E d) None (rs_drain s) (sh_kern (rs_sh s), b) of
             None \<Rightarrow> None
           | Some (pc, (k, b'), ev) \<Rightarrow>
               Some (note_drain ev
                 (s\<lparr>rs_drain := pc, rs_sh := \<lparr>sh_kern = k, sh_outbox = Some (b', d)\<rparr>\<rparr>))))"
| "ref_act E (ActKernel f) s = Some (s\<lparr>rs_sh := (rs_sh s)\<lparr>sh_kern := f (sh_kern (rs_sh s))\<rparr>\<rparr>)"

fun ref_acts ::
  "('k, 'c) ref_env \<Rightarrow> 'k turn list \<Rightarrow> ('k, 'c) ref_sys \<Rightarrow> ('k, 'c) ref_sys option" where
  "ref_acts E [] s = Some s"
| "ref_acts E (a # as) s = (case ref_act E a s of None \<Rightarrow> None | Some s' \<Rightarrow> ref_acts E as s')"

lemma ref_act_step: "ref_act E a s = Some s' \<Longrightarrow> ref_step E s s'"
  by (cases a) (auto split: send_pc.splits option.splits prod.splits if_splits intro: ref_step.intros)

lemma ref_acts_reach: "ref_acts E as s = Some s' \<Longrightarrow> reach i (ref_step E) s \<Longrightarrow> reach i (ref_step E) s'"
  by (induction as arbitrary: s) (auto split: option.splits dest: ref_act_step intro: reach_step)

lemma ref_acts_append:
  "ref_acts E (as @ bs) s = (case ref_acts E as s of None \<Rightarrow> None | Some s' \<Rightarrow> ref_acts E bs s')"
  by (induction as arbitrary: s) (simp_all split: option.splits del: ref_act.simps)

lemma ref_acts_inv:
  "mpsc_law (env_mpsc E) V \<Longrightarrow> env_threads E + 10 < 2 ^ 64 \<Longrightarrow> ref_inv E V s \<Longrightarrow>
   ref_acts E as s = Some s' \<Longrightarrow> ref_inv E V s'"
  by (induction as arbitrary: s) (auto split: option.splits dest: ref_act_step ref_inv_step)

section \<open>The drain task alone\<close>

text \<open>At most \<open>n\<close> steps of the task, with nobody else moving and a reactor that works.\<close>

fun drain_alone :: "('k, 'c) ref_env \<Rightarrow> nat \<Rightarrow> ('k, 'c) ref_sys \<Rightarrow> ('k, 'c) ref_sys" where
  "drain_alone E 0 s = s"
| "drain_alone E (Suc n) s =
     (case ref_act E ActDrain s of None \<Rightarrow> s | Some s' \<Rightarrow> drain_alone E n s')"

text \<open>
  A receiver that keeps up: from the kernel states \<open>K\<close> a message with no more descriptors
  than one control message carries is taken at once.
\<close>

definition accepting :: "('k, 'c) ref_env \<Rightarrow> 'k set \<Rightarrow> bool" where
  "accepting E K \<longleftrightarrow>
     (\<forall>d m. \<forall>k \<in> K. length (message_fds m) \<le> MAX_FDS \<longrightarrow>
        fst (env_send_now E d m k) = Inr () \<and> snd (env_send_now E d m k) \<in> K)"

fun drain_stage :: "drain_pc \<Rightarrow> nat" where
  "drain_stage DrainRecv = 1"
| "drain_stage (DrainSending _) = 4"
| "drain_stage (DrainSent _) = 3"
| "drain_stage (DrainReleased _) = 2"
| "drain_stage (DrainStopped _) = 0"

definition drain_work :: "('k, 'c) ref_sys \<Rightarrow> nat" where
  "drain_work s = 4 * length (rs_queue s) + drain_stage (rs_drain s)"

definition serving ::
  "('k, 'c) ref_env \<Rightarrow> ('c, message) mpsc_view \<Rightarrow> 'k set \<Rightarrow> ('k, 'c) ref_sys \<Rightarrow> bool" where
  "serving E V K s \<longleftrightarrow>
     ref_inv E V s \<and> \<not> rs_failed s \<and> sh_kern (rs_sh s) \<in> K \<and> sh_outbox (rs_sh s) \<noteq> None \<and>
     (\<forall>x \<in> set (rs_hold s @ rs_queue s). length (message_fds (snd x)) \<le> MAX_FDS)"

definition draining ::
  "('k, 'c) ref_env \<Rightarrow> ('c, message) mpsc_view \<Rightarrow> 'k set \<Rightarrow> ('k, 'c) ref_sys \<Rightarrow> bool" where
  "draining E V K s \<longleftrightarrow> serving E V K s \<and> rs_dropped s"

text \<open>The fields of the machine that a step of the drain task leaves alone.\<close>

definition same_callers :: "('k, 'c) ref_sys \<Rightarrow> ('k, 'c) ref_sys \<Rightarrow> bool" where
  "same_callers s s' \<longleftrightarrow> rs_accepted s' = rs_accepted s \<and> rs_pcs s' = rs_pcs s \<and> rs_dropped s' = rs_dropped s"

lemma serving_step:
  assumes law: "mpsc_law (env_mpsc E) V" and acc: "accepting E K"
    and s: "serving E V K s" and work: "1 < drain_work s"
  shows "\<exists>s'. ref_act E ActDrain s = Some s' \<and> serving E V K s' \<and>
    Suc (drain_work s') = drain_work s \<and> same_callers s s'"
proof -
  obtain b d where box: "sh_outbox (rs_sh s) = Some (b, d)" using s by (auto simp: serving_def)
  have inv: "ref_inv E V s" and K: "sh_kern (rs_sh s) \<in> K" and f: "\<not> rs_failed s"
    using s by (simp_all add: serving_def)
  have q: "vw_queue V (ob_sender b) = map snd (rs_queue s)"
    and h: "map snd (rs_hold s) = drain_message (rs_drain s)"
    and fl: "\<not> drain_failed (rs_drain s)"
    using inv box f by (auto simp: ref_inv_def box_inv_def shape_inv_def)
  note keep = inv_drain [OF law inv box, of "env_send_now E d" None]
  show ?thesis
  proof (cases "rs_drain s")
    case DrainRecv
    then have h0: "rs_hold s = []" using h by simp
    from DrainRecv work obtain y ys where y: "rs_queue s = y # ys"
      by (cases "rs_queue s") (simp_all add: drain_work_def)
    obtain r c where rc: "ch_recv (env_mpsc E) (ob_sender b) = Some (r, c)"
      using mpsc_recv_none [OF law, of "ob_sender b"] q y by fastforce
    with mpsc_recv_end [OF law, of "ob_sender b"] mpsc_recv_some [OF law, of "ob_sender b"] q y
    have "r = Some (snd y)" by (cases r) auto
    with rc box DrainRecv keep s h0 y show ?thesis
      by (simp add: serving_def same_callers_def drain_work_def)
  next
    case (DrainSending m)
    with h obtain y where y: "rs_hold s = [y]" "snd y = m" by auto
    with s have "length (message_fds m) \<le> MAX_FDS" by (auto simp: serving_def)
    with acc K obtain k' where k': "env_send_now E d m (sh_kern (rs_sh s)) = (Inr (), k')" "k' \<in> K"
      unfolding accepting_def by (metis prod.collapse)
    with box DrainSending keep s y show ?thesis
      by (simp add: serving_def same_callers_def drain_work_def)
  next
    case (DrainSent r)
    with box keep s show ?thesis by (simp add: serving_def same_callers_def drain_work_def)
  next
    case (DrainReleased r)
    with fl obtain u where "r = Inr u" by (cases r) auto
    with box keep s DrainReleased show ?thesis by (simp add: serving_def same_callers_def drain_work_def)
  next
    case (DrainStopped r)
    with inv work show ?thesis
      by (simp add: ref_inv_def shape_inv_def drain_stopped_def drain_work_def)
  qed
qed

text \<open>With nothing left to do the task ends, once the last reference is gone.\<close>

lemma draining_step:
  assumes law: "mpsc_law (env_mpsc E) V" and acc: "accepting E K"
    and s: "draining E V K s" and work: "drain_work s \<noteq> 0"
  shows "\<exists>s'. ref_act E ActDrain s = Some s' \<and> draining E V K s' \<and>
    Suc (drain_work s') = drain_work s \<and> rs_accepted s' = rs_accepted s"
proof (cases "1 < drain_work s")
  case True
  with serving_step [OF law acc _ this] s show ?thesis
    by (auto simp: draining_def same_callers_def simp del: ref_act.simps)
next
  case False
  with work have "rs_drain s = DrainRecv \<and> rs_queue s = []"
    by (cases "rs_drain s"; cases "rs_queue s") (simp_all add: drain_work_def)
  then have w: "rs_drain s = DrainRecv" "rs_queue s = []" by simp_all
  obtain b d where box: "sh_outbox (rs_sh s) = Some (b, d)" using s by (auto simp: draining_def serving_def)
  have inv: "ref_inv E V s" using s by (simp add: draining_def serving_def)
  then have q: "vw_queue V (ob_sender b) = []" "vw_gone V (ob_sender b)" "rs_hold s = []"
    using box w s by (auto simp: ref_inv_def box_inv_def shape_inv_def draining_def)
  obtain r c where rc: "ch_recv (env_mpsc E) (ob_sender b) = Some (r, c)"
    using mpsc_recv_none [OF law, of "ob_sender b"] q by fastforce
  with mpsc_recv_some [OF law, of "ob_sender b"] q have "r = None" by (cases r) auto
  with rc w q box s inv_drain [OF law inv box, of "env_send_now E d" None] show ?thesis
    by (simp add: draining_def serving_def drain_work_def)
qed


end
