(* ===== verification/Ipc_Order_Props.thy ===== *)
theory Ipc_Order_Props
  imports Ipc_Order
begin

text \<open>
  What the machine of \<^verbatim>\<open>Ipc_Order\<close> promises: order per sender, the exact pending count, the
  bound of the backlog, delivery after the last drop, and what a failed drain task leaves;
  with runs, computed from schedules, that reach the states in question.
\<close>

section \<open>The drain task delivers\<close>

lemma drain_alone_draining:
  assumes law: "mpsc_law (env_mpsc E) V" and acc: "accepting E K"
  shows "draining E V K s \<Longrightarrow> drain_work s \<le> n \<Longrightarrow>
    draining E V K (drain_alone E n s) \<and> drain_work (drain_alone E n s) = 0 \<and>
    rs_accepted (drain_alone E n s) = rs_accepted s"
proof (induction n arbitrary: s)
  case 0
  then show ?case by simp
next
  case (Suc n)
  show ?case
  proof (cases "drain_work s = 0")
    case True
    then obtain r where "rs_drain s = DrainStopped r"
      by (cases "rs_drain s") (auto simp: drain_work_def)
    then have "ref_act E ActDrain s = None" by (auto split: option.splits)
    with Suc.prems True show ?thesis by simp
  next
    case False
    from draining_step [OF law acc Suc.prems(1) False] obtain s' where
      s': "ref_act E ActDrain s = Some s'" "draining E V K s'" "Suc (drain_work s') = drain_work s"
      "rs_accepted s' = rs_accepted s" by blast
    with Suc.IH [of s'] Suc.prems(2) show ?thesis by (simp del: ref_act.simps)
  qed
qed

lemma drain_alone_done:
  assumes "draining E V K s" and "drain_work s = 0"
  shows "rs_drain s = DrainStopped (Inr ()) \<and>
    by_sender t (rs_wire s) = by_sender t (rs_accepted s)"
proof -
  from assms(2) obtain r where r: "rs_drain s = DrainStopped r" and q: "rs_queue s = []"
    by (cases "rs_drain s") (auto simp: drain_work_def)
  from assms(1) r have "\<not> drain_failed (DrainStopped r)" "rs_hold s = []" "\<not> rs_failed s"
    by (auto simp: draining_def serving_def ref_inv_def shape_inv_def)
  moreover from assms(1) have "order_inv s" by (simp add: draining_def serving_def ref_inv_def)
  ultimately show ?thesis using r q by (cases r) (auto simp: order_inv_def)
qed

section \<open>Examples that reach the hard states\<close>

lemmas schedule_defs =
  sample_run_defs drain_stopped_def ref_sys_init_def plain_def

lemma sample_env_law: "mpsc_law (env_mpsc sample_env) sample_view"
  using sample_mpsc_law by (simp add: sample_env_def)

lemma sample_env_anc_law: "anc_law (env_net sample_env)"
  using sample_anc_law by (simp add: anc_law_def sample_env_def)

lemma sample_env_threads: "env_threads sample_env + 10 < 2 ^ 64"
  by (simp add: sample_env_def)

text \<open>
  A full socket sends the first message of thread 0 through the queue; room returns, and its
  second message must queue behind it; the drain task has just written the first.
\<close>

definition backlog_turns :: "skern turn list" where
  "backlog_turns =
     [ActKernel (\<lambda>k. k\<lparr>sk_room := 0\<rparr>), ActCall 0 CallTrySend (plain 1), ActStep 0, ActStep 0,
      ActStep 0, ActStep 0, ActStep 0, ActStep 0, ActReturn 0, ActKernel (\<lambda>k. k\<lparr>sk_room := 4\<rparr>),
      ActCall 0 CallTrySend (plain 2), ActStep 0, ActStep 0, ActStep 0, ActStep 0,
      ActReturn 0, ActDrain, ActDrain]"

definition backlog_state :: "(skern, message schan) ref_sys" where
  "backlog_state =
     \<lparr>rs_sh = \<lparr>sh_kern = sample_kernel\<lparr>sk_open := [3, 0, 1, 2]\<rparr>,
        sh_outbox = Some (\<lparr>ob_sender = \<lparr>sc_cap = 8, sc_queue = [plain 2], sc_permits = 0,
          sc_closed = False, sc_gone = False\<rparr>, ob_pending = 2\<rparr>, 3)\<rparr>,
      rs_drain = DrainSent (Inr ()), rs_pcs = (\<lambda>_. SendIdle)(0 := SendIdle), rs_dropped = False,
      rs_wire = [(0, plain 1)], rs_queue = [(0, plain 2)], rs_hold = [],
      rs_accepted = [(0, plain 1), (0, plain 2)], rs_leaked = 0, rs_failed = False\<rparr>"

lemma backlog_run:
  "ref_acts sample_env backlog_turns (ref_sys_init sample_kernel) = Some backlog_state"
  unfolding backlog_state_def backlog_turns_def by (simp add: schedule_defs)

lemma backlog_reach: "reach (ref_sys_init sample_kernel) (ref_step sample_env) backlog_state"
  using ref_acts_reach [OF backlog_run reach_init] .

text \<open>The last reference goes away in that state.\<close>

definition dropped_state :: "(skern, message schan) ref_sys" where
  "dropped_state =
     backlog_state\<lparr>rs_dropped := True, rs_sh := \<lparr>sh_kern = sh_kern (rs_sh backlog_state),
       sh_outbox = Some (\<lparr>ob_sender = \<lparr>sc_cap = 8, sc_queue = [plain 2], sc_permits = 0,
          sc_closed = False, sc_gone = True\<rparr>, ob_pending = 2\<rparr>, 3)\<rparr>\<rparr>"

lemma sample_env_accepting: "accepting sample_env {k. 0 < sk_room k}"
  by (auto simp: accepting_def env_send_now_def send_now_eq [OF sample_env_anc_law] io_defs
      control_of_def) (auto simp: sample_env_def reading_sendmsg_def io_defs)

text \<open>
  Thread 1 found no backlog and is about to send inline; thread 0 met a full socket and was
  queued meanwhile.
\<close>

definition inline_turns :: "skern turn list" where
  "inline_turns =
     [ActCall 1 CallTrySend (plain 2), ActStep 1, ActKernel (\<lambda>k. k\<lparr>sk_room := 0\<rparr>),
      ActCall 0 CallTrySend (plain 1), ActStep 0, ActStep 0, ActStep 0, ActStep 0, ActStep 0,
      ActStep 0, ActKernel (\<lambda>k. k\<lparr>sk_room := 4\<rparr>)]"

definition inline_state :: "(skern, message schan) ref_sys" where
  "inline_state =
     \<lparr>rs_sh = \<lparr>sh_kern = sample_kernel\<lparr>sk_open := [3, 0, 1, 2]\<rparr>,
        sh_outbox = Some (\<lparr>ob_sender = \<lparr>sc_cap = 8, sc_queue = [plain 1], sc_permits = 0,
          sc_closed = False, sc_gone = False\<rparr>, ob_pending = 1\<rparr>, 3)\<rparr>,
      rs_drain = DrainRecv,
      rs_pcs = (\<lambda>_. SendIdle)(1 := SendInline CallTrySend (plain 2), 0 := SendDone CallOk),
      rs_dropped = False, rs_wire = [], rs_queue = [(0, plain 1)], rs_hold = [],
      rs_accepted = [(0, plain 1)], rs_leaked = 0, rs_failed = False\<rparr>"

lemma inline_run:
  "ref_acts sample_env inline_turns (ref_sys_init sample_kernel) = Some inline_state"
  unfolding inline_state_def inline_turns_def by (simp add: schedule_defs fun_upd_twist)

lemma inline_reach: "reach (ref_sys_init sample_kernel) (ref_step sample_env) inline_state"
  using ref_acts_reach [OF inline_run reach_init] .

text \<open>
  A message with one descriptor too many is queued, and another message behind it; the drain
  task takes the first and the kernel refuses it.
\<close>

definition oversized :: message where
  "oversized = \<lparr>msg_data = [9], msg_fds = replicate 254 (Owned 5)\<rparr>"

definition oversized_turns :: "skern turn list" where
  "oversized_turns =
     [ActCall 0 CallTrySend oversized, ActStep 0, ActStep 0, ActStep 0, ActStep 0, ActStep 0,
      ActCall 1 CallTrySend (plain 2), ActStep 1, ActStep 1, ActStep 1, ActStep 1, ActDrain,
      ActDrain, ActDrain, ActDrain]"

definition oversized_state :: "(skern, message schan) ref_sys" where
  "oversized_state =
     \<lparr>rs_sh = \<lparr>sh_kern = sample_kernel\<lparr>sk_open := [3, 0, 1, 2]\<rparr>,
        sh_outbox = Some (\<lparr>ob_sender = \<lparr>sc_cap = 8, sc_queue = [], sc_permits = 0,
          sc_closed = True, sc_gone = False\<rparr>, ob_pending = 1\<rparr>, 3)\<rparr>,
      rs_drain = DrainStopped (Inl (OsError InvalidInput 22)),
      rs_pcs = (\<lambda>_. SendIdle)(0 := SendDone CallOk, 1 := SendDone CallOk), rs_dropped = False,
      rs_wire = [], rs_queue = [], rs_hold = [],
      rs_accepted = [(0, oversized), (1, plain 2)], rs_leaked = 1, rs_failed = True\<rparr>"

lemma oversized_run:
  "ref_acts sample_env oversized_turns (ref_sys_init sample_kernel) = Some oversized_state"
proof -
  have facts: "length (message_fds oversized) = 254" "length (message_data oversized) = 1"
      "message_fds oversized \<noteq> []"
    by (simp_all add: oversized_def message_defs)
  have refused: "env_send_now sample_env d oversized k = (Inl (OsError InvalidInput 22), k)" for d k
    using facts by (simp add: env_send_now_def send_now_eq [OF sample_env_anc_law] control_of_def
        io_defs) (simp add: sample_env_def reading_sendmsg_def MAX_FDS_def)
  have other: "length (message_fds (plain x)) = 0" "length (message_data (plain x)) = 1" for x
    by (simp_all add: plain_def message_defs)
  have build: "env_build sample_env sample_kernel = (Inr (Returned
      (\<lparr>ob_sender = ch_channel sample_mpsc DEPTH, ob_pending = 0\<rparr>, 3)),
      sample_kernel\<lparr>sk_open := [3, 0, 1, 2]\<rparr>)"
    by (simp add: sample_run_defs)
  have env: "env_mpsc sample_env = sample_mpsc" "env_threads sample_env = 2"
    by (simp_all add: sample_env_def)
  show ?thesis
    unfolding oversized_state_def oversized_turns_def
    by (simp add: facts refused other build env send_begin_def MAX_FDS_def MAX_MESSAGE_SIZE_def
        ref_backed_up_def ref_sys_init_def sample_mpsc_def outbox_defs DEPTH_def set_once_def
        drain_stopped_def)
qed

lemma oversized_reach: "reach (ref_sys_init sample_kernel) (ref_step sample_env) oversized_state"
  using ref_acts_reach [OF oversized_run reach_init] .

section \<open>Properties\<close>

text \<open>C1: messages of one sender keep their order. However any number of threads calling
  \<^verbatim>\<open>try_send\<close> and \<^verbatim>\<open>send\<close>, dropped sends, the drain task and the kernel interleave, what one
  thread has on the wire, followed by what of its messages the drain task holds and what is
  queued, is in the order in which its calls were accepted, each message at most once; and
  while the drain task has met no error nothing accepted is missing.\<close>

theorem per_sender_fifo:
  assumes "mpsc_law (env_mpsc E) V" and "env_threads E + 10 < 2 ^ 64"
    and "reach (ref_sys_init k) (ref_step E) s"
  shows "subseq (by_sender t (rs_wire s @ rs_hold s @ rs_queue s)) (by_sender t (rs_accepted s)) \<and>
    (rs_failed s \<or>
      by_sender t (rs_wire s) @ by_sender t (rs_hold s) @ by_sender t (rs_queue s) =
        by_sender t (rs_accepted s))"
proof -
  have "ref_inv E V s" using reference.reach_inv [OF assms(3)] assms(1,2) by blast
  then show ?thesis by (auto simp: ref_inv_def order_inv_def)
qed

theorem per_sender_fifo_witness:
  "by_sender 0 (rs_wire backlog_state) @ by_sender 0 (rs_hold backlog_state) @
     by_sender 0 (rs_queue backlog_state) = by_sender 0 (rs_accepted backlog_state)"
  using per_sender_fifo [OF sample_env_law sample_env_threads backlog_reach, of 0]
  by (simp add: backlog_state_def)

text \<open>C2: the pending count is exact and never wraps. At every moment it is the number of
  messages queued, plus the one the drain task holds, plus the calls between claiming it and
  finishing, plus the messages that were lost with a closed queue; so a count of zero, which
  opens the inline path, means that no message of anybody is off the wire.\<close>

theorem pending_count_exact:
  assumes "mpsc_law (env_mpsc E) V" and "env_threads E + 10 < 2 ^ 64"
    and "reach (ref_sys_init k) (ref_step E) s" and "sh_outbox (rs_sh s) = Some (b, d)"
  shows "unat (ob_pending b) = length (rs_queue s) + length (rs_hold s) +
      (if \<exists>r. rs_drain s = DrainSent r then 1 else 0) +
      count_pcs (env_threads E) claims (rs_pcs s) + rs_leaked s \<and>
    (ref_backed_up (rs_sh s) \<or> rs_hold s = [] \<and> vw_queue V (ob_sender b) = [])"
proof -
  have inv: "ref_inv E V s" using reference.reach_inv [OF assms(3)] assms(1,2) by blast
  then have "map snd (rs_hold s) = drain_message (rs_drain s)"
    by (simp add: ref_inv_def shape_inv_def)
  then have "length (rs_hold s) = length (drain_message (rs_drain s))"
    by (metis length_map)
  then have "drain_holds (rs_drain s) =
      length (rs_hold s) + (if \<exists>r. rs_drain s = DrainSent r then 1 else 0)"
    by (cases "rs_drain s") auto
  with inv assms(4) not_backed_up_empty [OF inv] show ?thesis
    by (auto simp: ref_inv_def box_inv_def)
qed

theorem pending_count_exact_witness:
  "unat (2 :: usize) = length (rs_queue backlog_state) + 1 \<and> ref_backed_up (rs_sh backlog_state)"
  using pending_count_exact [OF sample_env_law sample_env_threads backlog_reach]
  by (simp add: backlog_state_def count_pcs_def ref_backed_up_def outbox_is_backed_up_def)

text \<open>A message that skips the queue overtakes nothing of its own sender: from the moment a
  call has decided for the inline \<^verbatim>\<open>sendmsg\<close> until it makes it, no earlier message of the same
  thread is queued or in the hands of the drain task; and never are more than \<^verbatim>\<open>DEPTH\<close>
  messages queued with one more in its hands.\<close>

theorem inline_overtakes_nothing_of_its_own:
  assumes "mpsc_law (env_mpsc E) V" and "env_threads E + 10 < 2 ^ 64"
    and "reach (ref_sys_init k) (ref_step E) s"
  shows "(rs_pcs s t = SendInline kd m \<longrightarrow> by_sender t (rs_hold s @ rs_queue s) = []) \<and>
    length (rs_queue s) \<le> DEPTH \<and> length (rs_hold s) \<le> 1"
proof -
  have inv: "ref_inv E V s" using reference.reach_inv [OF assms(3)] assms(1,2) by blast
  have "length (map snd (rs_hold s)) \<le> 1"
    using inv by (cases "rs_drain s") (simp_all add: ref_inv_def shape_inv_def)
  moreover have "length (rs_queue s) \<le> DEPTH"
    using inv by (auto simp: ref_inv_def box_inv_def split: option.splits)
  moreover have "rs_pcs s t = SendInline kd m \<longrightarrow> by_sender t (rs_hold s @ rs_queue s) = []"
    using inv by (auto simp: ref_inv_def order_inv_def)
  ultimately show ?thesis by simp
qed

theorem inline_overtakes_nothing_of_its_own_witness:
  "by_sender 1 (rs_hold inline_state @ rs_queue inline_state) = [] \<and>
   by_sender 0 (rs_hold inline_state @ rs_queue inline_state) = [plain 1]"
  using inline_overtakes_nothing_of_its_own [OF sample_env_law sample_env_threads inline_reach, of 1]
  by (simp add: inline_state_def)

text \<open>Order across senders is not kept, and this is as far as it goes wrong: a reachable
  run in which thread 1 looks at the backlog, thread 0 then finds the socket full and is
  queued, room returns, and the message of thread 1, accepted second, is first on the wire.\<close>

theorem senders_may_overtake_each_other:
  "\<exists>s. reach (ref_sys_init sample_kernel) (ref_step sample_env) s \<and>
     rs_accepted s = [(0, plain 1), (1, plain 2)] \<and> rs_wire s = [(1, plain 2)] \<and>
     rs_queue s = [(0, plain 1)]"
proof -
  have "\<exists>s. ref_acts sample_env [ActStep 1] inline_state = Some s \<and>
     rs_accepted s = [(0, plain 1), (1, plain 2)] \<and> rs_wire s = [(1, plain 2)] \<and>
     rs_queue s = [(0, plain 1)]"
    by (simp add: inline_state_def schedule_defs)
  then show ?thesis using ref_acts_reach [OF _ inline_reach] by blast
qed



text \<open>C19: when the drain task failed with messages still queued, the reference is closed for
  good although nobody asked the peer: the count stays raised, so no call tries the socket,
  and every \<^verbatim>\<open>try_send\<close> of an acceptable message hands it back as \<^verbatim>\<open>Closed\<close> without a system
  call and leaves everything as it was. The witness gets there with one message of 254
  descriptors, to a peer that is alive and reading; another accepted message is lost.\<close>

theorem lost_backlog_closes_reference:
  assumes "mpsc_law (env_mpsc E) V" and "env_threads E + 10 < 2 ^ 64"
    and "reach (ref_sys_init k) (ref_step E) s" and "0 < rs_leaked s"
    and "length (message_data m) \<le> MAX_MESSAGE_SIZE"
  shows "ref_try_send E m (rs_sh s) = (Returned (Inl (TryClosed m)), rs_sh s)"
proof -
  have inv: "ref_inv E V s" using reference.reach_inv [OF assms(3)] assms(1,2) by blast
  then obtain b d where box: "sh_outbox (rs_sh s) = Some (b, d)"
    using assms(4) by (auto simp: ref_inv_def box_inv_def split: option.splits)
  have "unat (ob_pending b) \<noteq> 0" using inv box assms(4) by (simp add: ref_inv_def box_inv_def)
  then have p: "ob_pending b \<noteq> 0" by auto
  have c: "vw_closed V (ob_sender b)"
    using inv box assms(4) by (auto simp: ref_inv_def box_inv_def shape_inv_def)
  from c mpsc_try_full [OF assms(1)] mpsc_try_closed [OF assms(1)] mpsc_try_ok [OF assms(1)]
  have "ch_try_send (env_mpsc E) m (ob_sender b) = Inl (ChClosed m)"
    by (cases "ch_try_send (env_mpsc E) m (ob_sender b)"; cases "projl (ch_try_send (env_mpsc E) m (ob_sender b))") auto
  then have "outbox_push (env_mpsc E) m b = (Inl (TryClosed m), b)"
    by (simp add: outbox_defs Let_def)
  then show ?thesis using assms(5) box p
    by (simp add: ref_try_send_def ref_backed_up_def outbox_is_backed_up_def try_send_queue_def
        ref_outbox_def Let_def)
qed

theorem lost_backlog_closes_reference_witness:
  "ref_try_send sample_env (plain 7) (rs_sh oversized_state) =
     (Returned (Inl (TryClosed (plain 7))), rs_sh oversized_state) \<and>
   fst (env_send_now sample_env 3 (plain 7) (sh_kern (rs_sh oversized_state))) = Inr () \<and>
   rs_accepted oversized_state = [(0, oversized), (1, plain 2)] \<and> rs_wire oversized_state = []"
  using lost_backlog_closes_reference [OF sample_env_law sample_env_threads oversized_reach, of "plain 7"]
  by (simp add: oversized_state_def sample_run_defs plain_def)

end
