(* ===== verification/Ipc_End_To_End.thy ===== *)
theory Ipc_End_To_End
  imports Ipc_Node_Props Ipc_Order_Props
begin

text \<open>
  The two ends together: \<^verbatim>\<open>wire::send_now\<close> at one end of a connected socket and
  \<^verbatim>\<open>recv_loop\<close> at the other.
\<close>

section \<open>From one end to the other\<close>

text \<open>
  Messages sent one after the other on the socket \<open>tx\<close>; the result is the kernel afterwards,
  if every send succeeded.
\<close>

fun send_all :: "'k net \<Rightarrow> (addr \<Rightarrow> fd) \<Rightarrow> fd \<Rightarrow> message list \<Rightarrow> 'k \<Rightarrow> 'k option" where
  "send_all N borrow tx [] k = Some k"
| "send_all N borrow tx (m # ms) k =
     (case send_now N borrow tx m k of
        (Inl e, k1) \<Rightarrow> None
      | (Inr _, k1) \<Rightarrow> send_all N borrow tx ms k1)"

text \<open>
  A \<^verbatim>\<open>sendmsg\<close> on \<open>tx\<close> that succeeds puts its payload at the end of the peer's queue, with
  as many descriptors in flight as the control message lent.
\<close>

definition connected_law :: "'k net \<Rightarrow> fd \<Rightarrow> ('k \<Rightarrow> datagram list) \<Rightarrow> ('k \<Rightarrow> bool) \<Rightarrow> bool" where
  "connected_law N tx q hung \<longleftrightarrow>
     (\<forall>iov ctl k n k'. net_sendmsg N tx iov ctl flags_for_send k = (Inr n, k') \<longrightarrow>
        q k' = q k @ [(iov, case ctl of None \<Rightarrow> 0 | Some fs \<Rightarrow> length fs)] \<and> hung k' = hung k)"

definition message_datagram :: "message \<Rightarrow> datagram" where
  "message_datagram m = (message_data m, length (message_fds m))"

lemma send_now_queues:
  assumes "connected_law N tx q hung" and "send_now N borrow tx m k = (Inr u, k')"
  shows "q k' = q k @ [message_datagram m] \<and> hung k' = hung k"
proof (cases "message_fds m = []")
  case True
  with assms show ?thesis
    by (auto simp: send_now_def connected_law_def io_defs message_datagram_def
        split: prod.splits sum.splits)
next
  case False
  with assms(2) obtain n where
    "net_sendmsg N tx (message_data m) (Some (borrowed_fds borrow m)) flags_for_send k = (Inr n, k')"
    by (auto simp: send_now_def io_defs Let_def split: if_splits prod.splits sum.splits)
  with assms(1) show ?thesis unfolding connected_law_def message_datagram_def
    by (metis length_borrowed_fds option.case(2))
qed

lemma send_all_queues:
  assumes "connected_law N tx q hung"
  shows "send_all N borrow tx ms k = Some k' \<Longrightarrow>
    q k' = q k @ map message_datagram ms \<and> hung k' = hung k"
proof (induction ms arbitrary: k)
  case (Cons m ms)
  then obtain u k1 where s: "send_now N borrow tx m k = (Inr u, k1)" "send_all N borrow tx ms k1 = Some k'"
    by (auto split: prod.splits sum.splits)
  with send_now_queues [OF assms s(1)] Cons.IH [OF s(2)] show ?case by simp
qed simp

lemma deliveries_all:
  "\<forall>p \<in> set ps. fst p \<noteq> [] \<and> length (fst p) \<le> MAX_MESSAGE_SIZE \<Longrightarrow> deliveries ps = ps"
  by (induction ps) auto

lemma send_all_handled:
  assumes "connected_law N tx q hung" and "seqpacket_law N rx q hung" and "hands_off rx q hung H"
    and "q k = []" and "send_all N borrow tx ms k = Some k1"
    and "\<forall>m \<in> set ms. message_data m \<noteq> [] \<and> length (message_data m) \<le> MAX_MESSAGE_SIZE"
    and "\<forall>ws \<in> set rounds. quiet q hung ws" and "length ms < length rounds"
    and "recv_loop_start debug N H rx rounds s k1 = (calls, e, s', k2)"
  shows "if e = Some LoopPanicked then \<exists>c \<in> set calls. panics_on H c
    else map call_datagram calls = map (\<lambda>m. (message_data m, length (message_fds m))) ms"
proof -
  have q: "q k1 = map message_datagram ms" using send_all_queues [OF assms(1,5)] assms(4) by simp
  have "deliveries (q k1) = q k1" unfolding q
    using assms(6) by (intro deliveries_all) (auto simp: message_datagram_def)
  moreover have "length (q k1) < length rounds" using q assms(8) by simp
  ultimately show ?thesis
    using recv_loop_delivers [OF assms(2,3,7) _ _ assms(9) [unfolded recv_loop_start_def]] q
    by (auto simp: delivered_def message_datagram_def)
qed

lemma sample_connected_law: "connected_law sample_net 3 sample_waiting sk_gone"
  by (auto simp: connected_law_def sample_net_def sample_sendmsg_def sample_waiting_def Let_def
      split: if_splits option.splits)

end
