(* ===== verification/Ipc_Registry_Machine.thy ===== *)
theory Ipc_Registry_Machine
  imports Ipc_Registry
begin

text \<open>
  The references of a process as a machine: threads intern descriptors, clone and drop
  references, send (which may leave an outbox in the reference), watch for death, while the kernel opens descriptors for the process and moves
  on. The drop of a reference is three steps, so anything may come between them.
\<close>

section \<open>The machine\<close>

datatype drop_stage = Alive | Unfiling | Closing | Gone

record ('o, 'k) cap_sys =
  cs_caps :: "'o caps"
  cs_kern :: 'k
  cs_stage :: "addr \<Rightarrow> drop_stage"
  cs_loose :: "fd set"

definition cap_init :: "'k \<Rightarrow> ('o, 'k) cap_sys" where
  "cap_init k =
     \<lparr>cs_caps = \<lparr>cp_heap = Map.empty, cp_refs = Map.empty\<rparr>, cs_kern = k,
      cs_stage = (\<lambda>_. Gone), cs_loose = {}\<rparr>"

text \<open>
  The descriptors a reference owns, the references that still own theirs, and all the
  descriptors the process has in its hands.
\<close>

definition owned :: "'o ref_inner \<Rightarrow> fd set" where
  "owned v = insert (ri_fd v) (set_option (ri_death v))"

definition owners :: "('o, 'k) cap_sys \<Rightarrow> addr \<rightharpoonup> 'o ref_inner" where
  "owners s = (\<lambda>a. if cs_stage s a = Gone then None
     else map_option inner (cp_heap (cs_caps s) a))"

definition held :: "('o, 'k) cap_sys \<Rightarrow> fd set" where
  "held s = cs_loose s \<union>
     \<Union>(owned ` ran (owners s))"

text \<open>
  What the registry relies on. \<open>obj k d\<close> is the socket that descriptor \<open>d\<close> names, none when
  it is not open. \<^verbatim>\<open>fstat\<close> gives the descriptors of one socket one identity and those of
  different open sockets different ones; closing a descriptor, duplicating and registering
  one leave the others alone.
\<close>

definition identity_law :: "'k net \<Rightarrow> ('k \<Rightarrow> fd \<Rightarrow> nat option) \<Rightarrow> bool" where
  "identity_law N obj \<longleftrightarrow>
     (\<forall>k d d' i. obj k d \<noteq> None \<and> obj k d = obj k d' \<and> socket_id N d k = Inr i \<longrightarrow>
        socket_id N d' k = Inr i) \<and>
     (\<forall>k d d' i. obj k d \<noteq> None \<and> obj k d' \<noteq> None \<and> socket_id N d k = Inr i \<and>
        socket_id N d' k = Inr i \<longrightarrow> obj k d = obj k d') \<and>
     (\<forall>k d d'. d' \<noteq> d \<longrightarrow> obj (net_close N d k) d' = obj k d' \<and>
        socket_id N d' (net_close N d k) = socket_id N d' k) \<and>
     (\<forall>k d. obj (net_close N d k) d = None) \<and>
     (\<forall>k d e k'. net_dup N d k = (Inl e, k') \<longrightarrow> obj k' = obj k \<and>
        (\<forall>d'. socket_id N d' k' = socket_id N d' k)) \<and>
     (\<forall>k d w k'. net_dup N d k = (Inr w, k') \<longrightarrow>
        obj k w = None \<and> obj k' = (obj k)(w := obj k d) \<and>
        (\<forall>d'. obj k d' \<noteq> None \<longrightarrow> socket_id N d' k' = socket_id N d' k)) \<and>
     (\<forall>k d. obj (snd (net_async_fd N d k)) = obj k \<and>
        (\<forall>d'. socket_id N d' (snd (net_async_fd N d k)) = socket_id N d' k))"

inductive cap_step ::
  "'k net \<Rightarrow> ('k \<Rightarrow> fd \<Rightarrow> nat option) \<Rightarrow> ('o, 'k) cap_sys \<Rightarrow> ('o, 'k) cap_sys \<Rightarrow> bool"
  for N obj where
  step_from_fd: "d \<in> cs_loose s \<Longrightarrow> cp_heap (cs_caps s) a = None \<Longrightarrow>
    ref_from_fd N rt a d (cs_caps s, cs_kern s) = (r, (c, k)) \<Longrightarrow>
    cap_step N obj s (s\<lparr>cs_caps := c, cs_kern := k, cs_loose := cs_loose s - {d},
      cs_stage := (cs_stage s)(r := Alive)\<rparr>)"
| step_clone: "cs_stage s a = Alive \<Longrightarrow>
    cap_step N obj s (s\<lparr>cs_caps := (cs_caps s)\<lparr>cp_heap := ref_clone a (cp_heap (cs_caps s))\<rparr>\<rparr>)"
| step_release: "cs_stage s a = Alive \<Longrightarrow> h = arc_release a (cp_heap (cs_caps s)) \<Longrightarrow>
    cap_step N obj s (s\<lparr>cs_caps := (cs_caps s)\<lparr>cp_heap := h\<rparr>,
      cs_stage := (cs_stage s)(a := if strong_count h a = 0 then Unfiling else Alive)\<rparr>)"
| step_unfile: "cs_stage s a = Unfiling \<Longrightarrow>
    cap_step N obj s (s\<lparr>cs_caps := ref_inner_drop a (cs_caps s),
      cs_stage := (cs_stage s)(a := Closing)\<rparr>)"
| step_close: "cs_stage s a = Closing \<Longrightarrow> cp_heap (cs_caps s) a = Some c \<Longrightarrow>
    cap_step N obj s (s\<lparr>cs_kern := ref_fields_drop N (inner c) (cs_kern s),
      cs_stage := (cs_stage s)(a := Gone)\<rparr>)"
| step_free: "cs_stage s a = Gone \<Longrightarrow> a \<notin> ran (cp_refs (cs_caps s)) \<Longrightarrow>
    cap_step N obj s (s\<lparr>cs_caps := (cs_caps s)\<lparr>cp_heap := (cp_heap (cs_caps s))(a := None)\<rparr>\<rparr>)"
| step_watch: "cs_stage s a = Alive \<Longrightarrow> cp_heap (cs_caps s) a = Some c \<Longrightarrow>
    ref_death_watch N (inner c) (cs_kern s) = (r, v, k) \<Longrightarrow>
    cap_step N obj s (s\<lparr>cs_caps := (cs_caps s)
        \<lparr>cp_heap := (cp_heap (cs_caps s))(a \<mapsto> c\<lparr>inner := v\<rparr>)\<rparr>, cs_kern := k\<rparr>)"
| step_outbox: "cs_stage s a = Alive \<Longrightarrow> cp_heap (cs_caps s) a = Some c \<Longrightarrow>
    cap_step N obj s (s\<lparr>cs_caps := (cs_caps s)\<lparr>cp_heap :=
        (cp_heap (cs_caps s))(a \<mapsto> c\<lparr>inner := (inner c)\<lparr>ri_outbox := b\<rparr>\<rparr>)\<rparr>\<rparr>)"
| step_discard: "d \<in> cs_loose s \<Longrightarrow>
    cap_step N obj s (s\<lparr>cs_kern := net_close N d (cs_kern s), cs_loose := cs_loose s - {d}\<rparr>)"
| step_env: "(\<forall>d \<in> held s. obj k d = obj (cs_kern s) d \<and>
      (\<forall>i. socket_id N d (cs_kern s) = Inr i \<longrightarrow> socket_id N d k = Inr i)) \<Longrightarrow>
    (\<forall>d \<in> D. obj k d \<noteq> None) \<Longrightarrow> D \<inter> held s = {} \<Longrightarrow>
    cap_step N obj s (s\<lparr>cs_kern := k, cs_loose := cs_loose s \<union> D\<rparr>)"

section \<open>The invariant\<close>

text \<open>What the registry files names a socket by its identity and is not unfiled yet, and what
  is alive and has an identity is filed under it.\<close>

definition filed_ok ::
  "(SocketId \<rightharpoonup> addr) \<Rightarrow> (addr \<rightharpoonup> SocketId) \<Rightarrow> (addr \<Rightarrow> drop_stage) \<Rightarrow> bool" where
  "filed_ok refs ids stage \<longleftrightarrow>
     (\<forall>i a. refs i = Some a \<longrightarrow> ids a = Some i \<and> stage a \<in> {Alive, Unfiling}) \<and>
     (\<forall>a i. stage a = Alive \<and> ids a = Some i \<longrightarrow> refs i = Some a)"

definition cap_ids :: "'o ref_heap \<Rightarrow> addr \<rightharpoonup> SocketId" where
  "cap_ids h a = (case h a of None \<Rightarrow> None | Some c \<Rightarrow> ri_id (inner c))"

definition counts_ok :: "'o ref_heap \<Rightarrow> (addr \<Rightarrow> drop_stage) \<Rightarrow> bool" where
  "counts_ok h stage \<longleftrightarrow>
     (\<forall>a. (stage a = Alive) = (strong_count h a \<noteq> 0) \<and> (h a = None \<longrightarrow> stage a = Gone))"

declare split_paired_All [simp del] split_paired_Ex [simp del]

text \<open>What is owned is open, owned once, and of the identity it was filed under.\<close>

definition fds_ok ::
  "(fd \<Rightarrow> nat option) \<Rightarrow> (fd \<Rightarrow> (SocketId, io_error) result) \<Rightarrow> fd set \<Rightarrow>
   (addr \<rightharpoonup> 'o ref_inner) \<Rightarrow> bool" where
  "fds_ok ob sid loose T \<longleftrightarrow>
     (\<forall>d \<in> loose. ob d \<noteq> None) \<and>
     (\<forall>a v d. T a = Some v \<and> d \<in> owned v \<longrightarrow> ob d \<noteq> None \<and> d \<notin> loose) \<and>
     (\<forall>a v i. T a = Some v \<and> ri_id v = Some i \<longrightarrow> sid (ri_fd v) = Inr i) \<and>
     (\<forall>a b v w d. T a = Some v \<and> T b = Some w \<and> d \<in> owned v \<and> d \<in> owned w \<longrightarrow> a = b) \<and>
     (\<forall>a v. T a = Some v \<longrightarrow> ri_death v \<noteq> Some (ri_fd v))"

definition cap_inv ::
  "'k net \<Rightarrow> ('k \<Rightarrow> fd \<Rightarrow> nat option) \<Rightarrow> ('o, 'k) cap_sys \<Rightarrow> bool" where
  "cap_inv N obj s \<longleftrightarrow>
     filed_ok (cp_refs (cs_caps s)) (cap_ids (cp_heap (cs_caps s))) (cs_stage s) \<and>
     counts_ok (cp_heap (cs_caps s)) (cs_stage s) \<and>
     fds_ok (obj (cs_kern s)) (\<lambda>d. socket_id N d (cs_kern s)) (cs_loose s) (owners s)"

lemma cap_inv_init: "cap_inv N obj (cap_init k)"
  by (simp add: cap_inv_def filed_ok_def counts_ok_def strong_count_def fds_ok_def cap_init_def owners_def)

lemma identity_lawD:
  assumes "identity_law N obj"
  shows id_same: "obj k d \<noteq> None \<Longrightarrow> obj k d = obj k d' \<Longrightarrow> socket_id N d k = Inr i \<Longrightarrow>
      socket_id N d' k = Inr i"
    and id_distinct: "obj k d \<noteq> None \<Longrightarrow> obj k d' \<noteq> None \<Longrightarrow> socket_id N d k = Inr i \<Longrightarrow>
      socket_id N d' k = Inr i \<Longrightarrow> obj k d = obj k d'"
    and id_close: "d' \<noteq> d \<Longrightarrow> obj (net_close N d k) d' = obj k d'"
      "d' \<noteq> d \<Longrightarrow> socket_id N d' (net_close N d k) = socket_id N d' k"
    and id_closed: "obj (net_close N d k) d = None"
    and id_dup_err: "net_dup N d k = (Inl e, k') \<Longrightarrow> obj k' = obj k"
      "net_dup N d k = (Inl e, k') \<Longrightarrow> socket_id N d' k' = socket_id N d' k"
    and id_dup: "net_dup N d k = (Inr w, k') \<Longrightarrow> obj k w = None"
      "net_dup N d k = (Inr w, k') \<Longrightarrow> obj k' = (obj k)(w := obj k d)"
      "net_dup N d k = (Inr w, k') \<Longrightarrow> obj k d' \<noteq> None \<Longrightarrow> socket_id N d' k' = socket_id N d' k"
    and id_async: "obj (snd (net_async_fd N d k)) = obj k"
      "socket_id N d' (snd (net_async_fd N d k)) = socket_id N d' k"
proof -
  note l = assms [unfolded identity_law_def]
  note l1 = l [THEN conjunct1, rule_format]
  note r = l [THEN conjunct2]
  note l2 = r [THEN conjunct1, rule_format]
  note r2 = r [THEN conjunct2]
  note l3 = r2 [THEN conjunct1, rule_format]
  note r3 = r2 [THEN conjunct2]
  note l4 = r3 [THEN conjunct1, rule_format]
  note r4 = r3 [THEN conjunct2]
  note l5 = r4 [THEN conjunct1, rule_format]
  note r5 = r4 [THEN conjunct2]
  note l6 = r5 [THEN conjunct1, rule_format]
  note l7 = r5 [THEN conjunct2, rule_format]
  show "obj k d \<noteq> None \<Longrightarrow> obj k d = obj k d' \<Longrightarrow> socket_id N d k = Inr i \<Longrightarrow>
      socket_id N d' k = Inr i" using l1 [of k d d' i] by blast
  show "obj k d \<noteq> None \<Longrightarrow> obj k d' \<noteq> None \<Longrightarrow> socket_id N d k = Inr i \<Longrightarrow>
      socket_id N d' k = Inr i \<Longrightarrow> obj k d = obj k d'" using l2 [of k d d' i] by blast
  show "d' \<noteq> d \<Longrightarrow> obj (net_close N d k) d' = obj k d'"
    "d' \<noteq> d \<Longrightarrow> socket_id N d' (net_close N d k) = socket_id N d' k"
    using l3 [of d' d k] by simp_all
  show "obj (net_close N d k) d = None" by (rule l4)
  show "net_dup N d k = (Inl e, k') \<Longrightarrow> obj k' = obj k"
    "net_dup N d k = (Inl e, k') \<Longrightarrow> socket_id N d' k' = socket_id N d' k"
    using l5 [of d k e k'] by simp_all
  show "net_dup N d k = (Inr w, k') \<Longrightarrow> obj k w = None"
    "net_dup N d k = (Inr w, k') \<Longrightarrow> obj k' = (obj k)(w := obj k d)"
    "net_dup N d k = (Inr w, k') \<Longrightarrow> obj k d' \<noteq> None \<Longrightarrow> socket_id N d' k' = socket_id N d' k"
    using l6 [of d k w k'] by simp_all
  show "obj (snd (net_async_fd N d k)) = obj k"
    "socket_id N d' (snd (net_async_fd N d k)) = socket_id N d' k"
    using l7 [of d k] by simp_all
qed

lemma owned_fd [simp]: "ri_fd v \<in> owned v"
  by (simp add: owned_def)

lemma owned_new [simp]: "owned (ref_inner_new rt d i) = {d}"
  by (simp add: owned_def ref_inner_new_def)

lemma ref_inner_new_simps [simp]:
  "ri_fd (ref_inner_new rt d i) = d" "ri_id (ref_inner_new rt d i) = i"
  "ri_death (ref_inner_new rt d i) = None"
  by (simp_all add: ref_inner_new_def)

section \<open>Tables of entries\<close>

lemma filed_okD:
  assumes "filed_ok refs ids stage"
  shows "refs i = Some a \<Longrightarrow> ids a = Some i"
    and "refs i = Some a \<Longrightarrow> stage a = Alive \<or> stage a = Unfiling"
    and "stage a = Alive \<Longrightarrow> ids a = Some i \<Longrightarrow> refs i = Some a"
  using assms unfolding filed_ok_def by blast+

lemma filed_okI:
  assumes "\<And>i a. refs i = Some a \<Longrightarrow> ids a = Some i"
    and "\<And>i a. refs i = Some a \<Longrightarrow> stage a = Alive \<or> stage a = Unfiling"
    and "\<And>a i. stage a = Alive \<Longrightarrow> ids a = Some i \<Longrightarrow> refs i = Some a"
  shows "filed_ok refs ids stage"
  using assms unfolding filed_ok_def by blast

lemma filed_new:
  assumes ok: "filed_ok refs ids stage" and a: "stage a = Gone"
    and dead: "\<And>b. refs i = Some b \<Longrightarrow> stage b \<noteq> Alive"
  shows "filed_ok (refs(i \<mapsto> a)) (ids(a := Some i)) (stage(a := Alive))"
proof (rule filed_okI)
  fix j b assume *: "(refs(i \<mapsto> a)) j = Some b"
  show "(ids(a := Some i)) b = Some j"
    using * filed_okD(1) [OF ok, of j b] filed_okD(2) [OF ok, of j b] a
    by (cases "j = i"; cases "b = a") simp_all
  show "(stage(a := Alive)) b = Alive \<or> (stage(a := Alive)) b = Unfiling"
    using * filed_okD(2) [OF ok, of j b] a by (cases "j = i") auto
next
  fix b j assume *: "(stage(a := Alive)) b = Alive" "(ids(a := Some i)) b = Some j"
  show "(refs(i \<mapsto> a)) j = Some b"
    using * filed_okD(3) [OF ok, of b j] dead [of b] by (cases "b = a"; cases "j = i") simp_all
qed

lemma filed_unfiled:
  assumes ok: "filed_ok refs ids stage" and a: "stage a = Gone"
  shows "filed_ok refs (ids(a := None)) (stage(a := Alive))"
proof (rule filed_okI)
  fix j b assume *: "refs j = Some b"
  then have "b \<noteq> a" using filed_okD(2) [OF ok *] a by auto
  with filed_okD(1,2) [OF ok *] show "(ids(a := None)) b = Some j"
    "(stage(a := Alive)) b = Alive \<or> (stage(a := Alive)) b = Unfiling" by simp_all
next
  fix b j assume "(stage(a := Alive)) b = Alive" "(ids(a := None)) b = Some j"
  then show "refs j = Some b" using filed_okD(3) [OF ok, of b j] by (cases "b = a") simp_all
qed

text \<open>The drop of \<open>a\<close> removes an entry of nobody alive.\<close>

lemma filed_drop:
  assumes ok: "filed_ok refs ids stage" and a: "stage a = Unfiling"
    and P: "\<And>w. stage w = Alive \<Longrightarrow> \<not> P w" "P a"
    and refs: "refs' = (case ids a of None \<Rightarrow> refs | Some i \<Rightarrow> refs_remove_if i P refs)"
  shows "filed_ok refs' ids (stage(a := Closing))"
proof (rule filed_okI)
  have sub: "refs j = Some b" if "refs' j = Some b" for j b
    using that refs by (auto simp: refs_remove_if_def split: option.splits if_splits)
  fix j b assume *: "refs' j = Some b"
  then show "ids b = Some j" using filed_okD(1) [OF ok sub] by blast
  have "b \<noteq> a"
  proof
    assume b: "b = a"
    with * sub filed_okD(1) [OF ok] have "ids a = Some j" by blast
    with * b P(2) refs sub [OF *] show False by (simp add: refs_remove_if_def)
  qed
  then show "(stage(a := Closing)) b = Alive \<or> (stage(a := Closing)) b = Unfiling"
    using filed_okD(2) [OF ok sub [OF *]] by simp
next
  fix b j assume *: "(stage(a := Closing)) b = Alive" "ids b = Some j"
  then have "stage b = Alive" by (cases "b = a") simp_all
  with filed_okD(3) [OF ok this *(2)] P(1) [OF this] show "refs' j = Some b"
    using refs by (auto simp: refs_remove_if_def split: option.splits)
qed

text \<open>Stages that no entry looks at.\<close>

lemma filed_stage:
  assumes ok: "filed_ok refs ids stage"
    and "stage a = Alive \<and> st = Unfiling \<or> stage a = Closing \<and> st = Gone"
  shows "filed_ok refs ids (stage(a := st))"
proof (rule filed_okI)
  fix j b assume *: "refs j = Some b"
  then show "ids b = Some j" by (rule filed_okD(1) [OF ok])
  show "(stage(a := st)) b = Alive \<or> (stage(a := st)) b = Unfiling"
    using filed_okD(2) [OF ok *] assms(2) by auto
next
  fix b j assume *: "(stage(a := st)) b = Alive" "ids b = Some j"
  then have "stage b = Alive" using assms(2) by (cases "b = a") auto
  from this *(2) show "refs j = Some b" by (rule filed_okD(3) [OF ok])
qed

section \<open>Tables of owners\<close>

lemma fds_okD:
  assumes "fds_ok ob sid L T"
  shows "d \<in> L \<Longrightarrow> ob d \<noteq> None"
    and "T a = Some v \<Longrightarrow> d \<in> owned v \<Longrightarrow> ob d \<noteq> None \<and> d \<notin> L"
    and "T a = Some v \<Longrightarrow> ri_id v = Some i \<Longrightarrow> sid (ri_fd v) = Inr i"
    and "T a = Some v \<Longrightarrow> T b = Some w \<Longrightarrow> d \<in> owned v \<Longrightarrow> d \<in> owned w \<Longrightarrow> a = b"
    and "T a = Some v \<Longrightarrow> ri_death v \<noteq> Some (ri_fd v)"
  using assms unfolding fds_ok_def by blast+

lemma fds_okI:
  assumes "\<And>d. d \<in> L \<Longrightarrow> ob d \<noteq> None"
    and "\<And>a v d. T a = Some v \<Longrightarrow> d \<in> owned v \<Longrightarrow> ob d \<noteq> None \<and> d \<notin> L"
    and "\<And>a v i. T a = Some v \<Longrightarrow> ri_id v = Some i \<Longrightarrow> sid (ri_fd v) = Inr i"
    and "\<And>a b v w d. T a = Some v \<Longrightarrow> T b = Some w \<Longrightarrow> d \<in> owned v \<Longrightarrow> d \<in> owned w \<Longrightarrow> a = b"
    and "\<And>a v. T a = Some v \<Longrightarrow> ri_death v \<noteq> Some (ri_fd v)"
  shows "fds_ok ob sid L T"
  using assms unfolding fds_ok_def by blast

lemma fds_add:
  assumes ok: "fds_ok ob sid L T" and d: "d \<in> L"
    and id: "\<And>i. idk = Some i \<Longrightarrow> sid d = Inr i"
  shows "fds_ok ob sid (L - {d}) (T(a \<mapsto> ref_inner_new rt d idk))"
  by (rule fds_okI)
    (use d id fds_okD [OF ok] in \<open>auto split: if_splits\<close>)

text \<open>Descriptors outside what is kept may close, and what is kept keeps its identity.\<close>

lemma fds_shrink:
  assumes ok: "fds_ok ob sid L T" and "L' \<subseteq> L" and "T' \<subseteq>\<^sub>m T"
    and "\<And>d. d \<in> L' \<Longrightarrow> ob' d = ob d"
    and "\<And>a v d. T' a = Some v \<Longrightarrow> d \<in> owned v \<Longrightarrow> ob' d = ob d"
    and "\<And>a v i. T' a = Some v \<Longrightarrow> sid (ri_fd v) = Inr i \<Longrightarrow> sid' (ri_fd v) = Inr i"
  shows "fds_ok ob' sid' L' T'"
proof -
  have T: "T a = Some v" if "T' a = Some v" for a v
    using assms(3) that by (metis map_le_def domI)
  show ?thesis
  proof (rule fds_okI)
    fix d assume d: "d \<in> L'"
    with assms(2) have "d \<in> L" by blast
    with d assms(4) fds_okD(1) [OF ok] show "ob' d \<noteq> None" by simp
  next
    fix a v d assume v: "T' a = Some v" "d \<in> owned v"
    with fds_okD(2) [OF ok T] assms(5) assms(2) show "ob' d \<noteq> None \<and> d \<notin> L'" by auto
  next
    fix a v i assume "T' a = Some v" "ri_id v = Some i"
    with fds_okD(3) [OF ok T] assms(6) show "sid' (ri_fd v) = Inr i" by blast
  next
    fix a b v w d assume "T' a = Some v" "T' b = Some w" "d \<in> owned v" "d \<in> owned w"
    with fds_okD(4) [OF ok T T] show "a = b" by blast
  next
    fix a v assume "T' a = Some v"
    with fds_okD(5) [OF ok T] show "ri_death v \<noteq> Some (ri_fd v)" by blast
  qed
qed

text \<open>A step that changes the value of one owner but not what it owns.\<close>

lemma fds_watch:
  assumes ok: "fds_ok ob sid L T" and a: "T a = Some v" "ri_death v = None"
    and w: "ob w = None"
    and sid: "\<And>d. ob d \<noteq> None \<Longrightarrow> sid' d = sid d"
  shows "fds_ok (ob(w := ob (ri_fd v))) sid' L (T(a \<mapsto> v\<lparr>ri_death := Some w\<rparr>))"
proof -
  have open_fd: "ob (ri_fd u) \<noteq> None" if "T b = Some u" for b u
    using fds_okD(2) [OF ok that owned_fd] by blast
  have ow: "owned (v\<lparr>ri_death := Some w\<rparr>) = {ri_fd v, w}" "owned v = {ri_fd v}"
    using a by (auto simp: owned_def)
  have new: "w \<notin> owned u" "w \<notin> L" "w \<noteq> ri_fd v" if "T b = Some u" for b u
    using fds_okD(2) [OF ok that, of w] fds_okD(1) [OF ok, of w] w open_fd [OF a(1)] by auto
  show ?thesis
  proof (rule fds_okI)
    fix d assume "d \<in> L"
    with fds_okD(1) [OF ok this] open_fd [OF a(1)] show "(ob(w := ob (ri_fd v))) d \<noteq> None" by simp
  next
    fix b u d assume "(T(a \<mapsto> v\<lparr>ri_death := Some w\<rparr>)) b = Some u" "d \<in> owned u"
    then show "(ob(w := ob (ri_fd v))) d \<noteq> None \<and> d \<notin> L"
      using ow new(2) [OF a(1)] fds_okD(2) [OF ok] open_fd [OF a(1)] a fds_okD(2) [OF ok a(1), of "ri_fd v"]
      by (auto split: if_splits)
  next
    fix b u i assume "(T(a \<mapsto> v\<lparr>ri_death := Some w\<rparr>)) b = Some u" "ri_id u = Some i"
    then show "sid' (ri_fd u) = Inr i"
      using fds_okD(3) [OF ok a(1), of i] fds_okD(3) [OF ok, of b u i] sid open_fd a(1)
      by (cases "b = a") auto
  next
    fix b b' u u' d assume *: "(T(a \<mapsto> v\<lparr>ri_death := Some w\<rparr>)) b = Some u"
      "(T(a \<mapsto> v\<lparr>ri_death := Some w\<rparr>)) b' = Some u'" "d \<in> owned u" "d \<in> owned u'"
    show "b = b'"
    proof (rule ccontr)
      assume n: "b \<noteq> b'"
      show False using * n ow new(1) fds_okD(4) [OF ok a(1)] fds_okD(4) [OF ok _ a(1)]
          fds_okD(4) [OF ok, of b u b' u' d] by (auto split: if_splits)
    qed
  next
    fix b u assume "(T(a \<mapsto> v\<lparr>ri_death := Some w\<rparr>)) b = Some u"
    with new(3) [OF a(1)] fds_okD(5) [OF ok] show "ri_death u \<noteq> Some (ri_fd u)"
      by (auto split: if_splits)
  qed
qed

section \<open>Every step keeps the invariant\<close>

lemma owners_update:
  "owners (s\<lparr>cs_caps := (cs_caps s)\<lparr>cp_heap := (cp_heap (cs_caps s))(a \<mapsto> c)\<rparr>,
     cs_stage := (cs_stage s)(a := Alive)\<rparr>) = (owners s)(a \<mapsto> inner c)"
  by (rule ext) (simp add: owners_def)

lemma cap_ids_new: "cap_ids (arc_new a v h) = (cap_ids h)(a := ri_id v)"
  by (rule ext) (simp add: cap_ids_def arc_new_def)

lemma counts_new: "counts_ok h stage \<Longrightarrow> counts_ok (arc_new a v h) (stage(a := Alive))"
  by (simp add: counts_ok_def strong_count_def arc_new_def)

lemma cap_invD:
  assumes "cap_inv N obj s"
  shows "filed_ok (cp_refs (cs_caps s)) (cap_ids (cp_heap (cs_caps s))) (cs_stage s)"
    and "counts_ok (cp_heap (cs_caps s)) (cs_stage s)"
    and "fds_ok (obj (cs_kern s)) (\<lambda>d. socket_id N d (cs_kern s)) (cs_loose s) (owners s)"
  using assms by (simp_all add: cap_inv_def)

lemma cap_inv_alive:
  "cap_inv N obj s \<Longrightarrow> cs_stage s a = Alive \<longleftrightarrow> strong_count (cp_heap (cs_caps s)) a \<noteq> 0"
  using cap_invD(2) unfolding counts_ok_def by blast

lemma cap_inv_intern_new:
  assumes inv: "cap_inv N obj s" and d: "d \<in> cs_loose s" and a: "cp_heap (cs_caps s) a = None"
    and refs: "case idk of None \<Rightarrow> refs = cp_refs (cs_caps s)
      | Some i \<Rightarrow> socket_id N d (cs_kern s) = Inr i \<and> refs = (cp_refs (cs_caps s))(i \<mapsto> a) \<and>
          (\<forall>b. cp_refs (cs_caps s) i = Some b \<longrightarrow> cs_stage s b \<noteq> Alive)"
  shows "cap_inv N obj (s\<lparr>cs_caps := \<lparr>cp_heap = arc_new a (ref_inner_new rt d idk) (cp_heap (cs_caps s)),
      cp_refs = refs\<rparr>, cs_loose := cs_loose s - {d}, cs_stage := (cs_stage s)(a := Alive)\<rparr>)"
    (is "cap_inv N obj ?s")
proof -
  note F = cap_invD [OF inv]
  have gone: "cs_stage s a = Gone" using F(2) a by (simp add: counts_ok_def)
  have "filed_ok refs ((cap_ids (cp_heap (cs_caps s)))(a := idk)) ((cs_stage s)(a := Alive))"
    using refs filed_unfiled [OF F(1) gone] filed_new [OF F(1) gone]
    by (cases idk) auto
  moreover have "owners ?s = (owners s)(a \<mapsto> ref_inner_new rt d idk)"
    by (rule ext) (simp add: owners_def arc_new_def)
  moreover have "fds_ok (obj (cs_kern s)) (\<lambda>d. socket_id N d (cs_kern s)) (cs_loose s - {d})
      ((owners s)(a \<mapsto> ref_inner_new rt d idk))"
    using refs by (intro fds_add [OF F(3) d]) auto
  ultimately show ?thesis
    using counts_new [OF F(2)] by (simp add: cap_inv_def cap_ids_new)
qed

lemma not_alive_zero:
  "cap_inv N obj s \<Longrightarrow> cs_stage s a \<noteq> Alive \<Longrightarrow> strong_count (cp_heap (cs_caps s)) a = 0"
  using cap_inv_alive by blast

lemma cap_ids_clone [simp]: "cap_ids (ref_clone a h) = cap_ids h"
  by (rule ext) (simp add: cap_ids_def ref_clone_def split: option.splits)

lemma cap_ids_release [simp]: "cap_ids (arc_release a h) = cap_ids h"
  by (rule ext) (simp add: cap_ids_def arc_release_def split: option.splits)

lemma counts_clone: "counts_ok h stage \<Longrightarrow> stage a = Alive \<Longrightarrow> counts_ok (ref_clone a h) stage"
  unfolding counts_ok_def
  by (auto simp: strong_count_clone) (auto simp: ref_clone_def split: option.splits if_splits)

lemma counts_release:
  assumes "counts_ok h stage" and "stage a = Alive"
  shows "counts_ok (arc_release a h)
    (stage(a := if strong_count (arc_release a h) a = 0 then Unfiling else Alive))"
proof -
  obtain c where c: "h a = Some c" using assms by (fastforce simp: counts_ok_def)
  with assms(1) show ?thesis
    by (auto simp: counts_ok_def arc_release_def strong_count_def split: option.splits)
qed

lemma owners_heap:
  assumes "map_option inner \<circ> h = map_option inner \<circ> cp_heap (cs_caps s)"
    and "\<And>a. (stage a = Gone) = (cs_stage s a = Gone)"
  shows "owners (s\<lparr>cs_caps := (cs_caps s)\<lparr>cp_heap := h\<rparr>, cs_stage := stage\<rparr>) = owners s"
proof (rule ext)
  fix a
  have "map_option inner (h a) = map_option inner (cp_heap (cs_caps s) a)"
    using fun_cong [OF assms(1), of a] by simp
  then show "owners (s\<lparr>cs_caps := (cs_caps s)\<lparr>cp_heap := h\<rparr>, cs_stage := stage\<rparr>) a = owners s a"
    using assms(2) by (simp add: owners_def)
qed

lemma inner_clone: "map_option inner \<circ> ref_clone a h = map_option inner \<circ> h"
  by (rule ext) (simp add: ref_clone_def split: option.splits)

lemma inner_release: "map_option inner \<circ> arc_release a h = map_option inner \<circ> h"
  by (rule ext) (simp add: arc_release_def split: option.splits)

lemma loose_not_owned:
  "cap_inv N obj s \<Longrightarrow> d \<in> cs_loose s \<Longrightarrow> owners s a = Some v \<Longrightarrow> d \<notin> owned v"
  using fds_okD(2) [OF cap_invD(3)] by blast

text \<open>A loose descriptor is closed.\<close>

lemma fds_discard:
  assumes law: "identity_law N obj" and inv: "cap_inv N obj s" and d: "d \<in> cs_loose s"
  shows "fds_ok (obj (net_close N d (cs_kern s))) (\<lambda>d'. socket_id N d' (net_close N d (cs_kern s)))
    (cs_loose s - {d}) (owners s)"
proof (rule fds_shrink [OF cap_invD(3) [OF inv]])
  show "cs_loose s - {d} \<subseteq> cs_loose s" "owners s \<subseteq>\<^sub>m owners s" by auto
  show "obj (net_close N d (cs_kern s)) d' = obj (cs_kern s) d'" if "d' \<in> cs_loose s - {d}" for d'
    using id_close [OF law] that by simp
  fix a v assume v: "owners s a = Some v"
  then have no: "d \<notin> owned v" using loose_not_owned [OF inv d] by blast
  show "obj (net_close N d (cs_kern s)) d' = obj (cs_kern s) d'" if "d' \<in> owned v" for d'
  proof -
    have "d' \<noteq> d" using no that by auto
    then show ?thesis by (rule id_close [OF law])
  qed
  show "socket_id N (ri_fd v) (net_close N d (cs_kern s)) = Inr i"
    if "socket_id N (ri_fd v) (cs_kern s) = Inr i" for i
  proof -
    have "ri_fd v \<noteq> d" using no by (auto simp: owned_def)
    then show ?thesis using id_close(2) [OF law] that by simp
  qed
qed

lemma cap_inv_intern_hit:
  assumes law: "identity_law N obj" and inv: "cap_inv N obj s" and d: "d \<in> cs_loose s"
    and w: "cs_stage s w = Alive"
  shows "cap_inv N obj (s\<lparr>cs_caps := (cs_caps s)\<lparr>cp_heap := ref_clone w (cp_heap (cs_caps s))\<rparr>,
      cs_kern := net_close N d (cs_kern s), cs_loose := cs_loose s - {d},
      cs_stage := (cs_stage s)(w := Alive)\<rparr>)" (is "cap_inv N obj ?s")
proof -
  note F = cap_invD [OF inv]
  have st: "(cs_stage s)(w := Alive) = cs_stage s" using w by auto
  have "owners ?s = owners (s\<lparr>cs_caps := (cs_caps s)\<lparr>cp_heap := ref_clone w (cp_heap (cs_caps s))\<rparr>,
      cs_stage := cs_stage s\<rparr>)" by (rule ext) (simp add: owners_def st)
  also have "\<dots> = owners s" by (intro owners_heap inner_clone) simp
  finally show ?thesis
    using F(1) counts_clone [OF F(2) w] fds_discard [OF law inv d] by (simp add: cap_inv_def st)
qed

lemma cap_inv_from_fd:
  assumes law: "identity_law N obj" and inv: "cap_inv N obj s" and d: "d \<in> cs_loose s"
    and a: "cp_heap (cs_caps s) a = None"
    and run: "ref_from_fd N rt a d (cs_caps s, cs_kern s) = (r, (c, k))"
  shows "cap_inv N obj (s\<lparr>cs_caps := c, cs_kern := k, cs_loose := cs_loose s - {d},
      cs_stage := (cs_stage s)(r := Alive)\<rparr>)"
proof -
  let ?h = "cp_heap (cs_caps s)" and ?refs = "cp_refs (cs_caps s)"
  have caps: "c = \<lparr>cp_heap = cp_heap c, cp_refs = cp_refs c\<rparr>" by simp
  show ?thesis
  proof (cases "socket_id N d (cs_kern s)")
    case (Inl e)
    then have r: "r = a" "c = \<lparr>cp_heap = arc_new a (ref_inner_new rt d None) ?h, cp_refs = ?refs\<rparr>"
        "k = cs_kern s"
      using run by (auto simp: ref_from_fd_def)
    show ?thesis unfolding r using cap_inv_intern_new [OF inv d a, where idk = None and refs = ?refs and rt = rt] by simp
  next
    case (Inr i)
    show ?thesis
    proof (cases "\<exists>w. ?refs i = Some w \<and> strong_count ?h w \<noteq> 0")
      case True
      then obtain w where w: "?refs i = Some w" "strong_count ?h w \<noteq> 0" by blast
      then have r: "r = w" "c = (cs_caps s)\<lparr>cp_heap := ref_clone w ?h\<rparr>" "k = net_close N d (cs_kern s)"
        using run Inr by (auto simp: ref_from_fd_def weak_upgrade_def)
      show ?thesis unfolding r
        using cap_inv_intern_hit [OF law inv d] cap_inv_alive [OF inv] w by blast
    next
      case False
      then have r: "r = a" "c = \<lparr>cp_heap = arc_new a (ref_inner_new rt d (Some i)) ?h,
          cp_refs = ?refs(i \<mapsto> a)\<rparr>" "k = cs_kern s"
        using run Inr by (auto simp: ref_from_fd_def weak_upgrade_def split: option.splits if_splits)
      have "cs_stage s b \<noteq> Alive" if "?refs i = Some b" for b
        using False cap_inv_alive [OF inv] that by blast
      then show ?thesis unfolding r
        using cap_inv_intern_new [OF inv d a, where idk = "Some i" and refs = "?refs(i \<mapsto> a)" and rt = rt] Inr by simp
    qed
  qed
qed

lemma cap_inv_release:
  assumes inv: "cap_inv N obj s" and a: "cs_stage s a = Alive"
    and h: "h = arc_release a (cp_heap (cs_caps s))"
  shows "cap_inv N obj (s\<lparr>cs_caps := (cs_caps s)\<lparr>cp_heap := h\<rparr>,
      cs_stage := (cs_stage s)(a := if strong_count h a = 0 then Unfiling else Alive)\<rparr>)"
    (is "cap_inv N obj ?s")
proof -
  note F = cap_invD [OF inv]
  have "owners ?s = owners s" unfolding h by (intro owners_heap inner_release) (simp add: a)
  moreover have "filed_ok (cp_refs (cs_caps s)) (cap_ids h)
      ((cs_stage s)(a := if strong_count h a = 0 then Unfiling else Alive))"
  proof (cases "strong_count h a = 0")
    case True
    then show ?thesis using filed_stage [OF F(1)] a h by simp
  next
    case False
    moreover have "(cs_stage s)(a := Alive) = cs_stage s" using a by auto
    ultimately show ?thesis using F(1) h by simp
  qed
  ultimately show ?thesis
    using counts_release [OF F(2) a] F(3) h by (simp add: cap_inv_def)
qed

lemma cap_inv_unfile:
  assumes inv: "cap_inv N obj s" and a: "cs_stage s a = Unfiling"
  shows "cap_inv N obj (s\<lparr>cs_caps := ref_inner_drop a (cs_caps s),
      cs_stage := (cs_stage s)(a := Closing)\<rparr>)" (is "cap_inv N obj ?s")
proof -
  note F = cap_invD [OF inv]
  let ?h = "cp_heap (cs_caps s)"
  obtain c where c: "?h a = Some c" using F(2) a by (fastforce simp: counts_ok_def)
  have heap: "cp_heap (ref_inner_drop a (cs_caps s)) = ?h"
    by (simp add: ref_inner_drop_def split: option.splits)
  have refs: "cp_refs (ref_inner_drop a (cs_caps s)) = (case cap_ids ?h a of None \<Rightarrow> cp_refs (cs_caps s)
      | Some i \<Rightarrow> refs_remove_if i (\<lambda>w. strong_count ?h w = 0) (cp_refs (cs_caps s)))"
    using c by (simp add: ref_inner_drop_def cap_ids_def split: option.splits)
  have "owners ?s = owners s"
    by (rule ext) (simp add: owners_def heap a)
  moreover have "filed_ok (cp_refs (ref_inner_drop a (cs_caps s))) (cap_ids ?h) ((cs_stage s)(a := Closing))"
    using filed_drop [OF F(1) a _ _ refs] cap_inv_alive [OF inv] not_alive_zero [OF inv, of a] a
    by simp
  moreover have "counts_ok ?h ((cs_stage s)(a := Closing))"
    using F(2) a c not_alive_zero [OF inv, of a] by (auto simp: counts_ok_def)
  ultimately show ?thesis using F(3) by (simp add: cap_inv_def heap)
qed

lemma cap_inv_close:
  assumes law: "identity_law N obj" and inv: "cap_inv N obj s" and a: "cs_stage s a = Closing"
    and c: "cp_heap (cs_caps s) a = Some c"
  shows "cap_inv N obj (s\<lparr>cs_kern := ref_fields_drop N (inner c) (cs_kern s),
      cs_stage := (cs_stage s)(a := Gone)\<rparr>)" (is "cap_inv N obj ?s")
proof -
  note F = cap_invD [OF inv]
  let ?k = "ref_fields_drop N (inner c) (cs_kern s)"
  have own: "owners s a = Some (inner c)" using a c by (simp add: owners_def)
  have T: "owners ?s = (owners s)(a := None)" by (rule ext) (simp add: owners_def)
  have keep: "obj ?k d = obj (cs_kern s) d \<and> socket_id N d ?k = socket_id N d (cs_kern s)"
    if "d \<notin> owned (inner c)" for d
    using that id_close [OF law] by (auto simp: ref_fields_drop_def owned_def split: option.splits)
  have "fds_ok (obj ?k) (\<lambda>d. socket_id N d ?k) (cs_loose s) (owners ?s)"
  proof (rule fds_shrink [OF F(3)])
    show "cs_loose s \<subseteq> cs_loose s" "owners ?s \<subseteq>\<^sub>m owners s" unfolding T by (auto simp: map_le_def)
    show "obj ?k d = obj (cs_kern s) d" if "d \<in> cs_loose s" for d
      using keep loose_not_owned [OF inv that own] by blast
    fix b v assume "owners ?s b = Some v"
    then have b: "b \<noteq> a" "owners s b = Some v" unfolding T by (auto split: if_splits)
    have no: "d \<notin> owned (inner c)" if "d \<in> owned v" for d
      using fds_okD(4) [OF F(3) b(2) own that] b(1) by blast
    show "obj ?k d = obj (cs_kern s) d" if "d \<in> owned v" for d using keep no that by blast
    show "socket_id N (ri_fd v) ?k = Inr i" if "socket_id N (ri_fd v) (cs_kern s) = Inr i" for i
      using keep no [OF owned_fd] that by simp
  qed
  moreover have "counts_ok (cp_heap (cs_caps s)) ((cs_stage s)(a := Gone))"
    using F(2) a not_alive_zero [OF inv, of a] by (auto simp: counts_ok_def)
  moreover have "filed_ok (cp_refs (cs_caps s)) (cap_ids (cp_heap (cs_caps s))) ((cs_stage s)(a := Gone))"
    using filed_stage [OF F(1)] a by simp
  ultimately show ?thesis by (simp add: cap_inv_def)
qed

lemma cap_inv_free:
  assumes inv: "cap_inv N obj s" and a: "cs_stage s a = Gone" "a \<notin> ran (cp_refs (cs_caps s))"
  shows "cap_inv N obj (s\<lparr>cs_caps := (cs_caps s)\<lparr>cp_heap := (cp_heap (cs_caps s))(a := None)\<rparr>\<rparr>)"
    (is "cap_inv N obj ?s")
proof -
  note F = cap_invD [OF inv]
  have "cap_ids ((cp_heap (cs_caps s))(a := None)) = (cap_ids (cp_heap (cs_caps s)))(a := None)"
    by (rule ext) (simp add: cap_ids_def)
  moreover have "filed_ok (cp_refs (cs_caps s)) ((cap_ids (cp_heap (cs_caps s)))(a := None)) (cs_stage s)"
  proof (rule filed_okI)
    fix i b assume b: "cp_refs (cs_caps s) i = Some b"
    then have "b \<noteq> a" using a(2) by (auto simp: ran_def)
    with filed_okD(1,2) [OF F(1) b] show "((cap_ids (cp_heap (cs_caps s)))(a := None)) b = Some i"
      "cs_stage s b = Alive \<or> cs_stage s b = Unfiling" by simp_all
  next
    fix b i assume "cs_stage s b = Alive" "((cap_ids (cp_heap (cs_caps s)))(a := None)) b = Some i"
    then show "cp_refs (cs_caps s) i = Some b"
      using filed_okD(3) [OF F(1), of b i] by (simp split: if_splits)
  qed
  moreover have "owners ?s = owners s" by (rule ext) (simp add: owners_def a)
  moreover have "counts_ok ((cp_heap (cs_caps s))(a := None)) (cs_stage s)"
    using F(2) a not_alive_zero [OF inv, of a] by (auto simp: counts_ok_def strong_count_def)
  ultimately show ?thesis using F(3) by (simp add: cap_inv_def)
qed

lemma cap_inv_watch:
  assumes law: "identity_law N obj" and inv: "cap_inv N obj s" and a: "cs_stage s a = Alive"
    and c: "cp_heap (cs_caps s) a = Some c"
    and run: "ref_death_watch N (inner c) (cs_kern s) = (r, v, k)"
  shows "cap_inv N obj (s\<lparr>cs_caps := (cs_caps s)
      \<lparr>cp_heap := (cp_heap (cs_caps s))(a \<mapsto> c\<lparr>inner := v\<rparr>)\<rparr>, cs_kern := k\<rparr>)" (is "cap_inv N obj ?s")
proof -
  note F = cap_invD [OF inv]
  let ?h = "cp_heap (cs_caps s)" and ?k0 = "cs_kern s"
  have own: "owners s a = Some (inner c)" using a c by (simp add: owners_def)
  have T: "owners ?s = (owners s)(a \<mapsto> v)" using a by (intro ext) (simp add: owners_def)
  have v: "ri_id v = ri_id (inner c)"
    using run by (auto simp: ref_death_watch_def split: option.splits prod.splits sum.splits)
  then have ids: "cap_ids (?h(a \<mapsto> c\<lparr>inner := v\<rparr>)) = cap_ids ?h"
    using c by (intro ext) (simp add: cap_ids_def)
  have cnt: "counts_ok (?h(a \<mapsto> c\<lparr>inner := v\<rparr>)) (cs_stage s)"
    using F(2) c by (auto simp: counts_ok_def strong_count_def split: if_splits)
  have "fds_ok (obj k) (\<lambda>d. socket_id N d k) (cs_loose s) ((owners s)(a \<mapsto> v))"
  proof (cases "\<exists>w. ri_death (inner c) = None \<and> r = Inr w")
    case False
    have v: "v = inner c"
      using run False by (auto simp: ref_death_watch_def split: option.splits prod.splits sum.splits)
    then have same: "(owners s)(a \<mapsto> v) = owners s" using own by auto
    show ?thesis
    proof (cases "ri_death (inner c)")
      case (Some w)
      with run have "k = ?k0" by (simp add: ref_death_watch_def)
      with F(3) same show ?thesis by simp
    next
      case None
      with False run obtain e where e: "io_bind (net_dup N (ri_fd (inner c))) (reactive_new N) ?k0 = (Inl e, k)"
        by (auto simp: ref_death_watch_def split: prod.splits sum.splits)
      have keep: "obj k d = obj ?k0 d \<and> socket_id N d k = socket_id N d ?k0" if "obj ?k0 d \<noteq> None" for d
      proof (cases "net_dup N (ri_fd (inner c)) ?k0")
        case (Pair x k1)
        show ?thesis
        proof (cases x)
          case (Inl e')
          with e Pair id_dup_err [OF law] show ?thesis by (auto simp: io_defs)
        next
          case (Inr w)
          note dup = id_dup [OF law Pair [unfolded Inr]]
          have dw: "d \<noteq> w" using dup(1) that by auto
          obtain k2 where k2: "k = net_close N w k2" "k2 = snd (net_async_fd N w k1)"
            using e Pair Inr by (auto simp: io_defs reactive_new_def split: prod.splits sum.splits)
          show ?thesis unfolding k2 using dw that dup id_close [OF law dw] id_async [OF law] by simp
        qed
      qed
      have "fds_ok (obj k) (\<lambda>d. socket_id N d k) (cs_loose s) (owners s)"
      proof (rule fds_shrink [OF F(3)])
        show "cs_loose s \<subseteq> cs_loose s" "owners s \<subseteq>\<^sub>m owners s" by auto
        show "obj k d = obj ?k0 d" if "d \<in> cs_loose s" for d
          using keep fds_okD(1) [OF F(3) that] by blast
        fix b u assume b: "owners s b = Some u"
        show "obj k d = obj ?k0 d" if "d \<in> owned u" for d
          using keep fds_okD(2) [OF F(3) b that] by blast
        show "socket_id N (ri_fd u) k = Inr i" if "socket_id N (ri_fd u) ?k0 = Inr i" for i
          using keep fds_okD(2) [OF F(3) b owned_fd] that by simp
      qed
      with same show ?thesis by simp
    qed
  next
    case True
    then obtain w where w: "ri_death (inner c) = None" "r = Inr w" by blast
    with run have v: "v = (inner c)\<lparr>ri_death := Some w\<rparr>"
      and ok: "io_bind (net_dup N (ri_fd (inner c))) (reactive_new N) ?k0 = (Inr w, k)"
      by (auto simp: ref_death_watch_def split: prod.splits sum.splits)
    from ok obtain k1 where k1: "net_dup N (ri_fd (inner c)) ?k0 = (Inr w, k1)"
      "k = snd (net_async_fd N w k1)"
      by (auto simp: io_defs reactive_new_def split: prod.splits sum.splits)
    note dup = id_dup [OF law k1(1)]
    have ob: "obj k = (obj ?k0)(w := obj ?k0 (ri_fd (inner c)))"
      unfolding k1(2) id_async(1) [OF law] by (rule dup(2))
    show ?thesis unfolding ob v
      using dup k1(2) id_async(2) [OF law] by (intro fds_watch [OF F(3) own w(1)]) auto
  qed
  with F(1) cnt ids T show ?thesis by (simp add: cap_inv_def)
qed

lemma cap_inv_env:
  assumes inv: "cap_inv N obj s"
    and keep: "\<forall>d \<in> held s. obj k d = obj (cs_kern s) d \<and>
      (\<forall>i. socket_id N d (cs_kern s) = Inr i \<longrightarrow> socket_id N d k = Inr i)"
    and D: "\<forall>d \<in> D. obj k d \<noteq> None" "D \<inter> held s = {}"
  shows "cap_inv N obj (s\<lparr>cs_kern := k, cs_loose := cs_loose s \<union> D\<rparr>)" (is "cap_inv N obj ?s")
proof -
  note F = cap_invD [OF inv]
  have own: "d \<in> held s" if "owners s b = Some u" "d \<in> owned u" for b u d
    using that by (auto simp: held_def ran_def)
  have loose: "d \<in> held s" if "d \<in> cs_loose s" for d using that by (simp add: held_def)
  have "fds_ok (obj k) (\<lambda>d. socket_id N d k) (cs_loose s \<union> D) (owners s)"
  proof (rule fds_okI)
    show "obj k d \<noteq> None" if "d \<in> cs_loose s \<union> D" for d
      using that D(1) keep loose fds_okD(1) [OF F(3)] by auto
    fix b u assume b: "owners s b = Some u"
    show "obj k d \<noteq> None \<and> d \<notin> cs_loose s \<union> D" if "d \<in> owned u" for d
      using fds_okD(2) [OF F(3) b that] own [OF b that] keep D(2) by auto
    show "socket_id N (ri_fd u) k = Inr i" if "ri_id u = Some i" for i
      using fds_okD(3) [OF F(3) b that] own [OF b owned_fd] keep by blast
    show "ri_death u \<noteq> Some (ri_fd u)" by (rule fds_okD(5) [OF F(3) b])
    show "b = b'" if "owners s b' = Some u'" "d \<in> owned u" "d \<in> owned u'" for b' u' d
      by (rule fds_okD(4) [OF F(3) b that])
  qed
  moreover have "owners ?s = owners s" by (rule ext) (simp add: owners_def)
  ultimately show ?thesis using F(1,2) by (simp add: cap_inv_def)
qed

lemma cap_inv_outbox:
  assumes inv: "cap_inv N obj s" and a: "cs_stage s a = Alive" and c: "cp_heap (cs_caps s) a = Some c"
  shows "cap_inv N obj (s\<lparr>cs_caps := (cs_caps s)\<lparr>cp_heap :=
      (cp_heap (cs_caps s))(a \<mapsto> c\<lparr>inner := (inner c)\<lparr>ri_outbox := b\<rparr>\<rparr>)\<rparr>\<rparr>)" (is "cap_inv N obj ?s")
proof -
  note F = cap_invD [OF inv]
  let ?h = "(cp_heap (cs_caps s))(a \<mapsto> c\<lparr>inner := (inner c)\<lparr>ri_outbox := b\<rparr>\<rparr>)"
  have "cap_ids ?h = cap_ids (cp_heap (cs_caps s))"
    using c by (intro ext) (simp add: cap_ids_def)
  moreover have "counts_ok ?h (cs_stage s)"
    using F(2) c by (auto simp: counts_ok_def strong_count_def split: if_splits)
  moreover have "fds_ok (obj (cs_kern s)) (\<lambda>d. socket_id N d (cs_kern s)) (cs_loose s) (owners ?s)"
  proof -
    have old: "\<exists>v. owners s e = Some v \<and> owned u = owned v \<and> ri_id u = ri_id v \<and> ri_fd u = ri_fd v \<and>
        ri_death u = ri_death v" if "owners ?s e = Some u" for e u
      using that a c by (cases "e = a") (auto simp: owners_def owned_def)
    show ?thesis
    proof (rule fds_okI)
      show "obj (cs_kern s) d \<noteq> None" if "d \<in> cs_loose s" for d by (rule fds_okD(1) [OF F(3) that])
      fix e u assume "owners ?s e = Some u"
      from old [OF this] obtain v where v: "owners s e = Some v" "owned u = owned v" "ri_id u = ri_id v"
        "ri_fd u = ri_fd v" "ri_death u = ri_death v" by blast
      show "obj (cs_kern s) d \<noteq> None \<and> d \<notin> cs_loose s" if "d \<in> owned u" for d
        using fds_okD(2) [OF F(3) v(1)] v that by simp
      show "socket_id N (ri_fd u) (cs_kern s) = Inr i" if "ri_id u = Some i" for i
        using fds_okD(3) [OF F(3) v(1)] v that by simp
      show "ri_death u \<noteq> Some (ri_fd u)" using fds_okD(5) [OF F(3) v(1)] v by simp
      show "e = f" if "owners ?s f = Some w" "d \<in> owned u" "d \<in> owned w" for f w d
        using old [OF that(1)] v(1,2) that(2,3) fds_okD(4) [OF F(3)] by blast
    qed
  qed
  ultimately show ?thesis using F(1) by (simp add: cap_inv_def)
qed

lemma cap_inv_step:
  assumes law: "identity_law N obj" and inv: "cap_inv N obj s" and stp: "cap_step N obj s s'"
  shows "cap_inv N obj s'"
  using stp
proof (cases rule: cap_step.cases)
  case (step_clone a)
  note F = cap_invD [OF inv]
  have "owners s' = owners s"
    using owners_heap [OF inner_clone, of "cs_stage s" s a] unfolding step_clone by simp
  with F counts_clone [OF F(2) step_clone(2)] show ?thesis unfolding step_clone(1)
    by (simp add: cap_inv_def)
next
  case (step_discard d)
  note F = cap_invD [OF inv]
  have "owners s' = owners s" unfolding step_discard by (rule ext) (simp add: owners_def)
  with F fds_discard [OF law inv step_discard(2)] show ?thesis unfolding step_discard(1)
    by (simp add: cap_inv_def)
qed (use cap_inv_from_fd [OF law inv] cap_inv_release [OF inv] cap_inv_unfile [OF inv] cap_inv_close [OF law inv]
    cap_inv_free [OF inv] cap_inv_watch [OF law inv] cap_inv_outbox [OF inv] cap_inv_env [OF inv] in simp_all)

interpretation registry: state_machine "cap_init k" "cap_step N obj"
  "\<lambda>s. identity_law N obj \<longrightarrow> cap_inv N obj s"
  for k :: 'k and N :: "'k net" and obj :: "'k \<Rightarrow> fd \<Rightarrow> nat option"
  by unfold_locales (auto intro: cap_inv_init cap_inv_step)

end
