(* ===== verification/Ipc_Registry_Props.thy ===== *)
theory Ipc_Registry_Props
  imports Ipc_Registry_Machine
begin

text \<open>
  What the registry promises in every reachable state: \<^verbatim>\<open>is_same\<close> decides whether two
  references send to one socket, an arriving descriptor is recognised exactly when a live
  reference to its socket is filed, and no entry outlives its socket.
\<close>

section \<open>A descriptor table that satisfies the law\<close>

text \<open>The open descriptors with the inode each names; everything else succeeds and does nothing.\<close>

type_synonym fd_table = "(fd \<times> u64) list"

definition table_obj :: "fd_table \<Rightarrow> fd \<Rightarrow> nat option" where
  "table_obj k d = map_option unat (map_of k d)"

definition table_fresh :: "fd_table \<Rightarrow> fd" where
  "table_fresh k = Suc (foldr max (map fst k) 0)"

definition table_net :: "fd_table net" where
  "table_net =
     \<lparr>net_cmsg_space = sample_cmsg_space,
      net_anc_push = (\<lambda>sp ds. sample_cmsg_space (length ds) 0 \<le> sp),
      net_addr = Inr,
      net_socketpair = (\<lambda>fl k. (Inr (table_fresh k, Suc (table_fresh k)),
         (table_fresh k, of_nat (2 * table_fresh k)) # (Suc (table_fresh k), of_nat (2 * table_fresh k + 1)) # k)),
      net_socket = (\<lambda>fl k. (Inr (table_fresh k), (table_fresh k, of_nat (2 * table_fresh k)) # k)),
      net_bind = (\<lambda>d p. io_ret ()),
      net_listen = (\<lambda>d n. io_ret ()),
      net_connect = (\<lambda>d p. io_ret ()),
      net_accept = (\<lambda>d fl k. (Inr (table_fresh k), (table_fresh k, of_nat (2 * table_fresh k)) # k)),
      net_sendmsg = (\<lambda>d iov ctl fl. io_ret (length iov)),
      net_recvmsg = (\<lambda>d n c fl. io_err (OsError WouldBlock 11)),
      net_passcred = (\<lambda>d b. io_ret ()),
      net_poll = (\<lambda>d fl k. Inr {}),
      net_dup = (\<lambda>d k. case map_of k d of None \<Rightarrow> (Inl (OsError (OtherKind 9) 9), k)
         | Some i \<Rightarrow> (Inr (table_fresh k), (table_fresh k, i) # k)),
      net_close = (\<lambda>d k. filter (\<lambda>x. fst x \<noteq> d) k),
      net_fstat = (\<lambda>d k. case map_of k d of None \<Rightarrow> Inl (OsError (OtherKind 9) 9)
         | Some i \<Rightarrow> Inr \<lparr>st_dev = 9, st_ino = i\<rparr>),
      net_async_fd = (\<lambda>d. io_ret ()),
      net_getrlimit = (\<lambda>k. \<lparr>rl_current = None, rl_maximum = None\<rparr>),
      net_setrlimit = (\<lambda>r. io_ret ())\<rparr>"

lemma table_fresh: "map_of k (table_fresh k) = None"
proof -
  have "d \<le> foldr max ds 0" if "d \<in> set ds" for d :: nat and ds
    using that by (induction ds) auto
  then have "table_fresh k \<notin> fst ` set k" unfolding table_fresh_def
    by (metis Suc_n_not_le_n image_set list.set_map)
  then show ?thesis by (simp add: map_of_eq_None_iff)
qed

lemma table_above: "table_fresh k \<le> d \<Longrightarrow> map_of k d = None"
proof -
  assume d: "table_fresh k \<le> d"
  have "e \<le> foldr max ds 0" if "e \<in> set ds" for e :: nat and ds using that by (induction ds) auto
  with d have "d \<notin> fst ` set k" unfolding table_fresh_def
    by (metis Suc_n_not_le_n image_set le_trans list.set_map)
  then show ?thesis by (simp add: map_of_eq_None_iff)
qed

lemma table_socket_id: "socket_id table_net d k =
  (case map_of k d of None \<Rightarrow> Inl (OsError (OtherKind 9) 9) | Some i \<Rightarrow> Inr (9, i))"
  by (simp add: socket_id_def table_net_def split: option.splits)

lemma map_of_without: "map_of (filter (\<lambda>x. fst x \<noteq> d) k) d' = (if d' = d then None else map_of k d')"
  by (induction k) auto

lemma table_law: "identity_law table_net table_obj"
  unfolding identity_law_def table_socket_id table_obj_def
  by (auto simp: table_net_def map_of_without table_fresh io_defs fun_eq_iff split: option.splits)
    (simp add: word_unat_eq_iff)

text \<open>A schedule of the references of a process over this table.\<close>

datatype cap_turn =
  TurnOpen fd u64 | TurnIntern fd addr | TurnRelease addr | TurnUnfile addr | TurnClose addr

fun cap_act :: "cap_turn \<Rightarrow> ('o, fd_table) cap_sys \<Rightarrow> ('o, fd_table) cap_sys option" where
  "cap_act (TurnOpen d i) s =
     (if map_of (cs_kern s) d = None \<and> d \<notin> cs_loose s
      then Some (s\<lparr>cs_kern := (d, i) # cs_kern s, cs_loose := cs_loose s \<union> {d}\<rparr>) else None)"
| "cap_act (TurnIntern d a) s =
     (if d \<in> cs_loose s \<and> cp_heap (cs_caps s) a = None
      then (case ref_from_fd table_net None a d (cs_caps s, cs_kern s) of (r, (c, k)) \<Rightarrow>
        Some (s\<lparr>cs_caps := c, cs_kern := k, cs_loose := cs_loose s - {d},
                cs_stage := (cs_stage s)(r := Alive)\<rparr>)) else None)"
| "cap_act (TurnRelease a) s =
     (if cs_stage s a = Alive
      then (let h = arc_release a (cp_heap (cs_caps s)) in
        Some (s\<lparr>cs_caps := (cs_caps s)\<lparr>cp_heap := h\<rparr>,
          cs_stage := (cs_stage s)(a := if strong_count h a = 0 then Unfiling else Alive)\<rparr>)) else None)"
| "cap_act (TurnUnfile a) s =
     (if cs_stage s a = Unfiling
      then Some (s\<lparr>cs_caps := ref_inner_drop a (cs_caps s), cs_stage := (cs_stage s)(a := Closing)\<rparr>)
      else None)"
| "cap_act (TurnClose a) s =
     (case cp_heap (cs_caps s) a of None \<Rightarrow> None
      | Some c \<Rightarrow> if cs_stage s a = Closing
          then Some (s\<lparr>cs_kern := ref_fields_drop table_net (inner c) (cs_kern s),
            cs_stage := (cs_stage s)(a := Gone)\<rparr>) else None)"

lemma cap_act_step:
  assumes inv: "cap_inv table_net table_obj s" and act: "cap_act t s = Some s'"
  shows "cap_step table_net table_obj s s'"
proof (cases t)
  case (TurnOpen d i)
  have "d \<notin> held s" if "map_of (cs_kern s) d = None"
  proof
    assume "d \<in> held s"
    then have "table_obj (cs_kern s) d \<noteq> None"
      using fds_okD(1,2) [OF cap_invD(3) [OF inv]] by (auto simp: held_def ran_def)
    with that show False by (simp add: table_obj_def)
  qed
  then have new: "\<forall>x \<in> held s. x \<noteq> d" if "map_of (cs_kern s) d = None" using that by blast
  with act TurnOpen have "map_of (cs_kern s) d = None" and s': "s' =
      s\<lparr>cs_kern := (d, i) # cs_kern s, cs_loose := cs_loose s \<union> {d}\<rparr>"
    by (auto split: if_splits)
  with new show ?thesis unfolding s'
    by (intro step_env) (auto simp: table_obj_def table_socket_id)
next
  case (TurnRelease a)
  let ?h = "arc_release a (cp_heap (cs_caps s))"
  have "cs_stage s a = Alive" and "s' = s\<lparr>cs_caps := (cs_caps s)\<lparr>cp_heap := ?h\<rparr>,
      cs_stage := (cs_stage s)(a := if strong_count ?h a = 0 then Unfiling else Alive)\<rparr>"
    using act TurnRelease by (simp_all add: Let_def split: if_split_asm)
  then show ?thesis using step_release [of s a ?h] by simp
qed (use act in \<open>auto simp: Let_def split: if_splits option.splits prod.splits intro: cap_step.intros\<close>)

fun cap_acts :: "cap_turn list \<Rightarrow> ('o, fd_table) cap_sys \<Rightarrow> ('o, fd_table) cap_sys option" where
  "cap_acts [] s = Some s"
| "cap_acts (t # ts) s = (case cap_act t s of None \<Rightarrow> None | Some s' \<Rightarrow> cap_acts ts s')"

lemma cap_acts_reach:
  "cap_acts ts s = Some s' \<Longrightarrow> reach (cap_init k) (cap_step table_net table_obj) s \<Longrightarrow>
   reach (cap_init k) (cap_step table_net table_obj) s'"
proof (induction ts arbitrary: s)
  case (Cons t ts)
  then obtain s1 where s1: "cap_act t s = Some s1" "cap_acts ts s1 = Some s'"
    by (auto split: option.splits)
  have "cap_inv table_net table_obj s"
    using registry.reach_inv [OF Cons.prems(2)] table_law by blast
  from reach_step [OF Cons.prems(2) cap_act_step [OF this s1(1)]] s1(2) Cons.IH show ?case by blast
qed simp

text \<open>
  The race of the two drops: reference 1 is released and not yet unfiled when another
  descriptor of its socket arrives and is interned as reference 2 over the dead entry; then
  reference 1 unfiles, late. Reference 3 is another socket, and descriptor 14 a third
  descriptor of the first one, not yet interned.
\<close>

definition late_turns :: "cap_turn list" where
  "late_turns =
     [TurnOpen 10 70, TurnOpen 11 70, TurnIntern 10 1, TurnIntern 11 5, TurnRelease 1,
      TurnRelease 1, TurnOpen 12 70, TurnIntern 12 2, TurnUnfile 1, TurnOpen 13 80,
      TurnIntern 13 3, TurnOpen 14 70]"

definition late_state :: "(unit, fd_table) cap_sys" where
  "late_state =
     \<lparr>cs_caps = \<lparr>cp_heap = [1 \<mapsto> \<lparr>strong = 0, inner = ref_inner_new None 10 (Some (9, 70))\<rparr>,
          2 \<mapsto> \<lparr>strong = 1, inner = ref_inner_new None 12 (Some (9, 70))\<rparr>,
          3 \<mapsto> \<lparr>strong = 1, inner = ref_inner_new None 13 (Some (9, 80))\<rparr>],
        cp_refs = [(9, 70) \<mapsto> 2, (9, 80) \<mapsto> 3]\<rparr>,
      cs_kern = [(14, 70), (13, 80), (12, 70), (10, 70)],
      cs_stage = (\<lambda>_. Gone)(1 := Closing, 2 := Alive, 3 := Alive),
      cs_loose = {14}\<rparr>"

lemma table_close: "net_close table_net d k = filter (\<lambda>x. fst x \<noteq> d) k"
  by (simp add: table_net_def)

lemma late_run: "cap_acts late_turns (cap_init []) = Some late_state"
  by (simp add: late_turns_def late_state_def cap_init_def ref_from_fd_def table_socket_id
      weak_upgrade_def strong_count_def arc_new_def ref_clone_def arc_release_def ref_inner_drop_def
      refs_remove_if_def table_close Let_def fun_upd_twist insert_Diff_if)

lemma late_reach: "reach (cap_init []) (cap_step table_net table_obj) late_state"
  using cap_acts_reach [OF late_run reach_init] .

section \<open>Properties\<close>

lemma alive_filed:
  assumes inv: "cap_inv N obj s" and a: "cs_stage s a = Alive"
    and id: "cap_ids (cp_heap (cs_caps s)) a = Some i"
  shows "cp_refs (cs_caps s) i = Some a \<and>
    obj (cs_kern s) (ref_borrowed_fd (cp_heap (cs_caps s)) a) \<noteq> None \<and>
    socket_id N (ref_borrowed_fd (cp_heap (cs_caps s)) a) (cs_kern s) = Inr i"
proof -
  note F = cap_invD [OF inv]
  from id obtain c where c: "cp_heap (cs_caps s) a = Some c" "ri_id (inner c) = Some i"
    by (auto simp: cap_ids_def split: option.splits)
  then have own: "owners s a = Some (inner c)" using a by (simp add: owners_def)
  with fds_okD(2) [OF F(3) own owned_fd] fds_okD(3) [OF F(3) own c(2)] filed_okD(3) [OF F(1) a id] c
  show ?thesis by (simp add: ref_borrowed_fd_def)
qed

text \<open>C3: two capabilities are the same exactly when they send to the same socket. For any two
  live references that made it into the registry, \<^verbatim>\<open>is_same\<close>, the comparison of addresses,
  answers whether their descriptors name one socket, however they arrived and however the
  drops of earlier references to it were interleaved.\<close>

theorem is_same_iff_same_socket:
  assumes "identity_law N obj" and "reach (cap_init k) (cap_step N obj) s"
    and "cs_stage s a = Alive" and "cap_ids (cp_heap (cs_caps s)) a = Some i"
    and "cs_stage s b = Alive" and "cap_ids (cp_heap (cs_caps s)) b = Some j"
  shows "ref_is_same a b \<longleftrightarrow>
    obj (cs_kern s) (ref_borrowed_fd (cp_heap (cs_caps s)) a) =
    obj (cs_kern s) (ref_borrowed_fd (cp_heap (cs_caps s)) b)"
proof -
  have inv: "cap_inv N obj s" using registry.reach_inv [OF assms(2)] assms(1) by blast
  note A = alive_filed [OF inv assms(3,4)] and B = alive_filed [OF inv assms(5,6)]
  show ?thesis
  proof
    assume same: "obj (cs_kern s) (ref_borrowed_fd (cp_heap (cs_caps s)) a) =
      obj (cs_kern s) (ref_borrowed_fd (cp_heap (cs_caps s)) b)"
    have "socket_id N (ref_borrowed_fd (cp_heap (cs_caps s)) b) (cs_kern s) = Inr i"
      by (rule id_same [OF assms(1) _ same]) (use A in simp_all)
    with B have "i = j" by simp
    with A B show "ref_is_same a b" by (simp add: ref_is_same_def)
  qed (simp add: ref_is_same_def)
qed

theorem is_same_iff_same_socket_witness:
  "ref_is_same 2 3 \<longleftrightarrow> table_obj (cs_kern late_state) 12 = table_obj (cs_kern late_state) 13"
  using is_same_iff_same_socket [OF table_law late_reach, of 2 "(9, 70)" 3 "(9, 80)"]
  by (simp add: late_state_def cap_ids_def ref_borrowed_fd_def ref_inner_new_def)

text \<open>C4: an arriving descriptor is recognised exactly when it should be. When some live filed
  reference sends to the socket it names, \<^verbatim>\<open>from_fd\<close> returns that reference, with one more
  strong reference, and closes the descriptor; when it returns a reference it did not just
  allocate, that one sends to the same socket; and otherwise the new reference owns the
  descriptor and nothing was closed.\<close>

theorem from_fd_recognises:
  assumes law: "identity_law N obj" and reach: "reach (cap_init k0) (cap_step N obj) s"
    and d: "d \<in> cs_loose s" and a: "cp_heap (cs_caps s) a = None"
    and run: "ref_from_fd N rt a d (cs_caps s, cs_kern s) = (r, (c, k))"
  shows "(\<forall>b i. cs_stage s b = Alive \<and> cap_ids (cp_heap (cs_caps s)) b = Some i \<and>
        obj (cs_kern s) (ref_borrowed_fd (cp_heap (cs_caps s)) b) = obj (cs_kern s) d \<longrightarrow>
        r = b \<and> obj k d = None \<and>
        strong_count (cp_heap c) b = Suc (strong_count (cp_heap (cs_caps s)) b)) \<and>
    (if r = a then ref_borrowed_fd (cp_heap c) r = d \<and> k = cs_kern s
     else cs_stage s r = Alive \<and>
       obj (cs_kern s) (ref_borrowed_fd (cp_heap (cs_caps s)) r) = obj (cs_kern s) d)"
    (is "?hit \<and> ?else")
proof -
  have inv: "cap_inv N obj s" using registry.reach_inv [OF reach] law by blast
  note F = cap_invD [OF inv]
  let ?h = "cp_heap (cs_caps s)" and ?refs = "cp_refs (cs_caps s)"
  have ob: "obj (cs_kern s) d \<noteq> None" using fds_okD(1) [OF F(3) d] .
  have ?hit
  proof (intro allI impI)
    fix b i assume b: "cs_stage s b = Alive \<and> cap_ids ?h b = Some i \<and>
        obj (cs_kern s) (ref_borrowed_fd ?h b) = obj (cs_kern s) d"
    with alive_filed [OF inv] have B: "?refs i = Some b" "socket_id N (ref_borrowed_fd ?h b) (cs_kern s) = Inr i"
      by blast+
    with b ob id_same [OF law] have "socket_id N d (cs_kern s) = Inr i" by metis
    moreover have "strong_count ?h b \<noteq> 0" "?h b \<noteq> None"
      using cap_inv_alive [OF inv, of b] b by (auto simp: strong_count_def split: option.splits)
    ultimately show "r = b \<and> obj k d = None \<and> strong_count (cp_heap c) b = Suc (strong_count ?h b)"
      using run B(1) id_closed [OF law]
      by (auto simp: ref_from_fd_def weak_upgrade_def strong_count_clone)
  qed
  moreover have ?else
  proof (cases "r = a")
    case True
    have "w \<noteq> a" if "strong_count ?h w \<noteq> 0" for w using that a by (auto simp: strong_count_def)
    with run True show ?thesis
      by (auto simp: ref_from_fd_def weak_upgrade_def arc_new_def ref_borrowed_fd_def
          split: sum.splits option.splits if_splits)
  next
    case False
    with run obtain i where i: "socket_id N d (cs_kern s) = Inr i" "?refs i = Some r"
        "strong_count ?h r \<noteq> 0"
      by (auto simp: ref_from_fd_def weak_upgrade_def split: sum.splits option.splits if_splits)
    then have al: "cs_stage s r = Alive" using cap_inv_alive [OF inv] by blast
    from alive_filed [OF inv al filed_okD(1) [OF F(1) i(2)]]
    show ?thesis using id_distinct [OF law _ ob _ i(1)] al False by auto
  qed
  ultimately show ?thesis by blast
qed

theorem from_fd_recognises_witness:
  "fst (ref_from_fd table_net None 4 14 (cs_caps late_state, cs_kern late_state)) = 2"
proof -
  let ?r = "ref_from_fd table_net None 4 14 (cs_caps late_state, cs_kern late_state)"
  have "?r = (fst ?r, (fst (snd ?r), snd (snd ?r)))" by simp
  from from_fd_recognises [OF table_law late_reach _ _ this, THEN conjunct1, rule_format, of 2 "(9, 70)"]
  show ?thesis
    by (simp add: late_state_def cap_ids_def ref_borrowed_fd_def ref_inner_new_def table_obj_def)
qed

text \<open>C5: the registry names no socket that is gone. Every entry is a reference whose descriptor
  is still open and still has the identity it is filed under, so an inode number can only be
  reissued once its entry is gone; and the late unfiling of a dying reference never takes out
  the entry of a live one: what is alive and has an identity is always filed.\<close>

theorem registry_is_exact:
  assumes "identity_law N obj" and "reach (cap_init k) (cap_step N obj) s"
  shows "(\<forall>i a. cp_refs (cs_caps s) i = Some a \<longrightarrow>
        obj (cs_kern s) (ref_borrowed_fd (cp_heap (cs_caps s)) a) \<noteq> None \<and>
        socket_id N (ref_borrowed_fd (cp_heap (cs_caps s)) a) (cs_kern s) = Inr i) \<and>
    (\<forall>i a. cs_stage s a = Alive \<and> cap_ids (cp_heap (cs_caps s)) a = Some i \<longrightarrow>
        cp_refs (cs_caps s) i = Some a)"
proof -
  have inv: "cap_inv N obj s" using registry.reach_inv [OF assms(2)] assms(1) by blast
  note F = cap_invD [OF inv]
  have "obj (cs_kern s) (ref_borrowed_fd (cp_heap (cs_caps s)) a) \<noteq> None \<and>
      socket_id N (ref_borrowed_fd (cp_heap (cs_caps s)) a) (cs_kern s) = Inr i"
    if e: "cp_refs (cs_caps s) i = Some a" for i a
  proof -
    from filed_okD(1) [OF F(1) e] obtain c where c: "cp_heap (cs_caps s) a = Some c"
        "ri_id (inner c) = Some i" by (auto simp: cap_ids_def split: option.splits)
    moreover have "owners s a = Some (inner c)"
      using filed_okD(2) [OF F(1) e] c by (auto simp: owners_def)
    ultimately show ?thesis using fds_okD(2) [OF F(3) _ owned_fd] fds_okD(3) [OF F(3)]
      by (simp add: ref_borrowed_fd_def)
  qed
  then show ?thesis using alive_filed [OF inv] by blast
qed

theorem registry_is_exact_witness:
  "cp_refs (cs_caps late_state) (9, 70) = Some 2 \<and> table_obj (cs_kern late_state) 12 \<noteq> None"
proof -
  have "cs_stage late_state 2 = Alive \<and> cap_ids (cp_heap (cs_caps late_state)) 2 = Some (9, 70)"
    by (simp add: late_state_def cap_ids_def ref_inner_new_def)
  with registry_is_exact [OF table_law late_reach]
  have e: "cp_refs (cs_caps late_state) (9, 70) = Some 2" by blast
  with registry_is_exact [OF table_law late_reach, THEN conjunct1, rule_format, OF e] show ?thesis
    by (simp add: late_state_def ref_borrowed_fd_def ref_inner_new_def)
qed

end
