(* ===== verification/Ipc_Binding.thy ===== *)
theory Ipc_Binding
  imports Ipc_Registry
begin

text \<open>
  \<^verbatim>\<open>capability.rs\<close>, \<^verbatim>\<open>RefFsBinding\<close>: a reference offered at a path, guarded by a lock file.
  The part of \<^verbatim>\<open>std::fs\<close> it uses (create, lock, close, remove) is modelled on the record
  \<open>fsys\<close>; a kernel state is any extension of it, so that the socket calls of the kernel
  parameter act on the same directory.
\<close>

section \<open>Files, names and locks\<close>

text \<open>
  Names of inodes, the inode of each open file, and the open file that holds the exclusive
  lock of an inode. A name can go while the inode stays open and locked.
\<close>

record fsys =
  fs_names :: "path \<rightharpoonup> nat"
  fs_denied :: "path set"
  fs_next :: nat
  fs_files :: "nat \<rightharpoonup> nat"
  fs_handle :: nat
  fs_locks :: "nat \<rightharpoonup> nat"

definition file_create :: "path \<Rightarrow> 'm fsys_scheme \<Rightarrow> nat option \<times> 'm fsys_scheme" where
  "file_create p k =
     (if p \<in> fs_denied k then (None, k)
      else
        (let h = fs_handle k
         in case fs_names k p of
              Some i \<Rightarrow> (Some h, k\<lparr>fs_files := (fs_files k)(h \<mapsto> i), fs_handle := Suc h\<rparr>)
            | None \<Rightarrow>
                (Some h, k\<lparr>fs_names := (fs_names k)(p \<mapsto> fs_next k), fs_next := Suc (fs_next k),
                           fs_files := (fs_files k)(h \<mapsto> fs_next k), fs_handle := Suc h\<rparr>)))"

definition file_try_lock :: "nat \<Rightarrow> 'm fsys_scheme \<Rightarrow> bool \<times> 'm fsys_scheme" where
  "file_try_lock h k =
     (case fs_files k h of None \<Rightarrow> (False, k)
      | Some i \<Rightarrow>
          (case fs_locks k i of
             None \<Rightarrow> (True, k\<lparr>fs_locks := (fs_locks k)(i \<mapsto> h)\<rparr>)
           | Some h' \<Rightarrow> (h' = h, k)))"

definition file_close :: "nat \<Rightarrow> 'm fsys_scheme \<Rightarrow> 'm fsys_scheme" where
  "file_close h k =
     k\<lparr>fs_files := (fs_files k)(h := None),
       fs_locks := (\<lambda>i. if fs_locks k i = Some h then None else fs_locks k i)\<rparr>"

definition remove_file :: "path \<Rightarrow> 'm fsys_scheme \<Rightarrow> bool \<times> 'm fsys_scheme" where
  "remove_file p k =
     (if fs_names k p = None \<or> p \<in> fs_denied k then (False, k)
      else (True, k\<lparr>fs_names := (fs_names k)(p := None)\<rparr>))"

section \<open>Binding and unbinding\<close>

definition lock_path :: "path \<Rightarrow> path" where
  "lock_path p = p @ ''.lock''"

definition acquire_lock :: "path \<Rightarrow> 'm fsys_scheme \<Rightarrow> nat option \<times> 'm fsys_scheme" where
  "acquire_lock p k =
     (case file_create (lock_path p) k of
        (None, k1) \<Rightarrow> (None, k1)
      | (Some h, k1) \<Rightarrow>
          (case file_try_lock h k1 of
             (True, k2) \<Rightarrow> (Some h, k2)
           | (False, k2) \<Rightarrow> (None, file_close h k2)))"

text \<open>The accept task is the listening socket it owns and the reference it offers.\<close>

record ref_fs_binding =
  bd_lock_file :: nat
  bd_path :: path
  bd_task :: "fd \<times> addr"

definition binding_new ::
  "('m fsys_scheme) net \<Rightarrow> addr \<Rightarrow> path \<Rightarrow> (ref_fs_binding, 'm fsys_scheme) io" where
  "binding_new N r p k =
     (case acquire_lock p k of
        (None, k1) \<Rightarrow> (Inl (CustomError AddrInUse ''unable to acquire lock file''), k1)
      | (Some h, k1) \<Rightarrow>
          (case io_bind (wire_bind N p) (reactive_new N) (snd (remove_file p k1)) of
             (Inl e, k2) \<Rightarrow> (Inl e, file_close h k2)
           | (Inr d, k2) \<Rightarrow>
               (Inr \<lparr>bd_lock_file = h, bd_path = p, bd_task = (d, r)\<rparr>, k2)))"

definition binding_path :: "ref_fs_binding \<Rightarrow> path" where
  "binding_path b = bd_path b"

text \<open>
  The body of \<^verbatim>\<open>drop\<close>, then the fields in order: the lock file closes, and the abort of the
  task closes the listening socket.
\<close>

definition binding_drop :: "('m fsys_scheme) net \<Rightarrow> ref_fs_binding \<Rightarrow> 'm fsys_scheme \<Rightarrow> 'm fsys_scheme" where
  "binding_drop N b k =
     net_close N (fst (bd_task b))
       (file_close (bd_lock_file b)
         (snd (remove_file (bd_path b) (snd (remove_file (lock_path (bd_path b)) k)))))"

text \<open>
  The accept task. Each round has the wake-ups of its \<^verbatim>\<open>accept\<close> and of its \<^verbatim>\<open>send\<close>; the result
  is the number of connections served and, once the task has ended, that it has: an accept
  or a registration that fails ends it, a send that fails does not.
\<close>

definition offer :: "addr \<Rightarrow> message" where
  "offer r = (message_from_data [])\<lparr>msg_fds := [SharedRef r]\<rparr>"

fun accept_task ::
  "'k net \<Rightarrow> (addr \<Rightarrow> fd) \<Rightarrow> fd \<times> addr \<Rightarrow> ('k wakeups \<times> 'k wakeups) list \<Rightarrow> 'k \<Rightarrow>
   nat \<times> bool \<times> 'k" where
  "accept_task N borrow (l, r) [] k = (0, False, k)"
| "accept_task N borrow (l, r) ((ws, vs) # rounds) k =
     (case reactive_accept N l ws k of
        (None, k1) \<Rightarrow> (0, False, k1)
      | (Some (Inl e), k1) \<Rightarrow> (0, True, net_close N l k1)
      | (Some (Inr c), k1) \<Rightarrow>
          (case reactive_new N c k1 of
             (Inl e, k2) \<Rightarrow> (0, True, net_close N l k2)
           | (Inr d, k2) \<Rightarrow>
               (case reactive_send N borrow d (offer r) vs k2 of
                  (None, k3) \<Rightarrow> (0, False, k3)
                | (Some _, k3) \<Rightarrow>
                    (case accept_task N borrow (l, r) rounds (net_close N d k3) of
                       (n, ended, k4) \<Rightarrow> (Suc n, ended, k4)))))"

section \<open>Interleavings\<close>

text \<open>\<^verbatim>\<open>new\<close> and \<^verbatim>\<open>drop\<close> at each of their calls.\<close>

datatype bind_pc =
    BindIdle
  | BindOpened nat
  | BindLocked nat
  | BindCleared nat
  | BindListening nat fd
  | Bound nat fd
  | DropStarted nat fd
  | DropLockGone nat fd
  | DropPathGone nat fd
  | DropUnlocked fd

fun binder_step ::
  "('m fsys_scheme) net \<Rightarrow> path \<Rightarrow> bind_pc \<Rightarrow> 'm fsys_scheme \<Rightarrow> bind_pc \<times> 'm fsys_scheme" where
  "binder_step N p BindIdle k =
     (case file_create (lock_path p) k of
        (None, k1) \<Rightarrow> (BindIdle, k1) | (Some h, k1) \<Rightarrow> (BindOpened h, k1))"
| "binder_step N p (BindOpened h) k =
     (case file_try_lock h k of
        (True, k1) \<Rightarrow> (BindLocked h, k1) | (False, k1) \<Rightarrow> (BindIdle, file_close h k1))"
| "binder_step N p (BindLocked h) k = (BindCleared h, snd (remove_file p k))"
| "binder_step N p (BindCleared h) k =
     (case wire_bind N p k of
        (Inl e, k1) \<Rightarrow> (BindIdle, file_close h k1) | (Inr d, k1) \<Rightarrow> (BindListening h d, k1))"
| "binder_step N p (BindListening h d) k =
     (case reactive_new N d k of
        (Inl e, k1) \<Rightarrow> (BindIdle, file_close h k1) | (Inr d', k1) \<Rightarrow> (Bound h d', k1))"
| "binder_step N p (Bound h d) k = (DropStarted h d, k)"
| "binder_step N p (DropStarted h d) k = (DropLockGone h d, snd (remove_file (lock_path p) k))"
| "binder_step N p (DropLockGone h d) k = (DropPathGone h d, snd (remove_file p k))"
| "binder_step N p (DropPathGone h d) k = (DropUnlocked d, file_close h k)"
| "binder_step N p (DropUnlocked d) k = (BindIdle, net_close N d k)"

text \<open>
  Threads and processes \<open>t\<close>, each binding at its path \<open>P t\<close>; \<open>drops\<close> says whether bindings are
  dropped. A crash at any point closes the lock file and removes nothing.
\<close>

record 'k bind_sys =
  bs_kern :: 'k
  bs_pcs :: "nat \<Rightarrow> bind_pc"

fun bind_handle :: "bind_pc \<Rightarrow> nat option" where
  "bind_handle (BindOpened h) = Some h"
| "bind_handle (BindLocked h) = Some h"
| "bind_handle (BindCleared h) = Some h"
| "bind_handle (BindListening h _) = Some h"
| "bind_handle (Bound h _) = Some h"
| "bind_handle (DropStarted h _) = Some h"
| "bind_handle (DropLockGone h _) = Some h"
| "bind_handle (DropPathGone h _) = Some h"
| "bind_handle _ = None"

inductive bind_step ::
  "bool \<Rightarrow> ('m fsys_scheme) net \<Rightarrow> (nat \<Rightarrow> path) \<Rightarrow> ('m fsys_scheme) bind_sys \<Rightarrow>
   ('m fsys_scheme) bind_sys \<Rightarrow> bool" for drops N P where
  step_binder: "(\<And>h d. bs_pcs s t = Bound h d \<Longrightarrow> drops) \<Longrightarrow>
    binder_step N (P t) (bs_pcs s t) (bs_kern s) = (pc, k) \<Longrightarrow>
    bind_step drops N P s (s\<lparr>bs_pcs := (bs_pcs s)(t := pc), bs_kern := k\<rparr>)"
| step_crash: "bind_handle (bs_pcs s t) = Some h \<Longrightarrow>
    bind_step drops N P s (s\<lparr>bs_pcs := (bs_pcs s)(t := BindIdle), bs_kern := file_close h (bs_kern s)\<rparr>)"

inductive_cases bind_stepE: "bind_step drops N P s t"

definition bind_init :: "'k \<Rightarrow> 'k bind_sys" where
  "bind_init k = \<lparr>bs_kern = k, bs_pcs = (\<lambda>_. BindIdle)\<rparr>"

end
