(* ===== verification/Ipc_Binding_Props.thy ===== *)
theory Ipc_Binding_Props
  imports Ipc_Binding
begin

text \<open>
  What \<^verbatim>\<open>RefFsBinding\<close> promises: a held lock keeps everybody else off the path, stale files
  do not, \<^verbatim>\<open>drop\<close> cleans up, and at most one of any number of concurrent binders gets a
  path; and the run in which a \<^verbatim>\<open>drop\<close> removes the path of its successor.
\<close>

section \<open>What binding relies on\<close>

text \<open>
  The socket calls leave files and locks alone; only \<^verbatim>\<open>bind\<close> touches the directory, at its
  own path, which it creates and never replaces.
\<close>

definition fs_same :: "'m fsys_scheme \<Rightarrow> 'm fsys_scheme \<Rightarrow> bool" where
  "fs_same k k' \<longleftrightarrow> fs_names k' = fs_names k \<and> fs_denied k' = fs_denied k \<and>
     fs_files k' = fs_files k \<and> fs_handle k' = fs_handle k \<and> fs_locks k' = fs_locks k"

definition fs_law :: "('m fsys_scheme) net \<Rightarrow> bool" where
  "fs_law N \<longleftrightarrow>
     (\<forall>fl k. fs_same k (snd (net_socket N fl k))) \<and>
     (\<forall>d n k. fs_same k (snd (net_listen N d n k))) \<and>
     (\<forall>d k. fs_same k (snd (net_async_fd N d k))) \<and>
     (\<forall>d k. fs_same k (net_close N d k)) \<and>
     (\<forall>p a. net_addr N p = Inr a \<longrightarrow> a = p) \<and>
     (\<forall>d p k. fs_names k p = None \<longrightarrow>
        (\<exists>i. fs_same (k\<lparr>fs_names := (fs_names k)(p \<mapsto> i)\<rparr>) (snd (net_bind N d p k)) \<and>
           fst (net_bind N d p k) = Inr ()) \<or>
        (\<exists>e. fs_same k (snd (net_bind N d p k)) \<and> fst (net_bind N d p k) = Inl e)) \<and>
     (\<forall>d p k. fs_names k p \<noteq> None \<longrightarrow>
        fs_same k (snd (net_bind N d p k)) \<and>
        (\<exists>e. fst (net_bind N d p k) = Inl e \<and> io_error_kind e = AddrInUse))"

lemma fs_same_refl [simp]: "fs_same k k"
  by (simp add: fs_same_def)

lemma fs_same_trans: "fs_same a b \<Longrightarrow> fs_same b c \<Longrightarrow> fs_same a c"
  by (simp add: fs_same_def)

text \<open>Apart from the name \<open>p\<close>.\<close>

definition fs_same_but :: "path \<Rightarrow> 'm fsys_scheme \<Rightarrow> 'm fsys_scheme \<Rightarrow> bool" where
  "fs_same_but p k k' \<longleftrightarrow> (\<forall>q. q \<noteq> p \<longrightarrow> fs_names k' q = fs_names k q) \<and>
     fs_denied k' = fs_denied k \<and>
     fs_files k' = fs_files k \<and> fs_handle k' = fs_handle k \<and> fs_locks k' = fs_locks k"

lemma fs_same_but: "fs_same k k' \<Longrightarrow> fs_same_but p k k'"
  by (simp add: fs_same_def fs_same_but_def)

lemma fs_same_but_trans: "fs_same_but p a b \<Longrightarrow> fs_same_but p b c \<Longrightarrow> fs_same_but p a c"
  by (simp add: fs_same_but_def)

lemma fs_lawD:
  assumes "fs_law N"
  shows "fs_same k (snd (net_socket N fl k))" "fs_same k (snd (net_listen N d n k))"
    "fs_same k (snd (net_async_fd N d k))" "fs_same k (net_close N d k)"
    "net_addr N p = Inr a \<Longrightarrow> a = p" "fs_same_but p k (snd (net_bind N d p k))"
proof -
  show "fs_same k (snd (net_socket N fl k))" "fs_same k (snd (net_listen N d n k))"
    "fs_same k (snd (net_async_fd N d k))" "fs_same k (net_close N d k)"
    "net_addr N p = Inr a \<Longrightarrow> a = p" using assms unfolding fs_law_def by blast+
  show "fs_same_but p k (snd (net_bind N d p k))"
  proof (cases "fs_names k p")
    case None
    then consider i where "fs_same (k\<lparr>fs_names := (fs_names k)(p \<mapsto> i)\<rparr>) (snd (net_bind N d p k))"
      | "fs_same k (snd (net_bind N d p k))"
      using assms unfolding fs_law_def by blast
    then show ?thesis by cases (simp_all add: fs_same_def fs_same_but_def)
  next
    case (Some i)
    then have "fs_names k p \<noteq> None" by simp
    then have "fs_same k (snd (net_bind N d p k))" using assms unfolding fs_law_def by blast
    then show ?thesis by (rule fs_same_but)
  qed
qed

lemma wire_bind_fs:
  assumes law: "fs_law N" and run: "wire_bind N p k = (r, k')"
  shows "fs_same_but p k k'"
proof (cases "net_addr N p")
  case (Inl e)
  with run show ?thesis by (simp add: wire_bind_def io_defs fs_same_but)
next
  case (Inr a)
  then have a: "a = p" by (rule fs_lawD(5) [OF law])
  obtain x k1 where x: "net_socket N {NONBLOCK, CLOEXEC} k = (x, k1)" by fastforce
  with fs_lawD(1) [OF law, of k] have 1: "fs_same k k1" by (metis snd_conv)
  show ?thesis
  proof (cases x)
    case (Inl e)
    with run Inr x 1 show ?thesis by (simp add: wire_bind_def io_defs fs_same_but)
  next
    case x': (Inr d)
    obtain y k2 where y: "net_bind N d p k1 = (y, k2)" by fastforce
    with fs_lawD(6) [OF law, of p k1] have 2: "fs_same_but p k1 k2" by (metis snd_conv)
    obtain z k3 where z: "net_listen N d 128 k2 = (z, k3)" by fastforce
    with fs_lawD(2) [OF law, of k2] have 3: "fs_same k2 k3" by (metis snd_conv)
    note close = fs_same_but [OF fs_lawD(4) [OF law]]
    have to2: "fs_same_but p k k2" using 1 2 by (blast intro: fs_same_but fs_same_but_trans)
    have to3: "fs_same_but p k k3" using to2 3 by (blast intro: fs_same_but fs_same_but_trans)
    show ?thesis
      using run Inr a x x' y z to2 to3 fs_same_but_trans [OF to2 close] fs_same_but_trans [OF to3 close]
      by (auto simp: wire_bind_def io_defs split: sum.splits)
  qed
qed

lemma reactive_new_fs:
  assumes law: "fs_law N" and run: "reactive_new N d k = (r, k')"
  shows "fs_same k k'"
proof -
  obtain x k1 where x: "net_async_fd N d k = (x, k1)" by fastforce
  with fs_lawD(3) [OF law, of k] have 1: "fs_same k k1" by (metis snd_conv)
  show ?thesis
    using run x 1 fs_same_trans [OF 1 fs_lawD(4) [OF law, of k1 d]]
    by (auto simp: reactive_new_def io_defs split: sum.splits)
qed

section \<open>One call at a time\<close>

text \<open>The lock of \<open>p\<close>: the name leads to an inode that the open file \<open>h\<close> has locked.\<close>

definition lock_held :: "path \<Rightarrow> nat \<Rightarrow> 'm fsys_scheme \<Rightarrow> bool" where
  "lock_held p h k \<longleftrightarrow> h < fs_handle k \<and>
     (\<exists>i. fs_names k (lock_path p) = Some i \<and> fs_files k h = Some i \<and> fs_locks k i = Some h)"

lemma lock_path_neq [simp]: "lock_path p \<noteq> p" "p \<noteq> lock_path p"
  by (simp_all add: lock_path_def)

lemma lock_held_same_but: "fs_same_but p k k' \<Longrightarrow> lock_held p h k \<Longrightarrow> lock_held p h k'"
  by (simp add: fs_same_but_def lock_held_def)

lemma acquire_lock_holds: "acquire_lock p k = (Some h, k') \<Longrightarrow> lock_held p h k'"
  by (auto simp: acquire_lock_def file_create_def file_try_lock_def lock_held_def Let_def
      split: if_splits option.splits prod.splits bool.splits)

lemma acquire_lock_refused:
  assumes "lock_held p h k"
  shows "\<exists>k'. acquire_lock p k = (None, k') \<and> fs_names k' = fs_names k \<and> lock_held p h k'"
  using assms
  by (auto simp: acquire_lock_def file_create_def file_try_lock_def file_close_def lock_held_def Let_def)

lemma remove_file_same_but: "fs_same_but p k (snd (remove_file p k))"
  by (simp add: remove_file_def fs_same_but_def)

text \<open>C25: a held binding excludes every other. A successful \<^verbatim>\<open>new\<close> holds the lock of its path;
  and as long as the lock of a path is held, any other \<^verbatim>\<open>new\<close> on it fails with \<^verbatim>\<open>AddrInUse\<close>
  before it touches the path: no name changes, and the lock stays held by its holder.\<close>

theorem binding_excludes:
  assumes "fs_law N"
  shows "(binding_new N r p k = (Inr b, k1) \<longrightarrow>
      bd_path b = p \<and> lock_held p (bd_lock_file b) k1) \<and>
    (lock_held p h k2 \<longrightarrow>
      (\<exists>k3. binding_new N r' p k2 =
         (Inl (CustomError AddrInUse ''unable to acquire lock file''), k3) \<and>
       fs_names k3 = fs_names k2 \<and> lock_held p h k3))"
proof (rule conjI; rule impI)
  assume run: "binding_new N r p k = (Inr b, k1)"
  then obtain h0 ka d where a: "acquire_lock p k = (Some h0, ka)"
    and w: "io_bind (wire_bind N p) (reactive_new N) (snd (remove_file p ka)) = (Inr d, k1)"
    and b: "b = \<lparr>bd_lock_file = h0, bd_path = p, bd_task = (d, r)\<rparr>"
    by (auto simp: binding_new_def split: prod.splits option.splits sum.splits)
  from w obtain d' kb where "wire_bind N p (snd (remove_file p ka)) = (Inr d', kb)"
    "reactive_new N d' kb = (Inr d, k1)" by (auto simp: io_defs split: prod.splits sum.splits)
  with wire_bind_fs [OF assms] reactive_new_fs [OF assms]
  have "fs_same_but p (snd (remove_file p ka)) kb" "fs_same_but p kb k1" by (blast intro: fs_same_but)+
  with remove_file_same_but have "fs_same_but p ka k1" by (blast intro: fs_same_but_trans)
  with lock_held_same_but acquire_lock_holds [OF a] b
  show "bd_path b = p \<and> lock_held p (bd_lock_file b) k1" by auto
next
  assume "lock_held p h k2"
  from acquire_lock_refused [OF this]
  show "\<exists>k3. binding_new N r' p k2 = (Inl (CustomError AddrInUse ''unable to acquire lock file''), k3) \<and>
      fs_names k3 = fs_names k2 \<and> lock_held p h k3"
    by (auto simp: binding_new_def)
qed

section \<open>A file system that satisfies the law\<close>

definition sample_fs_net :: "fsys net" where
  "sample_fs_net =
     \<lparr>net_cmsg_space = sample_cmsg_space,
      net_anc_push = (\<lambda>sp ds. sample_cmsg_space (length ds) 0 \<le> sp),
      net_addr = Inr,
      net_socketpair = (\<lambda>fl. io_ret (50, 51)),
      net_socket = (\<lambda>fl. io_ret 50),
      net_bind = (\<lambda>d p k. if fs_names k p = None then (Inr (), k\<lparr>fs_names := (fs_names k)(p \<mapsto> 0)\<rparr>)
         else (Inl (OsError AddrInUse 98), k)),
      net_listen = (\<lambda>d n. io_ret ()),
      net_connect = (\<lambda>d p. io_ret ()),
      net_accept = (\<lambda>d fl. io_err (OsError WouldBlock 11)),
      net_sendmsg = (\<lambda>d iov ctl fl. io_ret (length iov)),
      net_recvmsg = (\<lambda>d n c fl. io_err (OsError WouldBlock 11)),
      net_passcred = (\<lambda>d b. io_ret ()),
      net_poll = (\<lambda>d fl k. Inr {}),
      net_dup = (\<lambda>d. io_ret (Suc d)),
      net_close = (\<lambda>d k. k),
      net_fstat = (\<lambda>d k. Inr \<lparr>st_dev = 9, st_ino = of_nat d\<rparr>),
      net_async_fd = (\<lambda>d. io_ret ()),
      net_getrlimit = (\<lambda>k. \<lparr>rl_current = None, rl_maximum = None\<rparr>),
      net_setrlimit = (\<lambda>r. io_ret ())\<rparr>"

lemma sample_fs_law: "fs_law sample_fs_net"
  by (auto simp: fs_law_def sample_fs_net_def io_defs fs_same_def)

text \<open>A stale socket and a stale lock file, as a crash leaves them.\<close>

definition stale_fs :: fsys where
  "stale_fs =
     \<lparr>fs_names = [''/s'' \<mapsto> 3, ''/s.lock'' \<mapsto> 4], fs_denied = {}, fs_next = 10,
      fs_files = Map.empty, fs_handle = 0, fs_locks = Map.empty\<rparr>"

definition stale_bound :: fsys where
  "stale_bound =
     stale_fs\<lparr>fs_names := [''/s'' \<mapsto> 0, ''/s.lock'' \<mapsto> 4], fs_handle := 1, fs_files := [0 \<mapsto> 4],
       fs_locks := [4 \<mapsto> 0]\<rparr>"

lemma stale_binding: "binding_new sample_fs_net 7 ''/s'' stale_fs =
  (Inr \<lparr>bd_lock_file = 0, bd_path = ''/s'', bd_task = (50, 7)\<rparr>, stale_bound)"
  by (simp add: binding_new_def acquire_lock_def file_create_def file_try_lock_def remove_file_def
      lock_path_def stale_fs_def stale_bound_def wire_bind_def reactive_new_def sample_fs_net_def
      io_defs Let_def fun_upd_twist)

theorem binding_excludes_witness:
  "\<exists>k. binding_new sample_fs_net 8 ''/s'' stale_bound =
     (Inl (CustomError AddrInUse ''unable to acquire lock file''), k) \<and>
     fs_names k ''/s'' = Some 0"
proof -
  note e = binding_excludes [OF sample_fs_law]
  from e stale_binding have "lock_held ''/s'' 0 stale_bound" by fastforce
  with e [of _ "''/s''"] obtain k where "binding_new sample_fs_net 8 ''/s'' stale_bound =
     (Inl (CustomError AddrInUse ''unable to acquire lock file''), k)"
     "fs_names k = fs_names stale_bound" by blast
  then show ?thesis by (intro exI [of _ k]) (simp add: stale_bound_def)
qed

text \<open>A kernel that lets a socket be bound at \<open>p\<close> whenever nothing is there.\<close>

definition binds_free :: "('m fsys_scheme) net \<Rightarrow> path \<Rightarrow> bool" where
  "binds_free N p \<longleftrightarrow>
     (\<forall>k. fs_names k p = None \<longrightarrow>
        (\<exists>d k'. io_bind (wire_bind N p) (reactive_new N) k = (Inr d, k')))"

text \<open>What a crash left behind does not keep a path from being bound. When nobody has the
  lock file of a path locked and both names may be written, \<^verbatim>\<open>new\<close> succeeds although a stale
  socket and a stale lock file are there, given a kernel that binds free paths.\<close>

theorem stale_path_is_replaced:
  assumes "binds_free N p" and "lock_path p \<notin> fs_denied k" and "p \<notin> fs_denied k"
    and "\<forall>i. fs_names k (lock_path p) = Some i \<longrightarrow> fs_locks k i = None"
    and "fs_locks k (fs_next k) = None"
  shows "\<exists>b k'. binding_new N r p k = (Inr b, k') \<and> bd_path b = p \<and> snd (bd_task b) = r"
proof -
  have "\<exists>h k1. acquire_lock p k = (Some h, k1) \<and> fs_denied k1 = fs_denied k"
    using assms(2,4,5)
    by (auto simp: acquire_lock_def file_create_def file_try_lock_def Let_def split: option.splits)
  then obtain h k1 where a: "acquire_lock p k = (Some h, k1)" "fs_denied k1 = fs_denied k" by blast
  then have "fs_names (snd (remove_file p k1)) p = None"
    using assms(3) by (simp add: remove_file_def)
  with assms(1) obtain d k2 where
    "io_bind (wire_bind N p) (reactive_new N) (snd (remove_file p k1)) = (Inr d, k2)"
    unfolding binds_free_def by blast
  with a show ?thesis by (simp add: binding_new_def)
qed

theorem stale_path_is_replaced_witness:
  "\<exists>b k. binding_new sample_fs_net 7 ''/s'' stale_fs = (Inr b, k) \<and> bd_path b = ''/s''"
proof -
  have "binds_free sample_fs_net ''/s''"
    by (simp add: binds_free_def wire_bind_def reactive_new_def sample_fs_net_def io_defs)
  from stale_path_is_replaced [OF this, of stale_fs 7] show ?thesis
    by (auto simp: stale_fs_def)
qed

text \<open>\<^verbatim>\<open>drop\<close> leaves nothing behind: the name of the lock file and the path are gone, the
  lock file is closed and its lock released, and no other name has changed.\<close>

theorem binding_drop_cleans_up:
  assumes "fs_law N" and "lock_path (bd_path b) \<notin> fs_denied k" and "bd_path b \<notin> fs_denied k"
  shows "fs_names (binding_drop N b k) (lock_path (bd_path b)) = None \<and>
    fs_names (binding_drop N b k) (bd_path b) = None \<and>
    fs_files (binding_drop N b k) (bd_lock_file b) = None \<and>
    (\<forall>i. fs_locks (binding_drop N b k) i \<noteq> Some (bd_lock_file b)) \<and>
    (\<forall>q. q \<noteq> bd_path b \<and> q \<noteq> lock_path (bd_path b) \<longrightarrow>
       fs_names (binding_drop N b k) q = fs_names k q)"
proof -
  let ?k = "file_close (bd_lock_file b)
     (snd (remove_file (bd_path b) (snd (remove_file (lock_path (bd_path b)) k))))"
  have "fs_same ?k (binding_drop N b k)" unfolding binding_drop_def by (rule fs_lawD(4) [OF assms(1)])
  moreover have "fs_names ?k (lock_path (bd_path b)) = None \<and> fs_names ?k (bd_path b) = None \<and>
    fs_files ?k (bd_lock_file b) = None \<and> (\<forall>i. fs_locks ?k i \<noteq> Some (bd_lock_file b)) \<and>
    (\<forall>q. q \<noteq> bd_path b \<and> q \<noteq> lock_path (bd_path b) \<longrightarrow> fs_names ?k q = fs_names k q)"
    using assms(2,3) by (auto simp: file_close_def remove_file_def)
  ultimately show ?thesis by (simp add: fs_same_def)
qed

theorem binding_drop_cleans_up_witness:
  "fs_names (binding_drop sample_fs_net \<lparr>bd_lock_file = 0, bd_path = ''/s'', bd_task = (50, 7)\<rparr> stale_bound)
     ''/s'' = None"
  using binding_drop_cleans_up [OF sample_fs_law, of "\<lparr>bd_lock_file = 0, bd_path = ''/s'', bd_task = (50, 7)\<rparr>"
      stale_bound]
  by (simp add: stale_bound_def stale_fs_def)

section \<open>Who holds a path, with everybody at once\<close>

fun holds_lock :: "bind_pc \<Rightarrow> bool" where
  "holds_lock (BindLocked _) = True"
| "holds_lock (BindCleared _) = True"
| "holds_lock (BindListening _ _) = True"
| "holds_lock (Bound _ _) = True"
| "holds_lock _ = False"

fun dropping :: "bind_pc \<Rightarrow> bool" where
  "dropping (DropStarted _ _) = True"
| "dropping (DropLockGone _ _) = True"
| "dropping (DropPathGone _ _) = True"
| "dropping (DropUnlocked _) = True"
| "dropping _ = False"

definition handle_ok :: "path \<Rightarrow> bind_pc \<Rightarrow> nat \<Rightarrow> 'm fsys_scheme \<Rightarrow> bool" where
  "handle_ok p pc h k \<longleftrightarrow> h < fs_handle k \<and>
     (\<exists>i. fs_files k h = Some i \<and> fs_names k (lock_path p) = Some i \<and>
        (holds_lock pc \<longrightarrow> fs_locks k i = Some h))"

definition bind_inv :: "(nat \<Rightarrow> path) \<Rightarrow> ('m fsys_scheme) bind_sys \<Rightarrow> bool" where
  "bind_inv P s \<longleftrightarrow>
     (\<forall>t. \<not> dropping (bs_pcs s t)) \<and>
     (\<forall>t h. bind_handle (bs_pcs s t) = Some h \<longrightarrow> handle_ok (P t) (bs_pcs s t) h (bs_kern s)) \<and>
     (\<forall>t u h. bind_handle (bs_pcs s t) = Some h \<and> bind_handle (bs_pcs s u) = Some h \<longrightarrow> t = u)"

lemma bind_invD:
  assumes "bind_inv P s"
  shows "\<not> dropping (bs_pcs s t)"
    and "bind_handle (bs_pcs s t) = Some h \<Longrightarrow> handle_ok (P t) (bs_pcs s t) h (bs_kern s)"
    and "bind_handle (bs_pcs s t) = Some h \<Longrightarrow> bind_handle (bs_pcs s u) = Some h \<Longrightarrow> t = u"
  using assms unfolding bind_inv_def by blast+

lemma bind_inv_init: "bind_inv P (bind_init k)"
  by (simp add: bind_inv_def bind_init_def)

text \<open>One thread moves and the others' handles stay as they are.\<close>

lemma bind_inv_move:
  assumes inv: "bind_inv P s" and pc: "\<not> dropping pc"
    and own: "\<And>h. bind_handle pc = Some h \<Longrightarrow> handle_ok (P t) pc h k \<and>
      (\<forall>u. u \<noteq> t \<longrightarrow> bind_handle (bs_pcs s u) \<noteq> Some h)"
    and others: "\<And>u h. u \<noteq> t \<Longrightarrow> bind_handle (bs_pcs s u) = Some h \<Longrightarrow>
      handle_ok (P u) (bs_pcs s u) h (bs_kern s) \<Longrightarrow> handle_ok (P u) (bs_pcs s u) h k"
  shows "bind_inv P (s\<lparr>bs_pcs := (bs_pcs s)(t := pc), bs_kern := k\<rparr>)" (is "bind_inv P ?s")
  unfolding bind_inv_def
proof (intro conjI allI impI)
  fix u show "\<not> dropping (bs_pcs ?s u)" using pc bind_invD(1) [OF inv] by simp
next
  fix u h assume "bind_handle (bs_pcs ?s u) = Some h"
  then show "handle_ok (P u) (bs_pcs ?s u) h (bs_kern ?s)"
    using own [of h] others [of u h] bind_invD(2) [OF inv, of u h] by (cases "u = t") simp_all
next
  fix u v h assume "bind_handle (bs_pcs ?s u) = Some h \<and> bind_handle (bs_pcs ?s v) = Some h"
  then show "u = v"
    using own [of h] bind_invD(3) [OF inv, of u h v] by (cases "u = t"; cases "v = t") simp_all
qed

lemma handle_ok_same_but:
  "fs_same_but q k k' \<Longrightarrow> lock_path p \<noteq> q \<Longrightarrow> handle_ok p pc h k \<Longrightarrow> handle_ok p pc h k'"
  by (simp add: fs_same_but_def handle_ok_def)

lemma handle_ok_create:
  "file_create q k = (x, k') \<Longrightarrow> handle_ok p pc h k \<Longrightarrow> handle_ok p pc h k'"
  by (auto simp: file_create_def handle_ok_def Let_def split: if_splits option.splits)

lemma handle_ok_created:
  assumes "file_create (lock_path p) k = (Some h, k')"
  shows "handle_ok p (BindOpened h) h k' \<and> h = fs_handle k"
  using assms by (auto simp: file_create_def handle_ok_def Let_def split: if_splits option.splits)

lemma handle_ok_lock:
  "file_try_lock h' k = (x, k') \<Longrightarrow> handle_ok p pc h k \<Longrightarrow> handle_ok p pc h k'"
  by (auto simp: file_try_lock_def handle_ok_def split: option.splits)

lemma handle_ok_locked:
  "file_try_lock h k = (True, k') \<Longrightarrow> handle_ok p (BindOpened h) h k \<Longrightarrow> handle_ok p (BindLocked h) h k'"
  by (auto simp: file_try_lock_def handle_ok_def split: option.splits)

lemma handle_ok_close:
  "h \<noteq> h' \<Longrightarrow> handle_ok p pc h k \<Longrightarrow> handle_ok p pc h (file_close h' k)"
  by (auto simp: file_close_def handle_ok_def)

lemma handle_ok_pc: "handle_ok p pc h k \<Longrightarrow> holds_lock pc' \<longrightarrow> holds_lock pc \<Longrightarrow> handle_ok p pc' h k"
  by (auto simp: handle_ok_def)

lemma bind_inv_close:
  assumes inv: "bind_inv P s" and h: "bind_handle (bs_pcs s t) = Some h"
    and k: "\<And>u g. u \<noteq> t \<Longrightarrow> bind_handle (bs_pcs s u) = Some g \<Longrightarrow>
      handle_ok (P u) (bs_pcs s u) g (bs_kern s) \<Longrightarrow> handle_ok (P u) (bs_pcs s u) g k"
  shows "bind_inv P (s\<lparr>bs_pcs := (bs_pcs s)(t := BindIdle), bs_kern := file_close h k\<rparr>)"
proof (rule bind_inv_move [OF inv])
  fix u g assume u: "u \<noteq> t" "bind_handle (bs_pcs s u) = Some g"
    and ok: "handle_ok (P u) (bs_pcs s u) g (bs_kern s)"
  have "g \<noteq> h" using bind_invD(3) [OF inv h] u by blast
  then show "handle_ok (P u) (bs_pcs s u) g (file_close h k)" using k [OF u ok] handle_ok_close by blast
qed simp_all

lemma bind_inv_binder:
  assumes law: "fs_law N" and apart: "\<And>t u. P t \<noteq> lock_path (P u)" and inv: "bind_inv P s"
    and alive: "\<And>h d. bs_pcs s t \<noteq> Bound h d"
    and stp: "binder_step N (P t) (bs_pcs s t) (bs_kern s) = (pc, k)"
  shows "bind_inv P (s\<lparr>bs_pcs := (bs_pcs s)(t := pc), bs_kern := k\<rparr>)"
proof -
  have uniq: "bind_handle (bs_pcs s u) \<noteq> Some h" if "bind_handle (bs_pcs s t) = Some h" "u \<noteq> t" for u h
    using bind_invD(3) [OF inv that(1)] that(2) by blast
  have keep: "handle_ok (P u) (bs_pcs s u) g k'" if "fs_same_but (P t) (bs_kern s) k'"
    "handle_ok (P u) (bs_pcs s u) g (bs_kern s)" for u g k'
    using handle_ok_same_but [OF that(1) _ that(2)] apart [of t u] by metis
  show ?thesis
  proof (cases "bs_pcs s t")
    case BindIdle
    show ?thesis
    proof (cases "file_create (lock_path (P t)) (bs_kern s)")
      case (Pair x k1)
      show ?thesis
      proof (cases x)
        case None
        with stp BindIdle Pair have "pc = BindIdle" "k = k1" by simp_all
        with Pair show ?thesis by (intro bind_inv_move [OF inv]) (auto intro: handle_ok_create)
      next
        case (Some h)
        with stp BindIdle Pair have e: "pc = BindOpened h" "k = k1" by simp_all
        from handle_ok_created [OF Pair [unfolded Some]]
        have new: "handle_ok (P t) (BindOpened h) h k1" "h = fs_handle (bs_kern s)" by blast+
        have "bind_handle (bs_pcs s u) \<noteq> Some h" for u
          using bind_invD(2) [OF inv, of u h] new(2) by (auto simp: handle_ok_def)
        with e new show ?thesis
          by (intro bind_inv_move [OF inv]) (auto intro: handle_ok_create [OF Pair])
      qed
    qed
  next
    case (BindOpened h)
    then have hh: "bind_handle (bs_pcs s t) = Some h" by simp
    from bind_invD(2) [OF inv hh] BindOpened have ok: "handle_ok (P t) (BindOpened h) h (bs_kern s)" by simp
    show ?thesis
    proof (cases "file_try_lock h (bs_kern s)")
      case (Pair x k1)
      show ?thesis
      proof (cases x)
        case True
        with stp BindOpened Pair have e: "pc = BindLocked h" "k = k1" by simp_all
        from Pair True have "file_try_lock h (bs_kern s) = (True, k1)" by simp
        with e uniq [OF hh] handle_ok_locked [OF _ ok] show ?thesis
          by (intro bind_inv_move [OF inv]) (auto intro: handle_ok_lock [OF Pair])
      next
        case False
        with stp BindOpened Pair have e: "pc = BindIdle" "k = file_close h k1" by simp_all
        show ?thesis unfolding e by (rule bind_inv_close [OF inv hh]) (rule handle_ok_lock [OF Pair])
      qed
    qed
  next
    case (BindLocked h)
    then have hh: "bind_handle (bs_pcs s t) = Some h" by simp
    have e: "pc = BindCleared h" "k = snd (remove_file (P t) (bs_kern s))" using stp BindLocked by simp_all
    have same: "fs_same_but (P t) (bs_kern s) k" unfolding e by (rule remove_file_same_but)
    show ?thesis
      using uniq [OF hh] handle_ok_pc [OF keep [OF same bind_invD(2) [OF inv hh]]] keep [OF same] e(1) BindLocked
      by (intro bind_inv_move [OF inv]) auto
  next
    case (BindCleared h)
    then have hh: "bind_handle (bs_pcs s t) = Some h" by simp
    obtain x k1 where x: "wire_bind N (P t) (bs_kern s) = (x, k1)" by fastforce
    note same = wire_bind_fs [OF law x]
    show ?thesis
    proof (cases x)
      case (Inl e')
      with stp BindCleared x have e: "pc = BindIdle" "k = file_close h k1" by simp_all
      show ?thesis unfolding e by (rule bind_inv_close [OF inv hh]) (rule keep [OF same])
    next
      case (Inr d)
      with stp BindCleared x have e: "pc = BindListening h d" "k = k1" by simp_all
      show ?thesis
        using uniq [OF hh] handle_ok_pc [OF keep [OF same bind_invD(2) [OF inv hh]]] keep [OF same] e BindCleared
        by (intro bind_inv_move [OF inv]) auto
    qed
  next
    case (BindListening h d)
    then have hh: "bind_handle (bs_pcs s t) = Some h" by simp
    obtain x k1 where x: "reactive_new N d (bs_kern s) = (x, k1)" by fastforce
    note same = fs_same_but [OF reactive_new_fs [OF law x], of "P t"]
    show ?thesis
    proof (cases x)
      case (Inl e')
      with stp BindListening x have e: "pc = BindIdle" "k = file_close h k1" by simp_all
      show ?thesis unfolding e by (rule bind_inv_close [OF inv hh]) (rule keep [OF same])
    next
      case (Inr d')
      with stp BindListening x have e: "pc = Bound h d'" "k = k1" by simp_all
      show ?thesis
        using uniq [OF hh] handle_ok_pc [OF keep [OF same bind_invD(2) [OF inv hh]]] keep [OF same] e BindListening
        by (intro bind_inv_move [OF inv]) auto
    qed
  qed (use alive bind_invD(1) [OF inv, of t] in auto)
qed

lemma bind_inv_step:
  assumes law: "fs_law N" and apart: "\<And>t u. P t \<noteq> lock_path (P u)" and inv: "bind_inv P s"
    and stp: "bind_step False N P s s'"
  shows "bind_inv P s'"
  using stp
proof (cases rule: bind_step.cases)
  case (step_binder t pc k)
  then show ?thesis unfolding step_binder(1) by (intro bind_inv_binder [OF law apart inv]) blast+
next
  case (step_crash t h)
  show ?thesis unfolding step_crash(1) by (rule bind_inv_close [OF inv step_crash(2)])
qed

interpretation binders: state_machine "bind_init k" "bind_step False N P"
  "\<lambda>s. fs_law N \<and> (\<forall>t u. P t \<noteq> lock_path (P u)) \<longrightarrow> bind_inv P s"
  for k :: "'m fsys_scheme" and N :: "('m fsys_scheme) net" and P
  by unfold_locales (auto intro: bind_inv_init bind_inv_step)

section \<open>Properties of concurrent binders\<close>

text \<open>C24: two binders never hold one path. However any number of calls of \<^verbatim>\<open>new\<close> interleave at
  their system calls, and whichever of them crash or fail at any point, at most one is past
  the lock of a path at a time, bound or on the way there, as long as no binding is dropped
  and nobody binds at another's lock file.\<close>

theorem one_binder_per_path:
  assumes "fs_law N" and "\<forall>t u. P t \<noteq> lock_path (P u)"
    and "reach (bind_init k) (bind_step False N P) s"
    and "holds_lock (bs_pcs s t)" and "holds_lock (bs_pcs s u)" and "P t = P u"
  shows "t = u"
proof -
  have inv: "bind_inv P s" using binders.reach_inv [OF assms(3)] assms(1,2) by blast
  from assms(4) obtain h where h: "bind_handle (bs_pcs s t) = Some h" by (cases "bs_pcs s t") auto
  from assms(5) obtain g where g: "bind_handle (bs_pcs s u) = Some g" by (cases "bs_pcs s u") auto
  from bind_invD(2) [OF inv h] bind_invD(2) [OF inv g] assms(4-6) have "h = g"
    by (auto simp: handle_ok_def)
  with bind_invD(3) [OF inv h] g show ?thesis by simp
qed

text \<open>A schedule of threads 0 and 1 at one path, where nobody crashes.\<close>

fun bind_acts :: "nat list \<Rightarrow> fsys bind_sys \<Rightarrow> fsys bind_sys" where
  "bind_acts [] s = s"
| "bind_acts (t # ts) s =
     (case binder_step sample_fs_net ''/s'' (bs_pcs s t) (bs_kern s) of
        (pc, k) \<Rightarrow> bind_acts ts (s\<lparr>bs_pcs := (bs_pcs s)(t := pc), bs_kern := k\<rparr>))"

fun no_drop_acts :: "nat list \<Rightarrow> fsys bind_sys \<Rightarrow> bool" where
  "no_drop_acts [] s = True"
| "no_drop_acts (t # ts) s \<longleftrightarrow>
     (case bs_pcs s t of Bound h d \<Rightarrow> False | _ \<Rightarrow> True) \<and> no_drop_acts ts (bind_acts [t] s)"

lemma bind_acts_reach:
  "reach i (bind_step drops sample_fs_net (\<lambda>_. ''/s'')) s \<Longrightarrow> drops \<or> no_drop_acts ts s \<Longrightarrow>
   reach i (bind_step drops sample_fs_net (\<lambda>_. ''/s'')) (bind_acts ts s)"
proof (induction ts arbitrary: s)
  case (Cons t ts)
  obtain pc k where st: "binder_step sample_fs_net ''/s'' (bs_pcs s t) (bs_kern s) = (pc, k)" by fastforce
  have drp: "drops" if "bs_pcs s t = Bound h d" for h d using that Cons.prems(2) by simp
  have move: "bind_step drops sample_fs_net (\<lambda>_. ''/s'') s
      (s\<lparr>bs_pcs := (bs_pcs s)(t := pc), bs_kern := k\<rparr>)"
    by (rule step_binder [where P = "\<lambda>_. ''/s''" and t = t and s = s and pc = pc and k = k,
          OF drp st]) assumption
  have "drops \<or> no_drop_acts ts (s\<lparr>bs_pcs := (bs_pcs s)(t := pc), bs_kern := k\<rparr>)"
    using Cons.prems(2) by (simp only: no_drop_acts.simps bind_acts.simps st prod.case simp_thms) blast
  moreover have "reach i (bind_step drops sample_fs_net (\<lambda>_. ''/s''))
      (s\<lparr>bs_pcs := (bs_pcs s)(t := pc), bs_kern := k\<rparr>)"
    by (rule reach_step [OF Cons.prems(1)]) (rule move)
  ultimately show ?case using Cons.IH
    by (simp only: bind_acts.simps st prod.case)
qed simp

lemmas bind_run_defs =
  bind_init_def file_create_def file_try_lock_def file_close_def remove_file_def lock_path_def
  stale_fs_def wire_bind_def reactive_new_def sample_fs_net_def io_defs Let_def

text \<open>Both threads open the lock file; thread 0 gets the lock and binds.\<close>

definition contended :: "fsys bind_sys" where
  "contended = bind_acts [0, 1, 0, 0, 0, 0] (bind_init stale_fs)"

lemma contended_facts: "bs_pcs contended 0 = Bound 0 50" "bs_pcs contended 1 = BindOpened 1"
  by (simp_all add: contended_def bind_run_defs)

lemma contended_reach:
  "reach (bind_init stale_fs) (bind_step False sample_fs_net (\<lambda>_. ''/s'')) contended"
  unfolding contended_def
  by (rule bind_acts_reach [OF reach_init]) (simp add: bind_run_defs)

theorem one_binder_per_path_witness:
  "\<not> holds_lock (bs_pcs contended 1)"
proof
  assume "holds_lock (bs_pcs contended 1)"
  with one_binder_per_path [OF sample_fs_law _ contended_reach, of 0 1] contended_facts
  show False by (simp add: lock_path_def)
qed

text \<open>Thread 0 has bound and is in the middle of its \<^verbatim>\<open>drop\<close>.\<close>

definition half_dropped :: "fsys bind_sys" where
  "half_dropped =
     \<lparr>bs_kern = stale_fs\<lparr>fs_names := [''/s'' \<mapsto> 0], fs_handle := 1, fs_files := [0 \<mapsto> 4],
        fs_locks := [4 \<mapsto> 0]\<rparr>,
      bs_pcs = (\<lambda>_. BindIdle)(0 := DropLockGone 0 50)\<rparr>"

lemma half_dropped_run: "bind_acts [0, 0, 0, 0, 0, 0, 0] (bind_init stale_fs) = half_dropped"
  by (simp add: half_dropped_def bind_run_defs fun_upd_twist)

text \<open>C26: dropping a binding can take out its successor. \<^verbatim>\<open>drop\<close> removes the name of the lock
  file while it still has to remove the path; in a reachable run a second \<^verbatim>\<open>new\<close> between the
  two removals makes a new lock file, locks it and binds, and the first \<^verbatim>\<open>drop\<close> then removes
  the path of the live second binding, so that nobody can connect to it.\<close>

theorem late_drop_unlinks_successor:
  "\<exists>s. reach (bind_init stale_fs) (bind_step True sample_fs_net (\<lambda>_. ''/s'')) s \<and>
     bs_pcs s 1 = Bound 1 50 \<and> fs_names (bs_kern s) ''/s'' = None"
proof (intro exI conjI)
  let ?s = "bind_acts [1, 1, 1, 1, 1, 0] half_dropped"
  have "reach (bind_init stale_fs) (bind_step True sample_fs_net (\<lambda>_. ''/s'')) half_dropped"
    unfolding half_dropped_run [symmetric] by (rule bind_acts_reach [OF reach_init]) simp
  then show "reach (bind_init stale_fs) (bind_step True sample_fs_net (\<lambda>_. ''/s'')) ?s"
    by (rule bind_acts_reach) simp
  show "bs_pcs ?s 1 = Bound 1 50" "fs_names (bs_kern ?s) ''/s'' = None"
    by (simp_all add: half_dropped_def bind_run_defs)
qed

end
