(* ===== verification/Ipc_Bytes.thy ===== *)
theory Ipc_Bytes
  imports Ipc_Prelude
begin

text \<open>
  The parts of \<^verbatim>\<open>core\<close> that the example programs encode with: \<^verbatim>\<open>to_le_bytes\<close> and
  \<^verbatim>\<open>from_le_bytes\<close> of the unsigned integers, and range indexing of slices, which panics out of
  range and is \<open>None\<close> here.
\<close>

section \<open>Little-endian integers\<close>

fun le_digits :: "nat \<Rightarrow> nat \<Rightarrow> u8 list" where
  "le_digits 0 v = []"
| "le_digits (Suc n) v = of_nat v # le_digits n (v div 256)"

fun le_value :: "u8 list \<Rightarrow> nat" where
  "le_value [] = 0"
| "le_value (b # bs) = unat b + 256 * le_value bs"

definition to_le_bytes :: "'w::len word \<Rightarrow> u8 list" where
  "to_le_bytes w = le_digits (LENGTH('w) div 8) (unat w)"

definition from_le_bytes :: "u8 list \<Rightarrow> 'w::len word" where
  "from_le_bytes bs = of_nat (le_value bs)"

lemma length_le_digits [simp]: "length (le_digits n v) = n"
  by (induction n v rule: le_digits.induct) auto

lemma length_to_le_bytes [simp]: "length (to_le_bytes (w :: 'w::len word)) = LENGTH('w) div 8"
  by (simp add: to_le_bytes_def)

lemma le_value_digits: "le_value (le_digits n v) = v mod 256 ^ n"
proof (induction n v rule: le_digits.induct)
  case (2 n v)
  have "unat (of_nat v :: u8) = v mod 256" by (simp add: unsigned_of_nat take_bit_eq_mod)
  moreover have "v mod 256 ^ Suc n = v mod 256 + 256 * (v div 256 mod 256 ^ n)"
    by (metis add.commute mod_mult2_eq power_Suc)
  ultimately show ?case using 2 by simp
qed simp

lemma le_digits_value: "le_digits (length bs) (le_value bs) = bs"
proof (induction bs)
  case (Cons b bs)
  have lt: "unat b < 256" using unsigned_less [of b] by simp
  then have "(unat b + 256 * le_value bs) div 256 = le_value bs" by simp
  moreover have "(of_nat (unat b + 256 * le_value bs) :: u8) = b"
  proof (rule word_unat_eq_iff [THEN iffD2])
    have "unat (of_nat (unat b + 256 * le_value bs) :: u8) = (unat b + 256 * le_value bs) mod 256"
      by (simp only: unsigned_of_nat take_bit_eq_mod) simp
    with lt show "unat (of_nat (unat b + 256 * le_value bs) :: u8) = unat b" by simp
  qed
  ultimately show ?case using Cons by (simp del: of_nat_add of_nat_mult)
qed simp

lemma le_value_less: "le_value bs < 256 ^ length bs"
proof (induction bs)
  case (Cons b bs)
  have "unat b < 256" using unsigned_less [of b] by simp
  with Cons show ?case by simp
qed simp

lemma from_to_le_bytes:
  assumes "LENGTH('w::len) = 8 * n"
  shows "from_le_bytes (to_le_bytes (w :: 'w word)) = w"
proof -
  have "unat w < 256 ^ n" using unsigned_less [of w] assms by (simp add: power_mult)
  with assms show ?thesis by (simp add: from_le_bytes_def to_le_bytes_def le_value_digits)
qed

lemma to_from_le_bytes:
  assumes "LENGTH('w::len) = 8 * length bs"
  shows "to_le_bytes (from_le_bytes bs :: 'w word) = bs"
proof -
  have "le_value bs < 2 ^ LENGTH('w)" using le_value_less [of bs] assms by (simp add: power_mult)
  then have "unat (from_le_bytes bs :: 'w word) = le_value bs"
    by (simp add: from_le_bytes_def unsigned_of_nat take_bit_nat_eq_self)
  with assms show ?thesis by (simp add: to_le_bytes_def le_digits_value)
qed

section \<open>Slices\<close>

text \<open>\<^verbatim>\<open>xs[a..b]\<close>, and copying into that range a list of its length.\<close>

definition slice_get :: "nat \<Rightarrow> nat \<Rightarrow> 'a list \<Rightarrow> 'a list option" where
  "slice_get a b xs = (if a \<le> b \<and> b \<le> length xs then Some (take (b - a) (drop a xs)) else None)"

definition copy_into :: "nat \<Rightarrow> 'a list \<Rightarrow> 'a list \<Rightarrow> 'a list option" where
  "copy_into a ys xs =
     (if a + length ys \<le> length xs then Some (take a xs @ ys @ drop (a + length ys) xs) else None)"

lemma slice_copy_same:
  "copy_into a ys xs = Some zs \<Longrightarrow> slice_get a (a + length ys) zs = Some ys"
  by (auto simp: copy_into_def slice_get_def split: if_splits)

lemma length_copy_into: "copy_into a ys xs = Some zs \<Longrightarrow> length zs = length xs"
  by (auto simp: copy_into_def split: if_splits)

lemma copy_into_nth:
  assumes "copy_into a ys xs = Some zs" and "i < length xs"
  shows "zs ! i = (if a \<le> i \<and> i < a + length ys then ys ! (i - a) else xs ! i)"
  using assms by (auto simp: copy_into_def nth_append split: if_splits)

lemma slice_copy_other:
  assumes "copy_into a ys xs = Some zs" and "d \<le> a \<or> a + length ys \<le> c"
  shows "slice_get c d zs = slice_get c d xs"
proof (cases "c \<le> d \<and> d \<le> length xs")
  case True
  have "take (d - c) (drop c zs) = take (d - c) (drop c xs)"
    using True assms copy_into_nth [OF assms(1)] length_copy_into [OF assms(1)]
    by (intro nth_equalityI) auto
  with length_copy_into [OF assms(1)] show ?thesis by (simp add: slice_get_def)
next
  case False
  with length_copy_into [OF assms(1)] show ?thesis by (auto simp: slice_get_def)
qed

end
