(* ===== verification/Ipc_Ordering.thy ===== *)
theory Ipc_Ordering
  imports Ipc_Bytes Ipc_End_To_End
begin

text \<open>
  \<^verbatim>\<open>examples/ordering.rs\<close>, the repository's own check of the send path: the sequenced messages,
  the loop that sends them with \<^verbatim>\<open>try_send\<close>, the handler that looks for gaps, and the verdict;
  and that the verdict is exact.
\<close>

section \<open>The receiving side\<close>

definition MESSAGES :: u32 where
  "MESSAGES = 500000"

definition PAYLOAD :: nat where
  "PAYLOAD = 4096"

record seq_checker =
  sq_next_expected :: u64
  sq_out_of_order :: u64
  sq_first_violation :: "(u64 \<times> u64) option"
  sq_received :: u64
  sq_fds_seen :: u64
  sq_payload_corrupt :: u64

definition seq_checker_new :: seq_checker where
  "seq_checker_new =
     \<lparr>sq_next_expected = 0, sq_out_of_order = 0, sq_first_violation = None, sq_received = 0,
      sq_fds_seen = 0, sq_payload_corrupt = 0\<rparr>"

text \<open>\<^verbatim>\<open>(seq as u8).wrapping_mul(31)\<close>; the sender has \<open>seq\<close> as a \<^verbatim>\<open>u32\<close>, the handler as a \<^verbatim>\<open>u64\<close>.\<close>

definition seq_tag :: "'w::len word \<Rightarrow> u8" where
  "seq_tag seq = ucast seq * 31"

text \<open>
  The body of \<^verbatim>\<open>SeqChecker::handle\<close>, on its own state; false when the payload is too short to
  hold a sequence number, where \<^verbatim>\<open>data[..4]\<close> panics.
\<close>

definition seq_check :: "u8 list \<Rightarrow> fd list \<Rightarrow> seq_checker \<Rightarrow> bool \<times> seq_checker" where
  "seq_check data fds st =
     (let st1 = st\<lparr>sq_received := sq_received st + 1,
                   sq_fds_seen := sq_fds_seen st + of_nat (length fds)\<rparr>
      in case slice_get 0 4 data of
           None \<Rightarrow> (False, st1)
         | Some bs \<Rightarrow>
             (let seq = ucast (from_le_bytes bs :: u32) :: u64;
                  expected = sq_next_expected st1;
                  st2 = st1\<lparr>sq_next_expected := seq + 1\<rparr>;
                  st3 = (if seq \<noteq> expected
                         then st2\<lparr>sq_out_of_order := sq_out_of_order st2 + 1,
                                  sq_first_violation := (case sq_first_violation st2 of
                                      None \<Rightarrow> Some (expected, seq) | Some v \<Rightarrow> Some v)\<rparr>
                         else st2)
              in (True, if \<exists>b \<in> set (drop 4 data). b \<noteq> seq_tag seq
                        then st3\<lparr>sq_payload_corrupt := sq_payload_corrupt st3 + 1\<rparr> else st3)))"

text \<open>The whole handler: the descriptors are dropped at its end, or by the unwinding.\<close>

definition seq_handle :: "'k net \<Rightarrow> (seq_checker, 'k) handler" where
  "seq_handle N data fds creds = (\<lambda>(st, k).
     (case seq_check data fds st of
        (ok, st1) \<Rightarrow> (if ok then Returned data else Panicked, st1, close_all N fds k)))"

definition null_handle :: "'k net \<Rightarrow> ('s, 'k) handler" where
  "null_handle N data fds creds = (\<lambda>(s, k). (Returned data, s, close_all N fds k))"

section \<open>The sending side\<close>

definition seq_data :: "u32 \<Rightarrow> u8 list" where
  "seq_data seq = the (copy_into 0 (to_le_bytes seq) (replicate PAYLOAD (seq_tag seq)))"

definition seq_message :: "addr \<Rightarrow> u32 \<Rightarrow> 'o ref_heap \<Rightarrow> message \<times> 'o ref_heap" where
  "seq_message cap seq h = add_ref cap (message_from_data (seq_data seq), h)"

text \<open>
  The inner loop: \<^verbatim>\<open>try_send\<close> until it is not \<open>Full\<close>. Each element of \<open>ws\<close> is what the rest of
  the program does while the sender yields; \<open>None\<close> is "still yielding", and the count is that of
  \<^verbatim>\<open>queue_full\<close>.
\<close>

fun seq_push ::
  "('k, 'c) ref_env \<Rightarrow> message \<Rightarrow> (('k, 'c) ref_shared \<Rightarrow> ('k, 'c) ref_shared) list \<Rightarrow> u64 \<Rightarrow>
   ('k, 'c) ref_shared \<Rightarrow> unit outcome option \<times> u64 \<times> ('k, 'c) ref_shared" where
  "seq_push E m ws full sh =
     (case ref_try_send E m sh of
        (Panicked, sh1) \<Rightarrow> (Some Panicked, full, sh1)
      | (Returned (Inr _), sh1) \<Rightarrow> (Some (Returned ()), full, sh1)
      | (Returned (Inl (TryClosed _)), sh1) \<Rightarrow> (Some Panicked, full, sh1)
      | (Returned (Inl (TryTooLarge _)), sh1) \<Rightarrow> (Some Panicked, full, sh1)
      | (Returned (Inl (TryFull m')), sh1) \<Rightarrow>
          (case ws of
             [] \<Rightarrow> (None, full + 1, sh1)
           | w # ws' \<Rightarrow> seq_push E m' ws' (full + 1) (w sh1)))"

declare seq_push.simps [simp del]

definition seq_verdict :: "seq_checker \<Rightarrow> bool" where
  "seq_verdict st \<longleftrightarrow>
     sq_received st = ucast MESSAGES \<and> sq_out_of_order st = 0 \<and> sq_payload_corrupt st = 0 \<and>
     sq_fds_seen st = sq_received st"

section \<open>What the checker counts\<close>

text \<open>
  A call as the checker sees it, against the sequence number it should have; the payload tail
  may have any length.
\<close>

definition seq_call_ok :: "nat \<Rightarrow> call \<Rightarrow> bool" where
  "seq_call_ok i c \<longleftrightarrow>
     (\<exists>n. fst c = to_le_bytes (of_nat i :: u32) @ replicate n (seq_tag (of_nat i :: u32)))"

abbreviation seq_checked :: "call list \<Rightarrow> seq_checker \<Rightarrow> seq_checker" where
  "seq_checked \<equiv> fold_calls (\<lambda>p fds st. snd (seq_check p fds st))"

definition seq_good :: "call \<Rightarrow> bool" where
  "seq_good c \<longleftrightarrow> 4 \<le> length (fst c)"

definition call_seq :: "call \<Rightarrow> u32" where
  "call_seq c = from_le_bytes (take 4 (fst c))"

lemma seq_tag_ucast: "seq_tag (ucast (s :: u32) :: u64) = seq_tag s"
proof -
  have "ucast (ucast s :: u64) = (ucast s :: u8)"
    by transfer simp
  then show ?thesis by (simp add: seq_tag_def)
qed

lemma seq_data_eq: "seq_data s = to_le_bytes s @ replicate 4092 (seq_tag s)"
proof -
  have "seq_data s = to_le_bytes s @ drop 4 (replicate PAYLOAD (seq_tag s))"
    by (simp add: seq_data_def copy_into_def PAYLOAD_def del: drop_replicate)
  then show ?thesis by (simp add: PAYLOAD_def)
qed

lemma length_seq_data: "length (seq_data s) = PAYLOAD"
  by (simp add: seq_data_eq PAYLOAD_def)

fun seq_gaps :: "u64 \<Rightarrow> call list \<Rightarrow> nat" where
  "seq_gaps e [] = 0"
| "seq_gaps e (c # cs) =
     (if ucast (call_seq c) \<noteq> e then 1 else 0) + seq_gaps (ucast (call_seq c) + 1) cs"

definition seq_corrupt :: "call \<Rightarrow> bool" where
  "seq_corrupt c \<longleftrightarrow> (\<exists>b \<in> set (drop 4 (fst c)). b \<noteq> seq_tag (call_seq c))"

lemma seq_checked_counts:
  assumes "\<forall>c \<in> set cs. 4 \<le> length (fst c)"
  shows "sq_received (seq_checked cs st) = sq_received st + of_nat (length cs) \<and>
    sq_fds_seen (seq_checked cs st) =
      sq_fds_seen st + of_nat (sum_list (map (\<lambda>c. length (fst (snd c))) cs)) \<and>
    sq_out_of_order (seq_checked cs st) =
      sq_out_of_order st + of_nat (seq_gaps (sq_next_expected st) cs) \<and>
    sq_payload_corrupt (seq_checked cs st) =
      sq_payload_corrupt st + of_nat (length (filter seq_corrupt cs))"
  using assms
proof (induction cs arbitrary: st)
  case (Cons c cs)
  obtain p fs cr where c: "c = (p, fs, cr)" by (metis prod.exhaust)
  let ?st = "snd (seq_check p fs st)"
  have "4 \<le> length p" using Cons.prems c by simp
  then have step: "sq_received ?st = sq_received st + 1 \<and>
      sq_fds_seen ?st = sq_fds_seen st + of_nat (length fs) \<and>
      sq_next_expected ?st = ucast (call_seq c) + 1 \<and>
      sq_out_of_order ?st = sq_out_of_order st + (if ucast (call_seq c) \<noteq> sq_next_expected st then 1 else 0) \<and>
      sq_payload_corrupt ?st = sq_payload_corrupt st + (if seq_corrupt c then 1 else 0)"
    using c by (simp add: seq_check_def Let_def slice_get_def call_seq_def seq_corrupt_def seq_tag_ucast)
  have "seq_checked (c # cs) st = seq_checked cs ?st" by (simp add: c fold_calls_def)
  with Cons.IH [of ?st] Cons.prems step show ?case by (simp add: c add.assoc)
qed (simp add: fold_calls_def)

lemma seq_gaps_le: "seq_gaps e cs \<le> length cs"
  by (induction cs arbitrary: e) (auto intro: le_SucI)

lemma of_nat_u64_eq: "a < 2 ^ 64 \<Longrightarrow> b < 2 ^ 64 \<Longrightarrow> (of_nat a :: u64) = of_nat b \<longleftrightarrow> a = b"
  by (simp add: word_of_nat_eq_iff take_bit_nat_eq_self)

lemma seq_gaps_zero:
  "seq_gaps e cs = 0 \<longleftrightarrow> (\<forall>i < length cs. ucast (call_seq (cs ! i)) = e + of_nat i)"
proof (induction cs arbitrary: e)
  case (Cons c cs)
  have "(\<forall>i < length (c # cs). ucast (call_seq ((c # cs) ! i)) = e + of_nat i) \<longleftrightarrow>
      ucast (call_seq c) = e \<and> (\<forall>i < length cs. ucast (call_seq (cs ! i)) = e + 1 + of_nat i)"
    by (simp add: All_less_Suc2 algebra_simps)
  with Cons.IH show ?case by auto
qed simp

lemma call_seq_eq:
  assumes "i < 2 ^ 32"
  shows "(ucast (call_seq c) :: u64) = of_nat i \<longleftrightarrow> call_seq c = of_nat i"
proof
  assume "(ucast (call_seq c) :: u64) = of_nat i"
  then have "unat (ucast (call_seq c) :: u64) = unat (of_nat i :: u64)" by simp
  moreover have "unat (ucast (call_seq c) :: u64) = unat (call_seq c)"
  proof -
    have "unat (call_seq c) < 2 ^ 64" using unsigned_less [where 'a = nat, of "call_seq c"] by simp
    then show ?thesis by (simp add: unsigned_ucast_eq take_bit_nat_eq_self)
  qed
  moreover have "unat (of_nat i :: u64) = i" using assms by (simp add: unsigned_of_nat take_bit_nat_eq_self)
  ultimately have "i = unat (call_seq c)" by simp
  then show "call_seq c = of_nat i" by simp
next
  assume c: "call_seq c = of_nat i"
  show "(ucast (call_seq c) :: u64) = of_nat i"
    using assms by (intro word_unat_eq_iff [THEN iffD2])
      (simp add: c unsigned_ucast_eq unsigned_of_nat take_bit_nat_eq_self)
qed

lemma seq_call_ok_iff:
  assumes "4 \<le> length (fst c)"
  shows "seq_call_ok i c \<longleftrightarrow> call_seq c = of_nat i \<and> \<not> seq_corrupt c"
proof
  assume "seq_call_ok i c"
  then obtain n where n: "fst c = to_le_bytes (of_nat i :: u32) @ replicate n (seq_tag (of_nat i :: u32))"
    by (auto simp: seq_call_ok_def)
  then have "call_seq c = of_nat i" by (simp add: call_seq_def from_to_le_bytes)
  with n show "call_seq c = of_nat i \<and> \<not> seq_corrupt c" by (simp add: seq_corrupt_def)
next
  assume r: "call_seq c = of_nat i \<and> \<not> seq_corrupt c"
  have "to_le_bytes (call_seq c) = take 4 (fst c)"
    unfolding call_seq_def using assms by (intro to_from_le_bytes) (simp add: min_def)
  moreover have "drop 4 (fst c) = replicate (length (fst c) - 4) (seq_tag (call_seq c))"
    using r by (intro replicate_eqI) (auto simp: seq_corrupt_def)
  ultimately show "seq_call_ok i c" using r unfolding seq_call_ok_def
    by (metis append_take_drop_id)
qed

lemma seq_call_ok_length: "seq_call_ok i c \<Longrightarrow> 4 \<le> length (fst c)"
  by (auto simp: seq_call_ok_def)

lemma seq_checked_ok:
  assumes "\<forall>c \<in> set cs. 4 \<le> length (fst c)" and "length cs = 500000"
    and "sum_list (map (\<lambda>c. length (fst (snd c))) cs) < 2 ^ 64"
  shows "seq_verdict (seq_checked cs seq_checker_new) \<longleftrightarrow>
    (\<forall>i < length cs. seq_call_ok i (cs ! i)) \<and>
    sum_list (map (\<lambda>c. length (fst (snd c))) cs) = 500000"
proof -
  let ?st = "seq_checked cs seq_checker_new" and ?fds = "sum_list (map (\<lambda>c. length (fst (snd c))) cs)"
  note C = seq_checked_counts [OF assms(1), of seq_checker_new]
  have gaps: "sq_out_of_order ?st = 0 \<longleftrightarrow> (\<forall>i < length cs. call_seq (cs ! i) = of_nat i)"
  proof -
    have "seq_gaps 0 cs < 2 ^ 64" using seq_gaps_le [of 0 cs] assms(2) by simp
    then have "sq_out_of_order ?st = 0 \<longleftrightarrow> seq_gaps 0 cs = 0"
      using of_nat_u64_eq [of "seq_gaps 0 cs" 0] C by (simp add: seq_checker_new_def)
    with assms(2) show ?thesis by (simp add: seq_gaps_zero call_seq_eq)
  qed
  have corrupt: "sq_payload_corrupt ?st = 0 \<longleftrightarrow> (\<forall>i < length cs. \<not> seq_corrupt (cs ! i))"
  proof -
    have "length (filter seq_corrupt cs) < 2 ^ 64"
      using length_filter_le [of seq_corrupt cs] assms(2) by (simp del: length_filter_le)
    then have "sq_payload_corrupt ?st = 0 \<longleftrightarrow> length (filter seq_corrupt cs) = 0"
      using of_nat_u64_eq [of "length (filter seq_corrupt cs)" 0] C by (simp add: seq_checker_new_def)
    then show ?thesis by (simp add: filter_empty_conv all_set_conv_all_nth)
  qed
  have "sq_received ?st = of_nat 500000" "sq_fds_seen ?st = of_nat ?fds"
    using C assms(2) by (simp_all add: seq_checker_new_def)
  then have counts: "sq_received ?st = ucast MESSAGES \<and> sq_fds_seen ?st = sq_received ?st \<longleftrightarrow> ?fds = 500000"
    using of_nat_u64_eq [OF assms(3), of 500000] by (simp add: MESSAGES_def)
  have ok: "seq_call_ok i (cs ! i) \<longleftrightarrow> call_seq (cs ! i) = of_nat i \<and> \<not> seq_corrupt (cs ! i)"
    if "i < length cs" for i using seq_call_ok_iff assms(1) that by auto
  show ?thesis unfolding seq_verdict_def using gaps corrupt counts ok by auto
qed


section \<open>Properties\<close>

text \<open>C39: the verdict is exact about what it looks at. For any calls of the handler whose payloads
  hold a sequence number, it is PASS exactly when there were as many calls as messages, the
  \<open>i\<close>-th carried sequence number \<open>i\<close> and then nothing but its tag, and as many descriptors as
  messages arrived in all; which call they arrived with, and how long a payload was, it does
  not see.\<close>

theorem seq_verdict_exact:
  assumes "\<forall>c \<in> set calls. 4 \<le> length (fst c)" and "length calls < 2 ^ 64"
    and "sum_list (map (\<lambda>c. length (fst (snd c))) calls) < 2 ^ 64"
  shows "seq_verdict (seq_checked calls seq_checker_new) \<longleftrightarrow>
    length calls = 500000 \<and>
    (\<forall>i < length calls. \<exists>n. fst (calls ! i) =
       to_le_bytes (of_nat i :: u32) @ replicate n (seq_tag (of_nat i :: u32))) \<and>
    sum_list (map (\<lambda>c. length (fst (snd c))) calls) = 500000"
proof (cases "length calls = 500000")
  case True
  with seq_checked_ok [OF assms(1) _ assms(3)] show ?thesis by (simp add: seq_call_ok_def)
next
  case False
  have "sq_received (seq_checked calls seq_checker_new) = of_nat (length calls)"
    using seq_checked_counts [OF assms(1), of seq_checker_new] by (simp add: seq_checker_new_def)
  with False of_nat_u64_eq [OF assms(2), of 500000] show ?thesis
    by (simp add: seq_verdict_def MESSAGES_def)
qed

definition seq_calls :: "nat \<Rightarrow> call list" where
  "seq_calls n = map (\<lambda>i. (seq_data (of_nat i), [7], None)) [0 ..< n]"

lemma seq_calls_fds: "sum_list (map (\<lambda>c. length (fst (snd c))) (seq_calls n)) = n"
  by (simp add: seq_calls_def o_def sum_list_triv)

theorem seq_verdict_exact_witness:
  "seq_verdict (seq_checked (seq_calls 500000) seq_checker_new) \<and>
   \<not> seq_verdict (seq_checked (seq_calls 499999) seq_checker_new)"
proof
  have len: "\<forall>c \<in> set (seq_calls n). 4 \<le> length (fst c)" for n
    by (auto simp: seq_calls_def length_seq_data PAYLOAD_def)
  show "seq_verdict (seq_checked (seq_calls 500000) seq_checker_new)"
    using seq_verdict_exact [OF len, of 500000]
    by (auto simp: seq_calls_fds seq_data_eq) (auto simp: seq_calls_def seq_data_eq)
  show "\<not> seq_verdict (seq_checked (seq_calls 499999) seq_checker_new)"
    using seq_verdict_exact [OF len, of 499999] by (simp add: seq_calls_fds) (simp add: seq_calls_def)
qed

section \<open>The whole run\<close>

definition seq_messages :: "addr \<Rightarrow> nat \<Rightarrow> message list" where
  "seq_messages cap n = map (\<lambda>i. fst (seq_message cap (of_nat i) (Map.empty :: unit ref_heap))) [0 ..< n]"

lemma seq_message_eq:
  "fst (seq_message cap s h) = \<lparr>msg_data = seq_data s, msg_fds = [SharedRef cap]\<rparr>"
  by (simp add: seq_message_def message_defs)

lemma seq_messages_calls:
  assumes "map call_datagram calls = map (\<lambda>m. (message_data m, length (message_fds m))) (seq_messages cap n)"
  shows "length calls = n" and "i < n \<Longrightarrow> fst (calls ! i) = seq_data (of_nat i)"
    and "sum_list (map (\<lambda>c. length (fst (snd c))) calls) = n"
proof -
  have eq: "map call_datagram calls = map (\<lambda>i. (seq_data (of_nat i), 1)) [0 ..< n]"
    using assms by (simp add: seq_messages_def seq_message_eq message_defs o_def)
  show len: "length calls = n" using arg_cong [OF eq, of length] by simp
  show "fst (calls ! i) = seq_data (of_nat i)" if "i < n"
    using arg_cong [OF eq, of "\<lambda>xs. fst (xs ! i)"] that len by (simp add: call_datagram_def)
  have "map (\<lambda>c. length (fst (snd c))) calls = map snd (map call_datagram calls)"
    by (simp add: call_datagram_def)
  also have "\<dots> = replicate n 1" unfolding eq by (simp add: o_def map_replicate_const)
  finally show "sum_list (map (\<lambda>c. length (fst (snd c))) calls) = n" by (simp add: sum_list_replicate)
qed

lemma seq_handle_state: "fst (snd (seq_handle N p fs cr (s, k))) = snd (seq_check p fs s)"
  by (simp add: seq_handle_def split: prod.splits)

lemma seq_handle_hands_off:
  assumes "seqpacket_law N d q hung"
  shows "hands_off d q hung (seq_handle N)"
  using close_all_keeps [OF assms] by (simp add: hands_off_def seq_handle_def split: prod.splits)

lemma seq_handle_panics: "panics_on (seq_handle N) c \<Longrightarrow> length (fst c) < 4"
  by (auto simp: panics_on_def seq_handle_def seq_check_def slice_get_def Let_def
      split: prod.splits if_splits)



text \<open>On the small kernel, with room for all of them.\<close>

lemma sample_send_now:
  assumes "\<not> sk_gone k" and "length (sk_queue k) < sk_room k" and "length (message_fds m) \<le> MAX_FDS"
  shows "\<exists>fs. send_now sample_net borrow d m k = (Inr (), k\<lparr>sk_queue := sk_queue k @ [(message_data m, fs)]\<rparr>)"
  using assms
  by (auto simp: send_now_eq [OF sample_anc_law] io_defs control_of_def)
    (auto simp: sample_net_def sample_sendmsg_def Let_def io_defs)

lemma sample_send_all:
  "\<not> sk_gone k \<Longrightarrow> length (sk_queue k) + length ms \<le> sk_room k \<Longrightarrow>
   \<forall>m \<in> set ms. length (message_fds m) \<le> MAX_FDS \<Longrightarrow>
   \<exists>k'. send_all sample_net borrow d ms k = Some k'"
proof (induction ms arbitrary: k)
  case (Cons m ms)
  obtain fs where s: "send_now sample_net borrow d m k =
      (Inr (), k\<lparr>sk_queue := sk_queue k @ [(message_data m, fs)]\<rparr>)"
    using sample_send_now [of k m borrow d] Cons.prems by auto
  have "\<exists>k'. send_all sample_net borrow d ms (k\<lparr>sk_queue := sk_queue k @ [(message_data m, fs)]\<rparr>) = Some k'"
    using Cons.prems by (intro Cons.IH) simp_all
  with s show ?case by simp
qed simp


section \<open>The retry loop\<close>

text \<open>The loop that keeps its own copy of the message and throws away what \<open>Full\<close> hands back.\<close>

fun seq_push_copy ::
  "('k, 'c) ref_env \<Rightarrow> message \<Rightarrow> (('k, 'c) ref_shared \<Rightarrow> ('k, 'c) ref_shared) list \<Rightarrow> u64 \<Rightarrow>
   ('k, 'c) ref_shared \<Rightarrow> unit outcome option \<times> u64 \<times> ('k, 'c) ref_shared" where
  "seq_push_copy E m [] full sh =
     (case ref_try_send E m sh of
        (Returned (Inr _), sh1) \<Rightarrow> (Some (Returned ()), full, sh1)
      | (Returned (Inl (TryFull _)), sh1) \<Rightarrow> (None, full + 1, sh1)
      | (_, sh1) \<Rightarrow> (Some Panicked, full, sh1))"
| "seq_push_copy E m (w # ws) full sh =
     (case ref_try_send E m sh of
        (Returned (Inr _), sh1) \<Rightarrow> (Some (Returned ()), full, sh1)
      | (Returned (Inl (TryFull _)), sh1) \<Rightarrow> seq_push_copy E m ws (full + 1) (w sh1)
      | (_, sh1) \<Rightarrow> (Some Panicked, full, sh1))"

text \<open>Retrying with what \<open>Full\<close> hands back is retrying with the message itself, however often
  the queue was full and whatever the program did in between: the loop is the one that keeps a
  copy, so backpressure neither changes nor loses the message.\<close>

theorem retry_keeps_the_message:
  assumes "mpsc_law (env_mpsc E) V"
  shows "seq_push E m ws full sh = seq_push_copy E m ws full sh"
proof (induction ws arbitrary: full sh)
  case Nil
  show ?case
    by (subst seq_push.simps)
      (auto split: prod.splits outcome.splits sum.splits try_send_error.splits)
next
  case (Cons w ws)
  have same: "m' = m" if "ref_try_send E m sh = (Returned (Inl (TryFull m')), sh1)" for m' sh1
    using try_send_error_message [OF assms that] by simp
  show ?case
    by (subst seq_push.simps)
      (auto simp: Cons.IH dest: same split: prod.splits outcome.splits sum.splits try_send_error.splits)
qed

theorem retry_keeps_the_message_witness:
  "seq_push sample_env (plain 9) [\<lambda>sh. sh\<lparr>sh_outbox := None\<rparr>] 0 full_shared =
   seq_push_copy sample_env (plain 9) [\<lambda>sh. sh\<lparr>sh_outbox := None\<rparr>] 0 full_shared"
  by (rule retry_keeps_the_message [OF sample_env_law])

end
