(* ===== verification/Ipc_Echo.thy ===== *)
theory Ipc_Echo
  imports Ipc_Bytes Ipc_Node Ipc_Send Ipc_Registry_Props
begin

text \<open>
  The servers of \<^verbatim>\<open>examples/\<close>: handlers that answer on the capability a message carries. They
  are where references, sends and descriptors meet: a handler interns the first descriptor with
  \<^verbatim>\<open>Ref::from_owned_fd\<close>, may cache the reference, sends on it, and drops everything else.
\<close>

section \<open>Sending on a reference of the process\<close>

text \<open>
  \<^verbatim>\<open>try_send\<close> and \<^verbatim>\<open>send\<close> on the reference at address \<open>r\<close>: its own descriptor, captured
  runtime and outbox, in the store of references. \<open>rt\<close> is the caller's runtime.
\<close>

type_synonym 'c ref_box = "'c outbox \<times> fd"

definition cap_env ::
  "'k net \<Rightarrow> ('c, message) mpsc \<Rightarrow> nat option \<Rightarrow> 'o caps \<Rightarrow> 'o ref_inner \<Rightarrow> ('k, 'c) ref_env" where
  "cap_env N M rt s v =
     \<lparr>env_net = N, env_mpsc = M, env_borrow = ref_borrowed_fd (cp_heap s), env_fd = ri_fd v,
      env_runtime = ri_runtime v, env_current = rt, env_threads = 1\<rparr>"

definition cap_store :: "addr \<Rightarrow> 'o ref_cell \<Rightarrow> 'o option \<Rightarrow> 'o caps \<Rightarrow> 'o caps" where
  "cap_store r c b s = s\<lparr>cp_heap := (cp_heap s)(r \<mapsto> c\<lparr>inner := (inner c)\<lparr>ri_outbox := b\<rparr>\<rparr>)\<rparr>"

definition cap_try_send ::
  "'k net \<Rightarrow> ('c, message) mpsc \<Rightarrow> nat option \<Rightarrow> addr \<Rightarrow> message \<Rightarrow> 'c ref_box caps \<times> 'k \<Rightarrow>
   (unit, try_send_error) result outcome \<times> 'c ref_box caps \<times> 'k" where
  "cap_try_send N M rt r m = (\<lambda>(s, k).
     (case cp_heap s r of None \<Rightarrow> (Panicked, s, k)
      | Some c \<Rightarrow>
          (case ref_try_send (cap_env N M rt s (inner c)) m
                  \<lparr>sh_kern = k, sh_outbox = ri_outbox (inner c)\<rparr> of
             (res, sh) \<Rightarrow> (res, cap_store r c (sh_outbox sh) s, sh_kern sh))))"

definition cap_send ::
  "'k net \<Rightarrow> ('c, message) mpsc \<Rightarrow> nat option \<Rightarrow> addr \<Rightarrow> message \<Rightarrow> ('c outbox \<Rightarrow> 'c outbox) list \<Rightarrow>
   'c ref_box caps \<times> 'k \<Rightarrow> (unit, send_error) result outcome option \<times> 'c ref_box caps \<times> 'k" where
  "cap_send N M rt r m ws = (\<lambda>(s, k).
     (case cp_heap s r of None \<Rightarrow> (Some Panicked, s, k)
      | Some c \<Rightarrow>
          (case ref_send (cap_env N M rt s (inner c)) m ws
                  \<lparr>sh_kern = k, sh_outbox = ri_outbox (inner c)\<rparr> of
             (res, sh) \<Rightarrow> (res, cap_store r c (sh_outbox sh) s, sh_kern sh))))"

section \<open>Answering once\<close>

text \<open>
  \<^verbatim>\<open>EchoHandler\<close> of \<^verbatim>\<open>echo.rs\<close> and \<^verbatim>\<open>bound_echo.rs\<close>. No descriptor is a panic; the iterator
  over the others is a temporary and drops them; a failed \<^verbatim>\<open>try_send\<close> is a panic, which drops
  the reference too. \<open>new\<close> is the allocator.
\<close>

definition echo_reply ::
  "'k net \<Rightarrow> ('c, message) mpsc \<Rightarrow> nat option \<Rightarrow> ('c ref_box caps \<Rightarrow> addr) \<Rightarrow> fd \<Rightarrow> u8 list \<Rightarrow>
   'c ref_box caps \<times> 'k \<Rightarrow> unit outcome \<times> 'c ref_box caps \<times> 'k" where
  "echo_reply N M rt new d data = (\<lambda>(s, k).
     (case ref_from_owned_fd N rt (new s) d (s, k) of
        (r, s1, k1) \<Rightarrow>
          (case cap_try_send N M rt r (message_from_data data) (s1, k1) of
             (res, s2, k2) \<Rightarrow>
               (case res of Returned (Inr _) \<Rightarrow> Returned () | _ \<Rightarrow> Panicked,
                ref_drop N r (s2, k2)))))"

definition echo_handle ::
  "'k net \<Rightarrow> ('c, message) mpsc \<Rightarrow> nat option \<Rightarrow> ('c ref_box caps \<Rightarrow> addr) \<Rightarrow>
   ('c ref_box caps, 'k) handler" where
  "echo_handle N M rt new data fds creds = (\<lambda>(s, k).
     (case fds of
        [] \<Rightarrow> (Panicked, s, k)
      | d # rest \<Rightarrow>
          (case echo_reply N M rt new d data (s, close_all N rest k) of
             (Returned _, s1, k1) \<Rightarrow> (Returned data, s1, k1)
           | (Panicked, s1, k1) \<Rightarrow> (Panicked, s1, k1))))"

definition bound_echo_handle ::
  "'k net \<Rightarrow> ('c, message) mpsc \<Rightarrow> nat option \<Rightarrow> ('c ref_box caps \<Rightarrow> addr) \<Rightarrow>
   ('c ref_box caps, 'k) handler" where
  "bound_echo_handle N M rt new data fds creds = (\<lambda>(s, k).
     (case fds of
        [] \<Rightarrow> (Panicked, s, k)
      | d # rest \<Rightarrow>
          (case echo_reply N M rt new d data (s, close_all N rest k) of
             (Returned _, s1, k1) \<Rightarrow> (Returned data, s1, k1)
           | (Panicked, s1, k1) \<Rightarrow> (Panicked, s1, k1))))"

text \<open>
  \<^verbatim>\<open>String::from_utf8_lossy\<close>, as UTF-8 bytes: a maximal ill-formed prefix becomes one
  replacement character. \<open>utf8_step\<close> is the length of the next character or of the next ill-formed
  prefix, and whether it is a character.
\<close>

definition cont_byte :: "u8 list \<Rightarrow> nat \<Rightarrow> nat \<Rightarrow> nat \<Rightarrow> bool" where
  "cont_byte bs i lo hi \<longleftrightarrow> i < length bs \<and> lo \<le> unat (bs ! i) \<and> unat (bs ! i) \<le> hi"

definition utf8_step :: "u8 list \<Rightarrow> nat \<times> bool" where
  "utf8_step bs =
     (let b = unat (hd bs); tail = (\<lambda>i. cont_byte bs i 128 191)
      in if b < 128 then (1, True)
         else if 194 \<le> b \<and> b \<le> 223 then (if tail 1 then (2, True) else (1, False))
         else if 224 \<le> b \<and> b \<le> 239 then
           (if \<not> cont_byte bs 1 (if b = 224 then 160 else 128) (if b = 237 then 159 else 191)
            then (1, False)
            else if tail 2 then (3, True) else (2, False))
         else if 240 \<le> b \<and> b \<le> 244 then
           (if \<not> cont_byte bs 1 (if b = 240 then 144 else 128) (if b = 244 then 143 else 191)
            then (1, False)
            else if \<not> tail 2 then (2, False)
            else if tail 3 then (4, True) else (3, False))
         else (1, False))"

function utf8_lossy :: "u8 list \<Rightarrow> u8 list" where
  "utf8_lossy [] = []"
| "utf8_lossy (b # bs) =
     (case utf8_step (b # bs) of
        (n, True) \<Rightarrow> take n (b # bs) @ utf8_lossy (drop n (b # bs))
      | (n, False) \<Rightarrow> [239, 191, 189] @ utf8_lossy (drop n (b # bs)))"
  by pat_completeness auto
termination
  by (relation "measure length") (auto simp: utf8_step_def Let_def split: if_splits)

text \<open>\<^verbatim>\<open>bound_server.rs\<close>: no descriptor is reported and ignored; the reply is the lossy text.\<close>

definition bound_server_handle ::
  "'k net \<Rightarrow> ('c, message) mpsc \<Rightarrow> nat option \<Rightarrow> ('c ref_box caps \<Rightarrow> addr) \<Rightarrow>
   ('c ref_box caps, 'k) handler" where
  "bound_server_handle N M rt new data fds creds = (\<lambda>(s, k).
     (let text = utf8_lossy data
      in case fds of
           [] \<Rightarrow> (Returned data, s, k)
         | d # rest \<Rightarrow>
             (case echo_reply N M rt new d text (s, close_all N rest k) of
                (Returned _, s1, k1) \<Rightarrow> (Returned data, s1, k1)
              | (Panicked, s1, k1) \<Rightarrow> (Panicked, s1, k1))))"

text \<open>The reply handlers print the text and cancel a token, the state here; the descriptors drop.\<close>

definition echo_reply_handle :: "'k net \<Rightarrow> (bool, 'k) handler" where
  "echo_reply_handle N data fds creds = (\<lambda>(cancelled, k). (Returned data, True, close_all N fds k))"

definition client_reply_handle :: "'k net \<Rightarrow> (bool, 'k) handler" where
  "client_reply_handle N data fds creds = (\<lambda>(cancelled, k). (Returned data, True, close_all N fds k))"

section \<open>Answering on a cached capability\<close>

text \<open>
  The choice the servers of \<^verbatim>\<open>bench.rs\<close>, \<^verbatim>\<open>paced.rs\<close> and \<^verbatim>\<open>timeline.rs\<close> share: the first
  descriptor becomes the reply capability and replaces the cached one, which is dropped; without
  one the cached capability is cloned; the extra descriptors are dropped.
\<close>

definition cached_reply ::
  "'k net \<Rightarrow> nat option \<Rightarrow> ('o caps \<Rightarrow> addr) \<Rightarrow> fd list \<Rightarrow> addr option \<times> 'o caps \<times> 'k \<Rightarrow>
   addr option \<times> addr option \<times> 'o caps \<times> 'k" where
  "cached_reply N rt new fds = (\<lambda>(cached, s, k).
     (case fds of
        d # rest \<Rightarrow>
          (case ref_from_owned_fd N rt (new s) d (s, k) of
             (r, s1, k1) \<Rightarrow>
               (let s2 = s1\<lparr>cp_heap := ref_clone r (cp_heap s1)\<rparr>
                in case (case cached of None \<Rightarrow> (s2, k1) | Some old \<Rightarrow> ref_drop N old (s2, k1)) of
                     (s3, k3) \<Rightarrow> (Some r, Some r, s3, close_all N rest k3)))
      | [] \<Rightarrow>
          (case cached of
             None \<Rightarrow> (None, None, s, k)
           | Some r \<Rightarrow> (Some r, cached, s\<lparr>cp_heap := ref_clone r (cp_heap s)\<rparr>, k))))"

text \<open>Then the answer is sent, its outcome ignored, and the handler's own clone dropped.\<close>

datatype server_outcome = ServerDone | ServerExit | ServerWaiting | ServerPanicked

definition cached_answer ::
  "'k net \<Rightarrow> ('c, message) mpsc \<Rightarrow> nat option \<Rightarrow> addr \<Rightarrow> u8 list \<Rightarrow> ('c outbox \<Rightarrow> 'c outbox) list \<Rightarrow>
   'c ref_box caps \<times> 'k \<Rightarrow> server_outcome \<times> 'c ref_box caps \<times> 'k" where
  "cached_answer N M rt r data ws sk =
     (case cap_send N M rt r (message_from_data data) ws sk of
        (None, s1, k1) \<Rightarrow> (ServerWaiting, s1, k1)
      | (Some Panicked, s1, k1) \<Rightarrow> (ServerPanicked, ref_drop N r (s1, k1))
      | (Some (Returned _), s1, k1) \<Rightarrow> (ServerDone, ref_drop N r (s1, k1)))"

definition QUIT :: "u8 list" where
  "QUIT = [81, 85, 73, 84]"

definition bench_handle ::
  "'k net \<Rightarrow> ('c, message) mpsc \<Rightarrow> nat option \<Rightarrow> ('c ref_box caps \<Rightarrow> addr) \<Rightarrow> u8 list \<Rightarrow> fd list \<Rightarrow>
   ('c outbox \<Rightarrow> 'c outbox) list \<Rightarrow> addr option \<times> 'c ref_box caps \<times> 'k \<Rightarrow>
   server_outcome \<times> addr option \<times> 'c ref_box caps \<times> 'k" where
  "bench_handle N M rt new data fds ws st =
     (if data = QUIT then (ServerExit, st)
      else (case cached_reply N rt new fds st of
              (None, st1) \<Rightarrow> (ServerDone, st1)
            | (Some r, cached, sk) \<Rightarrow>
                (case cached_answer N M rt r data ws sk of (out, sk1) \<Rightarrow> (out, cached, sk1))))"

definition paced_handle ::
  "'k net \<Rightarrow> ('c, message) mpsc \<Rightarrow> nat option \<Rightarrow> ('c ref_box caps \<Rightarrow> addr) \<Rightarrow> u8 list \<Rightarrow> fd list \<Rightarrow>
   ('c outbox \<Rightarrow> 'c outbox) list \<Rightarrow> addr option \<times> 'c ref_box caps \<times> 'k \<Rightarrow>
   server_outcome \<times> addr option \<times> 'c ref_box caps \<times> 'k" where
  "paced_handle N M rt new data fds ws st =
     (if data = QUIT then (ServerExit, st)
      else (case cached_reply N rt new fds st of
              (None, st1) \<Rightarrow> (ServerDone, st1)
            | (Some r, cached, sk) \<Rightarrow>
                (case cached_answer N M rt r data ws sk of (out, sk1) \<Rightarrow> (out, cached, sk1))))"

section \<open>The server of fdcost.rs\<close>

record fdcost_server =
  fc_cached :: "addr option"
  fc_fds_seen :: u64
  fc_refs_built :: u64

definition OP_ESTABLISH :: u8 where "OP_ESTABLISH = 0"
definition OP_DROP_FD :: u8 where "OP_DROP_FD = 1"
definition OP_MAKE_REF :: u8 where "OP_MAKE_REF = 2"

text \<open>
  The first byte says whether the descriptor is promoted to a capability, and whether that is
  cached; the descriptors not taken are dropped at the end, or at once when none is promoted.
\<close>

definition fdcost_handle ::
  "'k net \<Rightarrow> ('c, message) mpsc \<Rightarrow> nat option \<Rightarrow> ('c ref_box caps \<Rightarrow> addr) \<Rightarrow> u8 list \<Rightarrow> fd list \<Rightarrow>
   ('c outbox \<Rightarrow> 'c outbox) list \<Rightarrow> fdcost_server \<times> 'c ref_box caps \<times> 'k \<Rightarrow>
   server_outcome \<times> fdcost_server \<times> 'c ref_box caps \<times> 'k" where
  "fdcost_handle N M rt new data fds ws = (\<lambda>(f, s, k).
     (if take 4 data = QUIT then (ServerExit, f, s, k)
      else
        (let f1 = f\<lparr>fc_fds_seen := fc_fds_seen f + of_nat (length fds)\<rparr>;
             opcode = (case data of [] \<Rightarrow> OP_DROP_FD | b # _ \<Rightarrow> b)
         in if opcode = OP_ESTABLISH \<or> opcode = OP_MAKE_REF
            then (case fds of
                [] \<Rightarrow> (ServerDone, f1, s, k)
              | d # rest \<Rightarrow>
                  (case ref_from_owned_fd N rt (new s) d (s, k) of
                     (r, s1, k1) \<Rightarrow>
                       (let f2 = f1\<lparr>fc_refs_built := fc_refs_built f1 + 1\<rparr>;
                            (f3, s3, k3) =
                              (if opcode = OP_ESTABLISH
                               then (let s2 = s1\<lparr>cp_heap := ref_clone r (cp_heap s1)\<rparr>;
                                         (s', k') = (case fc_cached f2 of None \<Rightarrow> (s2, k1)
                                            | Some old \<Rightarrow> ref_drop N old (s2, k1))
                                     in (f2\<lparr>fc_cached := Some r\<rparr>, s', k'))
                               else (f2, s1, k1))
                        in case cached_answer N M rt r data ws (s3, k3) of
                             (ServerWaiting, s4, k4) \<Rightarrow> (ServerWaiting, f3, s4, k4)
                           | (out, s4, k4) \<Rightarrow> (out, f3, s4, close_all N rest k4))))
            else
              (let k1 = close_all N fds k
               in case fc_cached f1 of
                    None \<Rightarrow> (ServerDone, f1, s, k1)
                  | Some r \<Rightarrow>
                      (case cached_answer N M rt r data ws
                              (s\<lparr>cp_heap := ref_clone r (cp_heap s)\<rparr>, k1) of
                         (out, sk) \<Rightarrow> (out, f1, sk))))))"

end
