(* ===== verification/Ipc_Echo_Props.thy ===== *)
theory Ipc_Echo_Props
  imports Ipc_Echo
begin

text \<open>
  What the servers keep: a send changes no open descriptor, every call they make on a reference
  is a run of the machine of \<^verbatim>\<open>Ipc_Registry_Machine\<close>, and the cached servers end each message
  with the one capability they cache.
\<close>

section \<open>What a send does to the descriptor table\<close>

definition keeps_open :: "'k net \<Rightarrow> ('k \<Rightarrow> fd \<Rightarrow> nat option) \<Rightarrow> 'k \<Rightarrow> 'k \<Rightarrow> bool" where
  "keeps_open N obj k k' \<longleftrightarrow>
     (\<forall>d. obj k d \<noteq> None \<longrightarrow> obj k' d = obj k d \<and> socket_id N d k' = socket_id N d k)"

lemma keeps_open_refl [simp]: "keeps_open N obj k k"
  by (simp add: keeps_open_def)

lemma keeps_open_trans: "keeps_open N obj k k1 \<Longrightarrow> keeps_open N obj k1 k2 \<Longrightarrow> keeps_open N obj k k2"
  by (simp add: keeps_open_def)

text \<open>\<^verbatim>\<open>sendmsg\<close> changes no descriptor of the sender.\<close>

definition sending_law :: "'k net \<Rightarrow> ('k \<Rightarrow> fd \<Rightarrow> nat option) \<Rightarrow> bool" where
  "sending_law N obj \<longleftrightarrow>
     (\<forall>d iov ctl fl k. keeps_open N obj k (snd (net_sendmsg N d iov ctl fl k)))"

lemma io_bind_keeps:
  assumes "\<And>k. keeps_open N obj k (snd (m k))" and "\<And>x k. keeps_open N obj k (snd (f x k))"
  shows "keeps_open N obj k (snd (io_bind m f k))"
proof (cases "m k")
  case (Pair x k1)
  with assms(1) [of k] have 1: "keeps_open N obj k k1" by simp
  show ?thesis
  proof (cases x)
    case (Inr y)
    with Pair keeps_open_trans [OF 1 assms(2) [of k1 y]] show ?thesis by (simp add: io_bind_def)
  qed (use Pair 1 in \<open>simp add: io_bind_def\<close>)
qed

lemma send_now_keeps:
  assumes "sending_law N obj"
  shows "keeps_open N obj k (snd (send_now N borrow d m k))"
proof -
  have s: "keeps_open N obj k (snd (net_sendmsg N d iov ctl fl k))" for d iov ctl fl k
    using assms unfolding sending_law_def by blast
  have r: "keeps_open N obj k (snd (io_ret () k))" for k by (simp add: io_ret_def)
  have "keeps_open N obj k (snd (io_bind (net_sendmsg N d iov ctl fl) (\<lambda>_. io_ret ()) k))" for iov ctl fl
    by (rule io_bind_keeps [OF s r])
  then show ?thesis by (auto simp: send_now_def Let_def io_err_def)
qed

lemma dup_register_keeps:
  assumes law: "identity_law N obj"
  shows "keeps_open N obj k (snd (io_bind (net_dup N f) (reactive_new N) k))"
proof -
  obtain x k1 where dup: "net_dup N f k = (x, k1)" by fastforce
  show ?thesis
  proof (cases x)
    case (Inl e)
    with dup id_dup_err [OF law] show ?thesis by (auto simp: keeps_open_def io_bind_def)
  next
    case (Inr w)
    note D = id_dup [OF law dup [unfolded Inr]]
    obtain y k2 where a: "net_async_fd N w k1 = (y, k2)" by fastforce
    have A: "obj k2 = obj k1" "socket_id N d k2 = socket_id N d k1" for d
      using id_async [OF law, where d = w and k = k1] a by simp_all
    have out: "snd (io_bind (net_dup N f) (reactive_new N) k) = (case y of Inl e \<Rightarrow> net_close N w k2 | Inr _ \<Rightarrow> k2)"
      using dup Inr a by (auto simp: io_defs reactive_new_def split: sum.splits)
    have "obj k' d = obj k d \<and> socket_id N d k' = socket_id N d k"
      if "obj k d \<noteq> None" "k' = (case y of Inl e \<Rightarrow> net_close N w k2 | Inr _ \<Rightarrow> k2)" for d k'
    proof -
      have "d \<noteq> w" using that(1) D(1) by auto
      with that D A id_close [OF law, of d w] show ?thesis by (auto split: sum.splits)
    qed
    with out show ?thesis by (simp add: keeps_open_def)
  qed
qed

lemma snd_bind_ret: "snd (io_bind m (\<lambda>x. io_ret (g x)) k) = snd (m k)"
  by (auto simp: io_defs split: prod.splits sum.splits)

lemma env_build_keeps:
  assumes law: "identity_law (env_net E) obj"
  shows "keeps_open (env_net E) obj k (snd (env_build E k))"
proof (cases "case env_runtime E of Some h \<Rightarrow> Some h | None \<Rightarrow> env_current E")
  case (Some h)
  then have "env_build E = io_bind (io_bind (net_dup (env_net E) (env_fd E)) (reactive_new (env_net E)))
      (\<lambda>socket. io_ret (Returned (\<lparr>ob_sender = ch_channel (env_mpsc E) DEPTH, ob_pending = 0\<rparr>, socket)))"
    by (simp add: env_build_def outbox_build_def io_bind_assoc)
  with dup_register_keeps [OF law] show ?thesis by (simp add: snd_bind_ret)
qed (simp add: env_build_def outbox_build_def io_ret_def)

lemma ref_outbox_keeps:
  assumes "identity_law (env_net E) obj" and "ref_outbox E sh = (r, sh')"
  shows "keeps_open (env_net E) obj (sh_kern sh) (sh_kern sh')"
  using env_build_keeps [OF assms(1), of "sh_kern sh"] assms(2)
  by (auto simp: ref_outbox_def split: option.splits prod.splits sum.splits outcome.splits)

lemma try_send_queue_keeps:
  assumes "identity_law (env_net E) obj" and "try_send_queue E m sh = (r, sh')"
  shows "keeps_open (env_net E) obj (sh_kern sh) (sh_kern sh')"
proof -
  obtain x sh1 where o: "ref_outbox E sh = (x, sh1)" by fastforce
  with assms(2) have "sh_kern sh' = sh_kern sh1"
    by (auto simp: try_send_queue_def split: option.splits prod.splits sum.splits outcome.splits)
  with ref_outbox_keeps [OF assms(1) o] show ?thesis by simp
qed

lemma ref_try_send_keeps:
  assumes law: "identity_law (env_net E) obj" and snd: "sending_law (env_net E) obj"
    and run: "ref_try_send E m sh = (r, sh')"
  shows "keeps_open (env_net E) obj (sh_kern sh) (sh_kern sh')"
proof -
  obtain x k1 where s: "env_send_now E (env_fd E) m (sh_kern sh) = (x, k1)" by fastforce
  have k1: "keeps_open (env_net E) obj (sh_kern sh) k1"
    using send_now_keeps [OF snd, of "sh_kern sh"] s by (metis env_send_now_def prod.sel(2))
  have q: "keeps_open (env_net E) obj (sh_kern sh0) (sh_kern (snd (try_send_queue E m sh0)))" for sh0
    using try_send_queue_keeps [OF law] by (metis prod.collapse)
  have q1: "keeps_open (env_net E) obj (sh_kern sh) (sh_kern (snd (try_send_queue E m (sh\<lparr>sh_kern := k1\<rparr>))))"
    using keeps_open_trans [OF k1] q [of "sh\<lparr>sh_kern := k1\<rparr>"] by simp
  show ?thesis using run s k1 q [of sh] q1
    by (auto simp: ref_try_send_def Let_def split: sum.splits if_splits)
qed

lemma ref_send_keeps:
  assumes law: "identity_law (env_net E) obj" and snd: "sending_law (env_net E) obj"
    and run: "ref_send E m ws sh = (r, sh')"
  shows "keeps_open (env_net E) obj (sh_kern sh) (sh_kern sh')"
proof -
  obtain x sh1 where t: "ref_try_send E m sh = (x, sh1)" by fastforce
  note k1 = ref_try_send_keeps [OF law snd t]
  obtain y sh2 where o: "ref_outbox E sh1 = (y, sh2)" by fastforce
  have k2: "keeps_open (env_net E) obj (sh_kern sh) (sh_kern sh2)"
    by (rule keeps_open_trans [OF k1 ref_outbox_keeps [OF law o]])
  have "sh_kern sh' = sh_kern sh1 \<or> sh_kern sh' = sh_kern sh2"
    using run t o
    by (auto simp: ref_send_def split: outcome.splits sum.splits try_send_error.splits option.splits prod.splits)
  with k1 k2 show ?thesis by auto
qed


section \<open>Calls as runs of the machine of references\<close>

lemma loose_close:
  "distinct ds \<Longrightarrow> set ds \<subseteq> cs_loose s \<Longrightarrow>
   (cap_step N obj)\<^sup>*\<^sup>* s (s\<lparr>cs_kern := close_all N ds (cs_kern s), cs_loose := cs_loose s - set ds\<rparr>)"
proof (induction ds arbitrary: s)
  case (Cons d ds)
  let ?s = "s\<lparr>cs_kern := net_close N d (cs_kern s), cs_loose := cs_loose s - {d}\<rparr>"
  have "cap_step N obj s ?s" using Cons.prems by (intro step_discard) simp
  moreover have "(cap_step N obj)\<^sup>*\<^sup>* ?s (?s\<lparr>cs_kern := close_all N ds (cs_kern ?s), cs_loose := cs_loose ?s - set ds\<rparr>)"
    using Cons.prems by (intro Cons.IH) auto
  moreover have "?s\<lparr>cs_kern := close_all N ds (cs_kern ?s), cs_loose := cs_loose ?s - set ds\<rparr> =
      s\<lparr>cs_kern := close_all N (d # ds) (cs_kern s), cs_loose := cs_loose s - set (d # ds)\<rparr>"
    by (cases s) (auto simp: close_all_def)
  ultimately show ?case by (simp add: converse_rtranclp_into_rtranclp)
qed (simp add: close_all_def)

text \<open>A dropped reference: one release, or the release and the two later steps of the drop.\<close>

definition after_drop :: "'o caps \<Rightarrow> addr \<Rightarrow> drop_stage" where
  "after_drop c a = (if strong_count (cp_heap c) a = 0 then Gone else Alive)"

lemma drop_run:
  assumes inv: "cap_inv N obj s" and a: "cs_stage s a = Alive"
    and run: "ref_drop N a (cs_caps s, cs_kern s) = (c, k)"
  shows "(cap_step N obj)\<^sup>*\<^sup>* s
    (s\<lparr>cs_caps := c, cs_kern := k, cs_stage := (cs_stage s)(a := after_drop c a)\<rparr>)"
proof -
  let ?h = "arc_release a (cp_heap (cs_caps s))"
  let ?c1 = "(cs_caps s)\<lparr>cp_heap := ?h\<rparr>"
  let ?s1 = "s\<lparr>cs_caps := ?c1, cs_stage := (cs_stage s)(a := if strong_count ?h a = 0 then Unfiling else Alive)\<rparr>"
  have 1: "cap_step N obj s ?s1" using a by (intro step_release) simp_all
  obtain x where x: "cp_heap (cs_caps s) a = Some x"
    using cap_inv_alive [OF inv, of a] a by (auto simp: strong_count_def split: option.splits)
  then have hx: "?h a = Some (x\<lparr>strong := strong x - 1\<rparr>)" by (simp add: arc_release_def)
  show ?thesis
  proof (cases "strong_count ?h a = 0")
    case False
    then have "c = ?c1" "k = cs_kern s" using run by (simp_all add: ref_drop_def Let_def)
    with False 1 show ?thesis by (simp add: after_drop_def r_into_rtranclp)
  next
    case True
    let ?c2 = "ref_inner_drop a ?c1" and ?k2 = "ref_fields_drop N (inner x) (cs_kern s)"
    have c: "c = ?c2" "k = ?k2" using run True hx by (simp_all add: ref_drop_def Let_def)
    have heap: "cp_heap ?c2 = ?h" by (simp add: ref_inner_drop_def split: option.splits)
    let ?s2 = "?s1\<lparr>cs_caps := ?c2, cs_stage := (cs_stage ?s1)(a := Closing)\<rparr>"
    let ?s3 = "?s2\<lparr>cs_kern := ?k2, cs_stage := (cs_stage ?s2)(a := Gone)\<rparr>"
    have 2: "cap_step N obj ?s1 ?s2"
      using step_unfile [of ?s1 a N obj] True by simp
    have 3: "cap_step N obj ?s2 ?s3"
      using step_close [of ?s2 a "x\<lparr>strong := strong x - 1\<rparr>" N obj] hx heap by simp
    have "?s3 = s\<lparr>cs_caps := c, cs_kern := k, cs_stage := (cs_stage s)(a := after_drop c a)\<rparr>"
      using c True heap by (simp add: after_drop_def)
    moreover have "(cap_step N obj)\<^sup>*\<^sup>* s ?s3"
      using 1 2 3 by (blast intro: rtranclp.rtrancl_into_rtrancl)
    ultimately show ?thesis by simp
  qed
qed

lemma clone_run:
  "cs_stage s a = Alive \<Longrightarrow> (cap_step N obj)\<^sup>*\<^sup>* s
    (s\<lparr>cs_caps := (cs_caps s)\<lparr>cp_heap := ref_clone a (cp_heap (cs_caps s))\<rparr>\<rparr>)"
  by (intro r_into_rtranclp step_clone)

lemma intern_run:
  "d \<in> cs_loose s \<Longrightarrow> cp_heap (cs_caps s) a = None \<Longrightarrow>
   ref_from_owned_fd N rt a d (cs_caps s, cs_kern s) = (r, (c, k)) \<Longrightarrow>
   (cap_step N obj)\<^sup>*\<^sup>* s (s\<lparr>cs_caps := c, cs_kern := k, cs_loose := cs_loose s - {d},
      cs_stage := (cs_stage s)(r := Alive)\<rparr>)"
  unfolding ref_from_owned_fd_def by (intro r_into_rtranclp step_from_fd)

text \<open>The kernel moved, and kept every open descriptor.\<close>

lemma kernel_run:
  assumes inv: "cap_inv N obj s" and keep: "keeps_open N obj (cs_kern s) k"
  shows "(cap_step N obj)\<^sup>*\<^sup>* s (s\<lparr>cs_kern := k\<rparr>)"
proof -
  have "obj (cs_kern s) d \<noteq> None" if "d \<in> held s" for d
    using that fds_okD(1,2) [OF cap_invD(3) [OF inv]] by (auto simp: held_def ran_def)
  then have "cap_step N obj s (s\<lparr>cs_kern := k, cs_loose := cs_loose s \<union> {}\<rparr>)"
    using keep by (intro step_env) (auto simp: keeps_open_def)
  then show ?thesis by (simp add: r_into_rtranclp)
qed

text \<open>A send leaves an outbox in the reference it was made on, and moves the kernel.\<close>

lemma store_run:
  assumes inv: "cap_inv N obj s" and r: "cs_stage s r = Alive" "cp_heap (cs_caps s) r = Some c"
    and keep: "keeps_open N obj (cs_kern s) k"
  shows "(cap_step N obj)\<^sup>*\<^sup>* s (s\<lparr>cs_caps := cap_store r c b (cs_caps s), cs_kern := k\<rparr>)"
proof -
  let ?s = "s\<lparr>cs_kern := k\<rparr>"
  have "cap_step N obj ?s (?s\<lparr>cs_caps := cap_store r c b (cs_caps ?s)\<rparr>)"
    unfolding cap_store_def by (rule step_outbox) (use r in simp_all)
  with kernel_run [OF inv keep] have "(cap_step N obj)\<^sup>*\<^sup>* s (?s\<lparr>cs_caps := cap_store r c b (cs_caps ?s)\<rparr>)"
    by (rule rtranclp.rtrancl_into_rtrancl)
  moreover have eq: "?s\<lparr>cs_caps := cap_store r c b (cs_caps ?s)\<rparr> =
      s\<lparr>cs_caps := cap_store r c b (cs_caps s), cs_kern := k\<rparr>" by (cases s) simp
  ultimately show ?thesis unfolding eq by blast
qed

lemma try_send_run:
  assumes law: "identity_law N obj" and snd: "sending_law N obj" and inv: "cap_inv N obj s"
    and r: "cs_stage s r = Alive"
    and run: "cap_try_send N M rt r m (cs_caps s, cs_kern s) = (out, c, k)"
  shows "(cap_step N obj)\<^sup>*\<^sup>* s (s\<lparr>cs_caps := c, cs_kern := k\<rparr>) \<and>
    (\<forall>a. strong_count (cp_heap c) a = strong_count (cp_heap (cs_caps s)) a)"
proof -
  obtain x where x: "cp_heap (cs_caps s) r = Some x"
    using cap_inv_alive [OF inv, of r] r by (auto simp: strong_count_def split: option.splits)
  obtain res sh where t: "ref_try_send (cap_env N M rt (cs_caps s) (inner x)) m
      \<lparr>sh_kern = cs_kern s, sh_outbox = ri_outbox (inner x)\<rparr> = (res, sh)" by fastforce
  have "keeps_open N obj (cs_kern s) (sh_kern sh)"
    using ref_try_send_keeps [OF _ _ t, of obj] law snd by (simp add: cap_env_def)
  from store_run [OF inv r x this, of "sh_outbox sh"] run x t show ?thesis
    by (auto simp: cap_try_send_def cap_store_def strong_count_def)
qed

lemma send_run:
  assumes law: "identity_law N obj" and snd: "sending_law N obj" and inv: "cap_inv N obj s"
    and r: "cs_stage s r = Alive"
    and run: "cap_send N M rt r m ws (cs_caps s, cs_kern s) = (out, c, k)"
  shows "(cap_step N obj)\<^sup>*\<^sup>* s (s\<lparr>cs_caps := c, cs_kern := k\<rparr>) \<and>
    (\<forall>a. strong_count (cp_heap c) a = strong_count (cp_heap (cs_caps s)) a)"
proof -
  obtain x where x: "cp_heap (cs_caps s) r = Some x"
    using cap_inv_alive [OF inv, of r] r by (auto simp: strong_count_def split: option.splits)
  obtain res sh where t: "ref_send (cap_env N M rt (cs_caps s) (inner x)) m ws
      \<lparr>sh_kern = cs_kern s, sh_outbox = ri_outbox (inner x)\<rparr> = (res, sh)" by fastforce
  have "keeps_open N obj (cs_kern s) (sh_kern sh)"
    using ref_send_keeps [OF _ _ t, of obj] law snd by (simp add: cap_env_def)
  from store_run [OF inv r x this, of "sh_outbox sh"] run x t show ?thesis
    by (auto simp: cap_send_def cap_store_def strong_count_def)
qed


section \<open>The cached servers hold one capability\<close>

text \<open>
  A server as a state of the machine: its references and kernel are the machine's, the only
  live reference is the cached one, held \<open>n\<close> times, and the descriptors in its hands are \<open>loose\<close>.
\<close>

definition serves :: "nat \<Rightarrow> addr option \<times> 'o caps \<times> 'k \<Rightarrow> fd set \<Rightarrow> ('o, 'k) cap_sys \<Rightarrow> bool" where
  "serves n st loose s \<longleftrightarrow>
     cs_caps s = fst (snd st) \<and> cs_kern s = snd (snd st) \<and> cs_loose s = loose \<and>
     (\<forall>a. cs_stage s a = (if fst st = Some a then Alive else Gone)) \<and>
     (\<forall>r. fst st = Some r \<longrightarrow> strong_count (cp_heap (fst (snd st))) r = n) \<and>
     finite (dom (cp_heap (fst (snd st))))"

text \<open>The descriptors of a message arrive: new ones, while the kernel does whatever else it does.\<close>

definition arrival ::
  "'k net \<Rightarrow> ('k \<Rightarrow> fd \<Rightarrow> nat option) \<Rightarrow> 'o caps \<Rightarrow> addr option \<Rightarrow> 'k \<Rightarrow> fd list \<Rightarrow> 'k \<Rightarrow> bool" where
  "arrival N obj c cached k fds k' \<longleftrightarrow>
     distinct fds \<and> (\<forall>d \<in> set fds. obj k' d \<noteq> None) \<and>
     (\<forall>r x. cached = Some r \<and> cp_heap c r = Some x \<longrightarrow>
        (\<forall>d \<in> owned (inner x). d \<notin> set fds \<and> obj k' d = obj k d \<and>
           (\<forall>i. socket_id N d k = Inr i \<longrightarrow> socket_id N d k' = Inr i)))"

text \<open>The allocator hands out a free address, as long as the memory is finite.\<close>

definition fresh_alloc :: "('o caps \<Rightarrow> addr) \<Rightarrow> bool" where
  "fresh_alloc new \<longleftrightarrow> (\<forall>s. finite (dom (cp_heap s)) \<longrightarrow> cp_heap s (new s) = None)"

lemma dom_from_fd:
  "ref_from_fd N rt a d (c, k) = (r, (c1, k1)) \<Longrightarrow> dom (cp_heap c1) \<subseteq> insert a (dom (cp_heap c))"
  by (auto simp: ref_from_fd_def weak_upgrade_def arc_new_def ref_clone_def
      split: sum.splits option.splits if_splits)

lemma dom_clone [simp]: "dom (ref_clone a h) = dom h"
  by (auto simp: ref_clone_def split: option.splits)

lemma dom_arc_release [simp]: "dom (arc_release a h) = dom h"
  by (auto simp: arc_release_def split: option.splits)

lemma heap_inner_drop [simp]: "cp_heap (ref_inner_drop a s) = cp_heap s"
  by (simp add: ref_inner_drop_def split: option.splits)

lemma drop_heap: "ref_drop N a (c, k) = (c1, k1) \<Longrightarrow> cp_heap c1 = arc_release a (cp_heap c)"
  by (auto simp: ref_drop_def Let_def split: option.splits if_splits)

lemma dom_drop: "ref_drop N a (c, k) = (c1, k1) \<Longrightarrow> dom (cp_heap c1) = dom (cp_heap c)"
  by (simp add: drop_heap)

lemma dom_cap_send: 
  assumes "cap_send N M rt r m ws (c, k) = (out, c1, k1)"
  shows "dom (cp_heap c1) = dom (cp_heap c)"
proof (cases "cp_heap c r")
  case None
  with assms show ?thesis by (simp add: cap_send_def)
next
  case (Some x)
  then have "insert r (dom (cp_heap c)) = dom (cp_heap c)" by (simp add: insert_absorb domI)
  with assms Some show ?thesis by (auto simp: cap_send_def cap_store_def split: prod.splits)
qed

lemma serves_held:
  assumes "serves n (cached, c, k) loose s"
  shows "held s = loose \<union> (case cached of None \<Rightarrow> {}
    | Some r \<Rightarrow> (case cp_heap c r of None \<Rightarrow> {} | Some x \<Rightarrow> owned (inner x)))"
proof -
  have "owners s = (case cached of None \<Rightarrow> Map.empty
      | Some r \<Rightarrow> (case cp_heap c r of None \<Rightarrow> Map.empty | Some x \<Rightarrow> [r \<mapsto> inner x]))"
    using assms by (intro ext) (auto simp: serves_def owners_def split: option.splits)
  with assms show ?thesis by (auto simp: held_def serves_def split: option.splits)
qed

lemma serves_arrival:
  assumes "serves n (cached, c, k) {} s" and "arrival N obj c cached k fds k'"
  shows "cap_step N obj s (s\<lparr>cs_kern := k', cs_loose := set fds\<rparr>) \<and>
    serves n (cached, c, k') (set fds) (s\<lparr>cs_kern := k', cs_loose := set fds\<rparr>)"
proof
  have loose: "cs_loose s = {}" and kern: "cs_kern s = k" using assms(1) by (simp_all add: serves_def)
  have "cap_step N obj s (s\<lparr>cs_kern := k', cs_loose := cs_loose s \<union> set fds\<rparr>)"
    using assms(2) serves_held [OF assms(1)] unfolding arrival_def kern [symmetric]
    by (intro step_env) (auto split: option.splits)
  then show "cap_step N obj s (s\<lparr>cs_kern := k', cs_loose := set fds\<rparr>)" by (simp add: loose)
  show "serves n (cached, c, k') (set fds) (s\<lparr>cs_kern := k', cs_loose := set fds\<rparr>)"
    using assms(1) by (simp add: serves_def)
qed

lemma zero_unless_cached:
  assumes "cap_inv N obj s" and "serves n (cached, c, k) loose s" and "cached \<noteq> Some a"
  shows "strong_count (cp_heap c) a = 0"
  using assms cap_inv_alive [OF assms(1), of a] by (simp add: serves_def)


lemma from_fd_counts:
  assumes "ref_from_fd N rt a d (c, k) = (r, (c1, k1))" and "cp_heap c a = None"
  obtains (new) "r = a" "\<And>b. strong_count (cp_heap c1) b = (if b = a then 1 else strong_count (cp_heap c) b)"
      "ref_borrowed_fd (cp_heap c1) r = d" "k1 = k"
    | (hit) "strong_count (cp_heap c) r \<noteq> 0"
      "\<And>b. strong_count (cp_heap c1) b = (if b = r then Suc (strong_count (cp_heap c) b) else strong_count (cp_heap c) b)"
      "k1 = net_close N d k"
proof (cases "\<exists>i w. socket_id N d k = Inr i \<and> cp_refs c i = Some w \<and> strong_count (cp_heap c) w \<noteq> 0")
  case True
  then obtain i w where w: "socket_id N d k = Inr i" "cp_refs c i = Some w" "strong_count (cp_heap c) w \<noteq> 0"
    by blast
  then have "cp_heap c w \<noteq> None" by (auto simp: strong_count_def split: option.splits)
  with w assms show ?thesis
    by (intro hit) (auto simp: ref_from_fd_def weak_upgrade_def strong_count_clone)
next
  case False
  then have "r = a" "k1 = k" "\<exists>idk. cp_heap c1 = arc_new a (ref_inner_new rt d idk) (cp_heap c)"
    using assms(1) by (auto simp: ref_from_fd_def weak_upgrade_def split: sum.splits option.splits if_splits)
  then show ?thesis
    by (intro new) (auto simp: arc_new_def strong_count_def ref_borrowed_fd_def)
qed

lemma drop_counts:
  assumes "ref_drop N a (c, k) = (c1, k1)"
  shows "strong_count (cp_heap c1) b = (if b = a then strong_count (cp_heap c) a - 1 else strong_count (cp_heap c) b)"
    and "ref_borrowed_fd (cp_heap c1) b = ref_borrowed_fd (cp_heap c) b"
  unfolding drop_heap [OF assms]
  by (auto simp: arc_release_def strong_count_def ref_borrowed_fd_def split: option.splits)

text \<open>What only closes.\<close>

definition shuts :: "('k \<Rightarrow> fd \<Rightarrow> nat option) \<Rightarrow> 'k \<Rightarrow> 'k \<Rightarrow> bool" where
  "shuts obj k k' \<longleftrightarrow> (\<forall>d. obj k d = None \<longrightarrow> obj k' d = None)"

lemma shuts_close: "identity_law N obj \<Longrightarrow> shuts obj k (net_close N d k)"
  using id_close(1) [of N obj] id_closed [of N obj d k] unfolding shuts_def by metis

lemma shuts_trans: "shuts obj k k1 \<Longrightarrow> shuts obj k1 k2 \<Longrightarrow> shuts obj k k2"
  by (simp add: shuts_def)

lemma shuts_refl [simp]: "shuts obj k k"
  by (simp add: shuts_def)

lemma close_all_Cons [simp]: "close_all N (d # ds) k = close_all N ds (net_close N d k)"
  by (simp add: close_all_def)

lemma close_all_shuts:
  assumes "identity_law N obj"
  shows "shuts obj k (close_all N ds k) \<and> (\<forall>d \<in> set ds. obj (close_all N ds k) d = None)"
proof (induction ds arbitrary: k)
  case (Cons d ds)
  from Cons [of "net_close N d k"] shuts_close [OF assms, of k d] id_closed [OF assms, of d k]
  show ?case by (auto simp: shuts_def)
qed (simp add: close_all_def)

lemma drop_shuts:
  assumes law: "identity_law N obj" and run: "ref_drop N a (c :: 'b caps, k) = (c1, k1)"
  shows "shuts obj k k1 \<and> (strong_count (cp_heap c) a = 1 \<longrightarrow> obj k1 (ref_borrowed_fd (cp_heap c) a) = None)"
proof -
  have fields: "shuts obj k (ref_fields_drop N v k) \<and> obj (ref_fields_drop N v k) (ri_fd v) = None" for v :: "'b ref_inner"
    using shuts_close [OF law, of k "ri_fd v"] id_closed [OF law, of "ri_fd v" k]
      shuts_close [OF law, of "net_close N (ri_fd v) k"]
    by (auto simp: ref_fields_drop_def shuts_def split: option.splits)
  have rel: "strong_count (arc_release a (cp_heap c)) a = strong_count (cp_heap c) a - 1"
    by (simp add: arc_release_def strong_count_def split: option.splits)
  show ?thesis
  proof (cases "cp_heap c a")
    case None
    with run show ?thesis by (auto simp: ref_drop_def Let_def arc_release_def strong_count_def)
  next
    case (Some x)
    then have "arc_release a (cp_heap c) a = Some (x\<lparr>strong := strong x - 1\<rparr>)" by (simp add: arc_release_def)
    with run Some rel fields [of "inner x"] show ?thesis
      by (auto simp: ref_drop_def Let_def strong_count_def ref_borrowed_fd_def split: if_splits)
  qed
qed


lemma borrowed_fd_clone_caps [simp]:
  "ref_borrowed_fd (cp_heap (c\<lparr>cp_heap := ref_clone a (cp_heap c)\<rparr>)) b = ref_borrowed_fd (cp_heap c) b"
  by simp

text \<open>The choice of the reply, from a server to a server that lends its capability once more.\<close>

lemma cached_reply_run:
  assumes law: "identity_law N obj" and new: "fresh_alloc new" and inv: "cap_inv N obj s"
    and srv: "serves 1 (cached, c, k) (set fds) s" and dist: "distinct fds"
    and run: "cached_reply N rt new fds (cached, c, k) = (reply, cached', c', k')"
  shows "\<exists>s'. (cap_step N obj)\<^sup>*\<^sup>* s s' \<and> reply = cached' \<and>
    serves 2 (cached', c', k') {} s'"
proof (cases fds)
  case Nil
  show ?thesis
  proof (cases cached)
    case None
    with run Nil srv show ?thesis by (auto simp: cached_reply_def serves_def)
  next
    case (Some r)
    let ?s = "s\<lparr>cs_caps := (cs_caps s)\<lparr>cp_heap := ref_clone r (cp_heap (cs_caps s))\<rparr>\<rparr>"
    have al: "cs_stage s r = Alive" and "cp_heap c r \<noteq> None" using srv Some
      by (auto simp: serves_def strong_count_def split: option.splits)
    then have "serves 2 (cached', c', k') {} ?s"
      using srv run Nil Some by (auto simp: cached_reply_def serves_def strong_count_clone)
    with run Nil Some clone_run [OF al, of N obj] show ?thesis by (auto simp: cached_reply_def)
  qed
next
  case (Cons d rest)
  note dist = dist [unfolded Cons, simplified]
  have fin: "finite (dom (cp_heap c))" using srv by (simp add: serves_def)
  with new have fresh: "cp_heap c (new c) = None" by (simp add: fresh_alloc_def)
  obtain r c1 k1 where f: "ref_from_owned_fd N rt (new c) d (c, k) = (r, (c1, k1))" by (metis prod.exhaust)
  have S: "cs_caps s = c" "cs_kern s = k" "cs_loose s = insert d (set rest)"
    "cs_stage s a = (if cached = Some a then Alive else Gone)" for a
    using srv Cons by (simp_all add: serves_def)
  have zero: "strong_count (cp_heap c) a = (if cached = Some a then 1 else 0)" for a
    using zero_unless_cached [OF inv srv] srv by (simp add: serves_def)
  let ?c2 = "c1\<lparr>cp_heap := ref_clone r (cp_heap c1)\<rparr>"
  let ?s1 = "s\<lparr>cs_caps := c1, cs_kern := k1, cs_loose := set rest, cs_stage := (cs_stage s)(r := Alive)\<rparr>"
  let ?s2 = "?s1\<lparr>cs_caps := ?c2\<rparr>"
  have l1: "cs_loose s - {d} = set rest" using S(3) dist by auto
  have run1: "(cap_step N obj)\<^sup>*\<^sup>* s ?s1"
    using intern_run [of d s "new c" N rt r c1 k1 obj] S(1-3) fresh f l1 by simp
  have run2: "(cap_step N obj)\<^sup>*\<^sup>* ?s1 ?s2"
    using clone_run [of ?s1 r N obj] by simp
  have cnt1: "strong_count (cp_heap c1) a = (if a = r then if cached = Some r then 2 else 1
      else if cached = Some a then 1 else 0)" for a
  proof (cases rule: from_fd_counts [OF f [unfolded ref_from_owned_fd_def] fresh])
    case 1
    have "cached \<noteq> Some (new c)" using zero [of "new c"] fresh by (auto simp: strong_count_def split: if_splits)
    with 1 zero show ?thesis by auto
  next
    case 2
    then have "cached = Some r" using zero [of r] by (simp split: if_splits)
    with 2 zero show ?thesis by auto
  qed
  have "cp_heap c1 r \<noteq> None"
    using cnt1 [of r] by (auto simp: strong_count_def split: option.splits if_splits)
  then have cnt2: "strong_count (cp_heap ?c2) a = (if a = r then if cached = Some r then 3 else 2
      else if cached = Some a then 1 else 0)" for a using cnt1 by (simp add: strong_count_clone)
  have inv2: "cap_inv N obj ?s2"
    using registry.run_inv [OF _ rtranclp_trans [OF run1 run2]] inv law by blast
  obtain c3 k3 where drop: "(case cached of None \<Rightarrow> (?c2, k1) | Some old \<Rightarrow> ref_drop N old (?c2, k1)) = (c3, k3)"
    by fastforce
  let ?s3 = "?s2\<lparr>cs_caps := c3, cs_kern := k3, cs_stage := (\<lambda>a. if a = r then Alive else Gone)\<rparr>"
  have "finite (dom (cp_heap c1))"
    using dom_from_fd [OF f [unfolded ref_from_owned_fd_def]] fin by (meson finite_insert finite_subset)
  then have fin3: "finite (dom (cp_heap c3))"
    using drop dom_drop by (fastforce split: option.splits)
  have run3: "(cap_step N obj)\<^sup>*\<^sup>* ?s2 ?s3 \<and> strong_count (cp_heap c3) r = 2"
  proof (cases cached)
    case None
    have "cs_stage ?s2 = (\<lambda>a. if a = r then Alive else Gone)" using S(4) None by auto
    then have "?s3 = ?s2" using drop None by (cases s) simp
    with drop None cnt2 [of r] show ?thesis by auto
  next
    case (Some old)
    have al: "cs_stage ?s2 old = Alive" using S(4) Some by simp
    have d: "ref_drop N old (cs_caps ?s2, cs_kern ?s2) = (c3, k3)" using drop Some by simp
    have cnt3: "strong_count (cp_heap c3) a = (if a = r then 2 else 0)" for a
      using drop_counts(1) [of N old ?c2 k1 c3 k3 a] drop Some cnt2 by auto
    have "(cs_stage ?s2)(old := after_drop c3 old) = (\<lambda>a. if a = r then Alive else Gone)"
      using S(4) Some cnt3 by (intro ext) (auto simp: after_drop_def)
    with drop_run [OF inv2 al d] cnt3 [of r] show ?thesis by simp
  qed
  let ?s4 = "?s3\<lparr>cs_kern := close_all N rest (cs_kern ?s3), cs_loose := cs_loose ?s3 - set rest\<rparr>"
  have run4: "(cap_step N obj)\<^sup>*\<^sup>* ?s3 ?s4" using dist by (intro loose_close) auto
  have "reply = Some r \<and> cached' = Some r \<and> c' = c3 \<and> k' = close_all N rest k3"
    using run Cons f drop by (auto simp: cached_reply_def Let_def split: prod.splits)
  moreover from this run3 have "serves 2 (cached', c', k') {} ?s4" using fin3 by (auto simp: serves_def)
  moreover have "(cap_step N obj)\<^sup>*\<^sup>* s ?s4" using run1 run2 run3 run4 by (meson rtranclp_trans)
  ultimately show ?thesis by blast
qed


lemma cached_answer_run:
  assumes law: "identity_law N obj" and snd: "sending_law N obj" and inv: "cap_inv N obj s"
    and srv: "serves 2 (Some r, c, k) {} s"
    and run: "cached_answer N M rt r data ws (c, k) = (out, c', k')" and out: "out \<noteq> ServerWaiting"
  shows "\<exists>s'. (cap_step N obj)\<^sup>*\<^sup>* s s' \<and> serves 1 (Some r, c', k') {} s'"
proof -
  have S: "cs_caps s = c" "cs_kern s = k" "cs_stage s r = Alive" "strong_count (cp_heap c) r = 2"
    using srv by (simp_all add: serves_def)
  obtain res c1 k1 where t: "cap_send N M rt r (message_from_data data) ws (c, k) = (res, c1, k1)"
    by (metis prod.exhaust)
  let ?s1 = "s\<lparr>cs_caps := c1, cs_kern := k1\<rparr>"
  have run1: "(cap_step N obj)\<^sup>*\<^sup>* s ?s1" and cnt: "strong_count (cp_heap c1) a = strong_count (cp_heap c) a" for a
    using send_run [OF law snd inv S(3)] t S(1,2) by blast+
  have inv1: "cap_inv N obj ?s1" using registry.run_inv [OF _ run1] inv law by blast
  have drop: "ref_drop N r (cs_caps ?s1, cs_kern ?s1) = (c', k')"
    using run t out by (auto simp: cached_answer_def split: option.splits outcome.splits)
  then have "strong_count (cp_heap c') r = 1"
    using drop_counts(1) [of N r c1 k1 c' k' r] cnt [of r] S(4) by simp
  moreover have "cs_stage ?s1 r = Alive" using S(3) by simp
  ultimately have run2: "(cap_step N obj)\<^sup>*\<^sup>* ?s1 (?s1\<lparr>cs_caps := c', cs_kern := k', cs_stage := (cs_stage ?s1)(r := Alive)\<rparr>)"
    using drop_run [OF inv1 _ drop] by (simp add: after_drop_def)
  have "serves 1 (Some r, c', k') {} (?s1\<lparr>cs_caps := c', cs_kern := k', cs_stage := (cs_stage ?s1)(r := Alive)\<rparr>)"
    using srv \<open>strong_count (cp_heap c') r = 1\<close> dom_cap_send [OF t] dom_drop [OF drop]
    by (auto simp: serves_def)
  with rtranclp_trans [OF run1 run2] show ?thesis by blast
qed

text \<open>
  Everything a server ever does: it starts with nothing, and handles messages, of any payload
  and with any descriptors, to their end.
\<close>

inductive server_run ::
  "'k net \<Rightarrow> ('c, message) mpsc \<Rightarrow> ('k \<Rightarrow> fd \<Rightarrow> nat option) \<Rightarrow> nat option \<Rightarrow> ('c ref_box caps \<Rightarrow> addr) \<Rightarrow>
   'k \<Rightarrow> addr option \<times> 'c ref_box caps \<times> 'k \<Rightarrow> bool" for N M obj rt new k0 where
  server_start: "server_run N M obj rt new k0 (None, \<lparr>cp_heap = Map.empty, cp_refs = Map.empty\<rparr>, k0)"
| server_message: "server_run N M obj rt new k0 (cached, c, k) \<Longrightarrow> arrival N obj c cached k fds k' \<Longrightarrow>
    bench_handle N M rt new data fds ws (cached, c, k') = (out, st) \<Longrightarrow>
    out \<in> {ServerDone, ServerPanicked} \<Longrightarrow> server_run N M obj rt new k0 st"

lemma server_run_serves:
  assumes law: "identity_law N obj" and snd: "sending_law N obj" and new: "fresh_alloc new"
  shows "server_run N M obj rt new k0 st \<Longrightarrow>
    \<exists>s. reach (cap_init k0) (cap_step N obj) s \<and> serves 1 st {} s"
proof (induction rule: server_run.induct)
  case server_start
  have "serves 1 (None, \<lparr>cp_heap = Map.empty, cp_refs = Map.empty\<rparr>, k0) {} (cap_init k0)"
    by (simp add: serves_def cap_init_def)
  then show ?case by (blast intro: reach_init)
next
  case (server_message cached c k fds k' data ws out st)
  then obtain s where s: "reach (cap_init k0) (cap_step N obj) s" "serves 1 (cached, c, k) {} s" by blast
  let ?s0 = "s\<lparr>cs_kern := k', cs_loose := set fds\<rparr>"
  have s0: "reach (cap_init k0) (cap_step N obj) ?s0" "serves 1 (cached, c, k') (set fds) ?s0"
    using serves_arrival [OF s(2) server_message.hyps(2)] s(1) by (auto intro: reach_step)
  have inv0: "cap_inv N obj ?s0" using registry.reach_inv [OF s0(1)] law by blast
  have dist: "distinct fds" using server_message.hyps(2) by (simp add: arrival_def)
  have quit: "data \<noteq> QUIT" using server_message.hyps(3,4) by (auto simp: bench_handle_def)
  obtain reply cached1 c1 k1 where cr: "cached_reply N rt new fds (cached, c, k') = (reply, cached1, c1, k1)"
    by (metis prod.exhaust)
  obtain s1 where s1: "(cap_step N obj)\<^sup>*\<^sup>* ?s0 s1" "reply = cached1" "serves 2 (cached1, c1, k1) {} s1"
    using cached_reply_run [OF law new inv0 s0(2) dist cr] by blast
  have r1: "reach (cap_init k0) (cap_step N obj) s1" by (rule reach_rtranclp [OF s0(1) s1(1)])
  have inv1: "cap_inv N obj s1" using registry.reach_inv [OF r1] law by blast
  show ?case
  proof (cases reply)
    case None
    with server_message.hyps(3) quit cr s1(2) have "st = (None, c1, k1)" by (simp add: bench_handle_def)
    with s1(2,3) None r1 show ?thesis by (auto simp: serves_def)
  next
    case (Some r)
    obtain c2 k2 where ans: "cached_answer N M rt r data ws (c1, k1) = (out, c2, k2)" "st = (cached1, c2, k2)"
      using server_message.hyps(3) quit cr Some by (auto simp: bench_handle_def split: prod.splits)
    have "out \<noteq> ServerWaiting" using server_message.hyps(4) by auto
    from cached_answer_run [OF law snd inv1 _ ans(1) this] s1(2,3) Some
    obtain s2 where "(cap_step N obj)\<^sup>*\<^sup>* s1 s2" "serves 1 (Some r, c2, k2) {} s2" by auto
    with ans(2) s1(2) Some reach_rtranclp [OF r1] show ?thesis by auto
  qed
qed

lemma cached_reply_closes:
  assumes law: "identity_law N obj" and fresh: "cp_heap c (new c) = None"
    and one: "\<And>a. strong_count (cp_heap c) a = (if cached = Some a then 1 else 0)"
    and run: "cached_reply N rt new (d # rest) (cached, c, k) = (reply, cached', c', k')"
  shows "(\<forall>f \<in> set (d # rest). obj k' f \<noteq> None \<longrightarrow>
      (\<exists>r. cached' = Some r \<and> ref_borrowed_fd (cp_heap c') r = f)) \<and>
    (\<forall>old. cached = Some old \<and> cached' \<noteq> cached \<longrightarrow> obj k' (ref_borrowed_fd (cp_heap c) old) = None)"
proof -
  obtain r c1 k1 where f: "ref_from_fd N rt (new c) d (c, k) = (r, (c1, k1))" by (metis prod.exhaust)
  let ?c2 = "c1\<lparr>cp_heap := ref_clone r (cp_heap c1)\<rparr>"
  obtain c3 k3 where drop: "(case cached of None \<Rightarrow> (?c2, k1) | Some old \<Rightarrow> ref_drop N old (?c2, k1)) = (c3, k3)"
    by fastforce
  have out: "cached' = Some r" "c' = c3" "k' = close_all N rest k3"
    using run f drop by (auto simp: cached_reply_def ref_from_owned_fd_def Let_def split: prod.splits)
  have shut3: "shuts obj k1 k3" and fd3: "ref_borrowed_fd (cp_heap c3) b = ref_borrowed_fd (cp_heap c1) b" for b
  proof -
    have "shuts obj k1 k3 \<and> (\<forall>b. ref_borrowed_fd (cp_heap c3) b = ref_borrowed_fd (cp_heap c1) b)"
    proof (cases cached)
      case (Some old)
      with drop have "ref_drop N old (?c2, k1) = (c3, k3)" by simp
      from drop_shuts [OF law this] drop_counts(2) [OF this] show ?thesis by simp
    qed (use drop in auto)
    then show "shuts obj k1 k3" "ref_borrowed_fd (cp_heap c3) b = ref_borrowed_fd (cp_heap c1) b" by simp_all
  qed
  note rest = close_all_shuts [OF law, of k3 rest]
  have hd: "obj k' d \<noteq> None \<longrightarrow> ref_borrowed_fd (cp_heap c3) r = d"
  proof (cases rule: from_fd_counts [OF f fresh])
    case 1
    then show ?thesis using fd3 by simp
  next
    case 2
    then have "obj k1 d = None" using id_closed [OF law] by simp
    with shut3 rest out show ?thesis by (auto simp: shuts_def)
  qed
  have old: "obj k' (ref_borrowed_fd (cp_heap c) old) = None" if "cached = Some old" "r \<noteq> old" for old
  proof -
    have heap: "ref_borrowed_fd (cp_heap c1) old = ref_borrowed_fd (cp_heap c) old \<and> strong_count (cp_heap ?c2) old = 1"
    proof (cases rule: from_fd_counts [OF f fresh])
      case 1
      have "strong_count (cp_heap c) (new c) = 0" using fresh by (simp add: strong_count_def)
      then have "cp_heap c1 old = cp_heap c old" using f that fresh one [of old] 1(1)
        by (auto simp: ref_from_fd_def weak_upgrade_def arc_new_def split: sum.splits option.splits if_splits)
      then have "strong_count (cp_heap c1) old = 1" "ref_borrowed_fd (cp_heap c1) old = ref_borrowed_fd (cp_heap c) old"
        using one [of old] that by (simp_all add: strong_count_def ref_borrowed_fd_def)
      with that show ?thesis by (simp add: strong_count_clone)
    next
      case 2
      with one [of r] that show ?thesis by simp
    qed
    with drop that drop_shuts [OF law, of old ?c2 k1 c3 k3] have "obj k3 (ref_borrowed_fd (cp_heap c) old) = None"
      by simp
    with rest out show ?thesis by (simp add: shuts_def)
  qed
  have "\<exists>r. cached' = Some r \<and> ref_borrowed_fd (cp_heap c') r = f"
    if "f \<in> set (d # rest)" "obj k' f \<noteq> None" for f
    using that hd rest out by auto
  moreover have "obj k' (ref_borrowed_fd (cp_heap c) p) = None"
    if "cached = Some p" "cached' \<noteq> cached" for p
    using that old [of p] out(1) by auto
  ultimately show ?thesis by blast
qed


section \<open>Properties\<close>




definition sample_alloc :: "'o caps \<Rightarrow> addr" where
  "sample_alloc s = Suc (Max (insert 0 (dom (cp_heap s))))"

lemma sample_alloc_fresh: "fresh_alloc (sample_alloc :: 'o caps \<Rightarrow> addr)"
proof -
  have "cp_heap s (Suc (Max (insert 0 (dom (cp_heap s))))) = None" if "finite (dom (cp_heap s))" for s :: "'o caps"
    using that Max_ge [of "insert 0 (dom (cp_heap s))"] by (metis Suc_n_not_le_n domIff finite_insert insertCI)
  then show ?thesis by (simp add: fresh_alloc_def sample_alloc_def)
qed

lemma table_sending_law: "sending_law table_net table_obj"
  by (simp add: sending_law_def table_net_def io_ret_def)

lemma table_net_calls [simp]:
  "net_sendmsg table_net d iov ctl fl k = (Inr (length iov), k)" "net_close table_net d k = filter (\<lambda>x. fst x \<noteq> d) k"
  by (simp_all add: table_net_def io_ret_def)

text \<open>The first message brings two descriptors: one is cached as reference 1, the other closed.\<close>

definition served_caps :: "(message schan) ref_box caps" where
  "served_caps =
     \<lparr>cp_heap = [1 \<mapsto> \<lparr>strong = 1, inner = ref_inner_new None 5 (Some (9, 70))\<rparr>], cp_refs = [(9, 70) \<mapsto> 1]\<rparr>"

lemma served_run:
  "server_run table_net sample_mpsc table_obj None sample_alloc [] (Some 1, served_caps, [(5, 70)])"
proof (rule server_message [OF server_start])
  show "arrival table_net table_obj \<lparr>cp_heap = Map.empty, cp_refs = Map.empty\<rparr> None [] [5, 6] [(6, 80), (5, 70)]"
    by (simp add: arrival_def table_obj_def)
  show "bench_handle table_net sample_mpsc None sample_alloc [1] [5, 6] []
      (None, \<lparr>cp_heap = Map.empty, cp_refs = Map.empty\<rparr>, [(6, 80), (5, 70)]) =
      (ServerDone, Some 1, served_caps, [(5, 70)])"
    by (simp add: served_caps_def bench_handle_def QUIT_def cached_reply_def ref_from_owned_fd_def ref_from_fd_def
      table_socket_id weak_upgrade_def arc_new_def sample_alloc_def ref_clone_def cached_answer_def
      cap_send_def cap_env_def cap_store_def ref_send_def ref_try_send_def ref_backed_up_def env_send_now_def
      send_now_def message_defs io_defs ref_drop_def arc_release_def
      strong_count_def ref_inner_new_def Let_def close_all_def)
  show "ServerDone \<in> {ServerDone, ServerPanicked}" by simp
qed


end
