(* ===== verification/Ipc_Connect.thy ===== *)
theory Ipc_Connect
  imports Ipc_Echo_Props Ipc_Order_Props Ipc_Binding
begin

text \<open>
  \<^verbatim>\<open>Ref::connect\<close> and the descriptor table: what a connection leaves open on every path, with
  the law of the receiving kernel that it needs.
\<close>

section \<open>Receiving\<close>

text \<open>\<^verbatim>\<open>recvmsg\<close> adds to the table exactly the descriptors it reports, and nothing when it fails.\<close>

definition receive_law :: "'k net \<Rightarrow> ('k \<Rightarrow> fd set) \<Rightarrow> bool" where
  "receive_law N opn \<longleftrightarrow>
     (\<forall>d len c fl k e k'. net_recvmsg N d len c fl k = (Inl e, k') \<longrightarrow> opn k' = opn k) \<and>
     (\<forall>d len c fl k m k'. net_recvmsg N d len c fl k = (Inr m, k') \<longrightarrow>
        (\<forall>fds creds. collect_ancillary (rr_anc m) ([], None) = (fds, creds) \<longrightarrow>
           distinct fds \<and> set fds \<inter> opn k = {} \<and> opn k' = opn k \<union> set fds))"

text \<open>Wake-ups during which the process opens and closes nothing.\<close>

definition idle :: "('k \<Rightarrow> fd set) \<Rightarrow> 'k wakeups \<Rightarrow> bool" where
  "idle opn ws \<longleftrightarrow> (\<forall>env. Inr env \<in> set ws \<longrightarrow> (\<forall>k. opn (env k) = opn k))"

lemma close_open: "descriptor_law N opn \<Longrightarrow> opn (net_close N d k) = opn k - {d}"
  using other_calls_open by blast

lemma close_all_open: "descriptor_law N opn \<Longrightarrow> opn (close_all N ds k) = opn k - set ds"
proof (induction ds arbitrary: k)
  case (Cons d ds)
  from Cons.IH [of "net_close N d k"] close_open [of N opn d k] Cons.prems show ?case by auto
qed (simp add: close_all_def)

text \<open>The outcome of a receive in terms of the table before it.\<close>

fun received_open ::
  "('k \<Rightarrow> fd set) \<Rightarrow> 'k \<Rightarrow> ((received \<times> u8 list) outcome, io_error) result \<times> 'k \<Rightarrow> bool" where
  "received_open opn k (Inr (Returned (r, buf)), k') \<longleftrightarrow>
     distinct (rc_fds r) \<and> set (rc_fds r) \<inter> opn k = {} \<and> opn k' = opn k \<union> set (rc_fds r)"
| "received_open opn k (_, k') \<longleftrightarrow> opn k' = opn k"

lemma recv_now_open:
  assumes "descriptor_law N opn" and "receive_law N opn"
  shows "received_open opn k (recv_now debug N d buf c k)"
proof -
  obtain x k1 where r: "net_recvmsg N d (length buf) c {CMSG_CLOEXEC, TRUNC} k = (x, k1)" by fastforce
  show ?thesis
  proof (cases x)
    case (Inl e)
    with r assms(2) have "opn k1 = opn k" unfolding receive_law_def by blast
    with r Inl show ?thesis by (simp add: recv_now_def io_bind_def)
  next
    case (Inr m)
    obtain fds creds where f: "collect_ancillary (rr_anc m) ([], None) = (fds, creds)" by fastforce
    with r Inr assms(2) have "distinct fds" "set fds \<inter> opn k = {}" "opn k1 = opn k \<union> set fds"
      unfolding receive_law_def by blast+
    with r Inr f close_all_open [OF assms(1), of fds k1] show ?thesis
      by (auto simp: recv_now_def io_defs)
  qed
qed

lemma received_open_start: "opn k0 = opn k \<Longrightarrow> received_open opn k0 x \<Longrightarrow> received_open opn k x"
  by (cases "(opn, k0, x)" rule: received_open.cases) auto

lemma reactive_recv_open:
  assumes "descriptor_law N opn" and "receive_law N opn"
  shows "idle opn ws \<Longrightarrow> reactive_recv debug N d buf c ws k = (Some x, k') \<Longrightarrow> received_open opn k (x, k')"
  unfolding reactive_recv_def
proof (induction ws arbitrary: k)
  case (Cons w ws)
  show ?case
  proof (cases w)
    case (Inl e)
    with Cons.prems show ?thesis by auto
  next
    case (Inr env)
    have env: "opn (env k) = opn k" and idle: "idle opn ws" using Cons.prems(1) Inr by (auto simp: idle_def)
    obtain y k1 where r: "recv_now debug N d buf c (env k) = (y, k1)" by fastforce
    have open1: "received_open opn k (y, k1)"
      using received_open_start [of opn, OF env] recv_now_open [OF assms, of "env k" debug d buf c] r by simp
    show ?thesis
    proof (cases "\<exists>e. y = Inl e \<and> io_error_kind e = WouldBlock")
      case True
      then obtain e where e: "y = Inl e" "io_error_kind e = WouldBlock" by blast
      with Cons.prems(2) Inr r have "reactive_io (recv_now debug N d buf c) ws k1 = (Some x, k')" by simp
      from Cons.IH [OF idle this] open1 e(1) show ?thesis
        using received_open_start [of opn k1 k "(x, k')"] by simp
    next
      case False
      then have "x = y \<and> k' = k1" using Cons.prems(2) Inr r by (cases y) (auto split: if_splits)
      with open1 show ?thesis by simp
    qed
  qed
qed simp

section \<open>Connecting\<close>

lemma owning_fst: "fst (io_owning c d m k) = fst (m k)"
  by (simp add: io_owning_def split: prod.splits sum.splits)

lemma owning_isl:
  assumes "descriptor_law N opn" and "\<And>k. opn (snd (m k)) = opn k"
    and "io_owning (net_close N) d m k = (x, k')"
  shows "opn k' = (if isl x then opn k - {d} else opn k)"
  using owning_open [OF assms(1,2), of d k] owning_fst [of "net_close N" d m k] assms(3)
  by (auto split: sum.splits)

lemma connection_open:
  assumes law: "descriptor_law N opn" and run: "io_bind (wire_connect N p) (reactive_new N) k = (x, k')"
  shows "case x of Inl e \<Rightarrow> opn k' = opn k | Inr d \<Rightarrow> d \<notin> opn k \<and> opn k' = insert d (opn k)"
proof (cases "net_addr N p")
  case (Inl e)
  with run show ?thesis by (auto simp: wire_connect_def io_defs)
next
  case (Inr a)
  obtain y k1 where s: "net_socket N {NONBLOCK, CLOEXEC} k = (y, k1)" by fastforce
  show ?thesis
  proof (cases y)
    case (Inl e)
    with run s Inr socket_err_open [OF law s [unfolded Inl]] show ?thesis
      by (auto simp: wire_connect_def io_bind_def)
  next
    case (Inr d)
    have d: "d \<notin> opn k" "opn k1 = insert d (opn k)"
      using socket_ok_open [OF law s [unfolded Inr]] by simp_all
    let ?conn = "io_bind (net_connect N d a) (\<lambda>_. io_ret d)" and ?reg = "io_bind (net_async_fd N d) (\<lambda>_. io_ret d)"
    have keep: "opn (snd (?conn k)) = opn k" "opn (snd (?reg k)) = opn k" for k
      using other_calls_open [OF law] by (auto simp: io_defs split: prod.splits sum.splits) (metis snd_conv)+
    obtain z k2 where c: "io_owning (net_close N) d ?conn k1 = (z, k2)" by fastforce
    have z: "z = Inr d \<or> isl z" using c by (auto simp: io_defs split: prod.splits sum.splits)
    have o2: "opn k2 = (if isl z then opn k1 - {d} else opn k1)"
      by (rule owning_isl [OF law keep(1) c])
    have run': "(case z of Inl e \<Rightarrow> (Inl e, k2) | Inr d \<Rightarrow> reactive_new N d k2) = (x, k')"
      using run s Inr c \<open>net_addr N p = Inr a\<close>
      by (auto simp: wire_connect_def io_bind_def split: sum.splits)
    show ?thesis
    proof (cases "isl z")
      case True
      with run' o2 d show ?thesis by (auto split: sum.splits)
    next
      case False
      with z have z: "z = Inr d" by auto
      with run' have r: "io_owning (net_close N) d ?reg k2 = (x, k')" by (simp add: reactive_new_def)
      have "x = Inr d \<or> isl x" using r by (auto simp: io_defs split: prod.splits sum.splits)
      moreover have "opn k' = (if isl x then opn k2 - {d} else opn k2)"
        by (rule owning_isl [OF law keep(2) r])
      ultimately show ?thesis using o2 z d by (auto split: sum.splits)
    qed
  qed
qed

section \<open>The accept task\<close>

text \<open>
  One accept that fails for good, or one registration, ends the task: it closes the listener,
  and whatever connects later is not served, although the binding still holds its lock.
\<close>

lemma failed_accept_ends_the_task:
  assumes "accept_now N l (env k) = (Inl e, k1)" and "io_error_kind e \<noteq> WouldBlock"
  shows "accept_task N borrow (l, r) ((Inr env # ws, vs) # rounds) k = (0, True, net_close N l k1)"
  using assms by (simp add: reactive_accept_def)

lemma ended_accept_task_serves_no_more:
  "accept_task N borrow (l, r) rounds k = (n, True, k') \<Longrightarrow>
   accept_task N borrow (l, r) (rounds @ later) k = (n, True, k')"
proof (induction N borrow "(l, r)" rounds k arbitrary: n rule: accept_task.induct)
  case (2 N borrow ws vs rounds k)
  then show ?case by (auto split: prod.splits option.splits sum.splits)
qed simp

section \<open>Properties\<close>

text \<open>C34: connecting leaves open what it returns and nothing else. On every path (no address, no
  socket, a refused connection or registration, a failed receive, a truncated message, an empty
  answer, an answer with several descriptors) nothing that was open is closed; if \<^verbatim>\<open>connect\<close> fails
  the table and the registry are as before, and if it returns a \<^verbatim>\<open>Ref\<close> that is alive and at most its
  own descriptor is new, none when it was recognised.\<close>

theorem connect_leaks_nothing:
  assumes "descriptor_law N opn" and "receive_law N opn" and "idle opn ws" and "cp_heap s a = None"
    and "ref_connect debug N rt a p ws (s, k) = (Some res, s', k')"
  shows "opn k \<subseteq> opn k' \<and>
    (case res of Inr (Returned r) \<Rightarrow> strong_count (cp_heap s') r \<noteq> 0 \<and>
         opn k' - opn k \<subseteq> {ref_borrowed_fd (cp_heap s') r}
     | _ \<Rightarrow> opn k' = opn k \<and> s' = s)"
proof -
  obtain x k1 where conn: "io_bind (wire_connect N p) (reactive_new N) k = (x, k1)" by fastforce
  note C = connection_open [OF assms(1) conn]
  show ?thesis
  proof (cases x)
    case (Inl e)
    with C conn assms(5) show ?thesis by (auto simp: ref_connect_def)
  next
    case (Inr d)
    obtain y k2 where r: "reactive_recv debug N d [] (net_cmsg_space N 1 0) ws k1 = (y, k2)" by fastforce
    then obtain z where y: "y = Some z" using assms(5) conn Inr by (cases y) (auto simp: ref_connect_def)
    note R = reactive_recv_open [OF assms(1,2,3) r [unfolded y]]
    note close = close_open [OF assms(1), of d k2]
    show ?thesis
    proof (cases "\<exists>rc buf f fs. z = Inr (Returned (rc, buf)) \<and> rc_fds rc = f # fs")
      case False
      then have "k' = net_close N d k2 \<and> s' = s \<and> (\<forall>r. res \<noteq> Inr (Returned r)) \<and> opn k2 = opn k1"
        using assms(5) conn Inr r y R
        by (auto simp: ref_connect_def split: sum.splits outcome.splits list.splits)
      with C Inr close show ?thesis by (auto split: sum.splits outcome.splits)
    next
      case True
      then obtain rc buf f fs where z: "z = Inr (Returned (rc, buf))" "rc_fds rc = f # fs" by blast
      obtain r s1 k3 where g: "ref_from_fd N rt a f (s, close_all N fs k2) = (r, (s1, k3))"
        by (metis prod.exhaust)
      have out: "res = Inr (Returned r)" "s' = s1" "k' = net_close N d k3"
        using assms(5) conn Inr r y z g by (auto simp: ref_connect_def)
      have F: "opn (close_all N fs k2) = insert f (insert d (opn k))" "f \<notin> opn k" "f \<noteq> d" "d \<notin> opn k"
        using close_all_open [OF assms(1), of fs k2] R z C Inr by auto
      show ?thesis
      proof (cases rule: from_fd_counts [OF g assms(4)])
        case 1
        with out F close_open [OF assms(1), of d k3] show ?thesis by auto
      next
        case 2
        with out F close_open [OF assms(1), of d k3] close_open [OF assms(1), of f "close_all N fs k2"]
        show ?thesis by auto
      qed
    qed
  qed
qed

lemma sample_receive_law: "receive_law sample_net (\<lambda>k. set (sk_open k))"
proof -
  have "x \<le> foldr max ds 0" if "x \<in> set ds" for x :: nat and ds using that by (induction ds) auto
  then have "set [sample_fresh k ..< sample_fresh k + n] \<inter> set (sk_open k) = {}" for k n
    unfolding sample_fresh_def by fastforce
  then show ?thesis
    by (auto simp: receive_law_def sample_net_def sample_recvmsg_def split: list.splits if_splits)
qed

text \<open>A binder offers two descriptors: the first becomes the reference, the other is closed.\<close>

theorem connect_leaks_nothing_witness:
  "set (sk_open (snd (snd (ref_connect True sample_net None 1 ''/s''
     [Inr id] (\<lparr>cp_heap = Map.empty, cp_refs = Map.empty\<rparr> :: unit caps, sample_kernel\<lparr>sk_queue := [([], [7, 8])]\<rparr>)))))
   = {0, 1, 2, 4}"
proof -
  let ?s = "\<lparr>cp_heap = Map.empty, cp_refs = Map.empty\<rparr> :: unit caps"
  let ?k = "sample_kernel\<lparr>sk_queue := [([], [7, 8])]\<rparr>"
  have idle: "idle (\<lambda>k. set (sk_open k)) [Inr id]" by (simp add: idle_def)
  have run: "ref_connect True sample_net None 1 ''/s'' [Inr id] (?s, ?k) =
      (Some (Inr (Returned 1)), \<lparr>cp_heap = [1 \<mapsto> \<lparr>strong = 1, inner = ref_inner_new None 4 (Some (9, 4))\<rparr>],
        cp_refs = [(9, 4) \<mapsto> 1]\<rparr>, sample_kernel\<lparr>sk_open := [4, 0, 1, 2]\<rparr>)"
    by (simp add: ref_connect_def wire_connect_def reactive_new_def reactive_recv_def recv_now_def sample_defs
        io_defs ref_from_fd_def socket_id_def weak_upgrade_def arc_new_def close_all_def overwrite_def upt_rec) (simp add: eval_nat_numeral)
  have "set (sk_open (sample_kernel\<lparr>sk_open := [4, 0, 1, 2]\<rparr>)) - set (sk_open ?k) \<subseteq> {4}"
    using connect_leaks_nothing [OF sample_descriptor_law sample_receive_law idle _ run]
    by (simp add: ref_borrowed_fd_def ref_inner_new_def)
  with run show ?thesis by (auto simp: sample_kernel_def)
qed

section \<open>The bound of the backlog\<close>

text \<open>C35: a \<^verbatim>\<open>Ref\<close> holds a bounded number of messages. Whatever its threads do, \<^verbatim>\<open>pending\<close> is at
  most \<^verbatim>\<open>DEPTH\<close> queued or lost, one in the drain task and one per calling thread, so it never
  comes near the width of the counter; and queued, reserved and lost messages together never
  exceed \<^verbatim>\<open>DEPTH\<close>.\<close>

theorem pending_bounded:
  assumes "mpsc_law (env_mpsc E) V" and "env_threads E + 10 < 2 ^ 64"
    and "reach (ref_sys_init k) (ref_step E) s" and "sh_outbox (rs_sh s) = Some (b, d)"
  shows "unat (ob_pending b) \<le> DEPTH + 1 + env_threads E \<and>
    length (rs_queue s) + vw_permits V (ob_sender b) + rs_leaked s \<le> DEPTH"
proof -
  have "ref_inv E V s" using reference.reach_inv [OF assms(3)] assms(1,2) by blast
  then have "unat (ob_pending b) = length (rs_queue s) + drain_holds (rs_drain s) +
      count_pcs (env_threads E) claims (rs_pcs s) + rs_leaked s"
    "length (rs_queue s) + vw_permits V (ob_sender b) + rs_leaked s \<le> DEPTH"
    using assms(4) by (auto simp: ref_inv_def box_inv_def)
  moreover have "drain_holds (rs_drain s) \<le> 1" by (cases "rs_drain s") auto
  moreover have "count_pcs (env_threads E) claims (rs_pcs s) \<le> env_threads E" by (rule count_pcs_le)
  ultimately show ?thesis by linarith
qed

theorem pending_bounded_witness:
  "unat (2 :: usize) \<le> 11 \<and> length (rs_queue backlog_state) \<le> 8"
  using pending_bounded [OF sample_env_law sample_env_threads backlog_reach]
  by (simp add: backlog_state_def sample_env_def DEPTH_def)

end
