(* ===== verification/Ipc_Echo_Text.thy ===== *)
theory Ipc_Echo_Text
  imports Ipc_Echo_Props Ipc_Node_Props
begin

text \<open>
  The text \<^verbatim>\<open>bound_server\<close> answers with: \<^verbatim>\<open>String::from_utf8_lossy\<close> is idempotent, can be three
  times as long as its argument, and what that does to the server.
\<close>

section \<open>The lossy text\<close>

text \<open>A character is recognised by its own bytes, whatever follows it.\<close>

lemma utf8_step_char:
  assumes "utf8_step bs = (n, True)" and "bs \<noteq> []"
  shows "utf8_step (take n bs @ ys) = (n, True)" and "0 < n" and "n \<le> length bs"
proof -
  have len: "0 < n \<and> n \<le> length bs"
    using assms by (auto simp: utf8_step_def Let_def cont_byte_def Suc_le_eq split: if_splits)
  then show "0 < n" "n \<le> length bs" by simp_all
  have hd: "hd (take n bs @ ys) = hd bs" using len assms(2) by (cases bs; cases n) auto
  have cont: "cont_byte (take n bs @ ys) i lo hi \<longleftrightarrow> cont_byte bs i lo hi" if "i < n" for i lo hi
    using that len by (simp add: cont_byte_def nth_append)
  show "utf8_step (take n bs @ ys) = (n, True)"
    using assms(1) cont unfolding utf8_step_def hd Let_def by (auto split: if_splits)
qed

lemma utf8_step_bad: "utf8_step bs = (n, False) \<Longrightarrow> 0 < n"
  by (auto simp: utf8_step_def Let_def split: if_splits)

lemma utf8_step_replacement: "utf8_step ([239, 191, 189] @ ys) = (3, True)"
  by (simp add: utf8_step_def cont_byte_def Let_def)

text \<open>The result is text: reading it again changes nothing. It is at most three times as long.\<close>

lemma utf8_lossy_char:
  assumes "utf8_step bs = (n, True)" and "bs \<noteq> []"
  shows "utf8_lossy bs = take n bs @ utf8_lossy (drop n bs)"
  using assms by (cases bs) simp_all

lemma utf8_lossy_bad:
  assumes "utf8_step bs = (n, False)" and "bs \<noteq> []"
  shows "utf8_lossy bs = [239, 191, 189] @ utf8_lossy (drop n bs)"
  using assms by (cases bs) simp_all

lemma utf8_lossy_idem: "utf8_lossy (utf8_lossy bs) = utf8_lossy bs"
proof (induction bs rule: utf8_lossy.induct)
  case (2 b bs)
  obtain n ok where s: "utf8_step (b # bs) = (n, ok)" by fastforce
  have s': "utf8_step (b # bs) = (n, True)" if ok using s that by simp
  have f': "utf8_step (b # bs) = (n, False)" if "\<not> ok" using s that by simp
  show ?case
  proof (cases ok)
    case True
    note ch = utf8_step_char [OF s' [OF True]]
    let ?c = "take n (b # bs)" and ?r = "utf8_lossy (drop n (b # bs))"
    have "utf8_lossy (?c @ ?r) = ?c @ utf8_lossy ?r"
      using utf8_lossy_char [OF ch(1) [of ?r]] ch(2,3) by simp
    moreover have "utf8_lossy ?r = ?r" using 2(1) s True by simp
    ultimately show ?thesis using utf8_lossy_char [OF s' [OF True]] by simp
  next
    case False
    let ?r = "utf8_lossy (drop n (b # bs))"
    have "utf8_lossy ([239, 191, 189] @ ?r) = [239, 191, 189] @ utf8_lossy ?r"
      using utf8_lossy_char [OF utf8_step_replacement [of ?r]] by simp
    moreover have "utf8_lossy ?r = ?r" using 2(2) s False by simp
    ultimately show ?thesis using utf8_lossy_bad [OF f' [OF False]] by simp
  qed
qed simp

lemma utf8_lossy_length: "length (utf8_lossy bs) \<le> 3 * length bs"
proof (induction bs rule: utf8_lossy.induct)
  case (2 b bs)
  obtain n ok where s: "utf8_step (b # bs) = (n, ok)" by fastforce
  let ?r = "drop n (b # bs)"
  have ih: "length (utf8_lossy ?r) \<le> 3 * length ?r" using 2 s by (cases ok) simp_all
  show ?case
  proof (cases ok)
    case True
    with s have c: "utf8_step (b # bs) = (n, True)" by simp
    have "length (utf8_lossy (b # bs)) = n + length (utf8_lossy ?r)"
      using utf8_lossy_char [OF c] utf8_step_char(3) [OF c] by (simp del: utf8_lossy.simps)
    with ih utf8_step_char(2,3) [OF c] show ?thesis by simp
  next
    case False
    with s have c: "utf8_step (b # bs) = (n, False)" by simp
    have "length (utf8_lossy (b # bs)) = 3 + length (utf8_lossy ?r)"
      using utf8_lossy_bad [OF c] by (simp del: utf8_lossy.simps)
    moreover have "length ?r < length (b # bs)" using utf8_step_bad [OF c] by simp
    ultimately show ?thesis using ih by (simp del: utf8_lossy.simps)
  qed
qed simp

lemma utf8_lossy_junk: "utf8_lossy (replicate n 255) = concat (replicate n [239, 191, 189])"
proof (induction n)
  case (Suc n)
  have "utf8_step (replicate (Suc n) 255) = (1, False)" by (simp add: utf8_step_def)
  from utf8_lossy_bad [OF this] Suc show ?case by simp
qed simp

lemma length_junk: "length (utf8_lossy (replicate n 255)) = 3 * n"
  unfolding utf8_lossy_junk by (induction n) simp_all

lemma echo_reply_too_long:
  assumes "MAX_MESSAGE_SIZE < length data"
  shows "fst (echo_reply N M rt new d data (s, k)) = Panicked"
proof -
  obtain r s1 k1 where f: "ref_from_owned_fd N rt (new s) d (s, k) = (r, s1, k1)" by (metis prod.exhaust)
  obtain res s2 k2 where t: "cap_try_send N M rt r (message_from_data data) (s1, k1) = (res, s2, k2)"
    by (metis prod.exhaust)
  have "\<forall>x. res \<noteq> Returned (Inr x)"
    using t assms by (auto simp: cap_try_send_def ref_try_send_def message_defs split: option.splits prod.splits)
  with f t show ?thesis by (auto simp: echo_reply_def split: outcome.splits sum.splits)
qed

text \<open>C37: a client can end \<^verbatim>\<open>bound_server\<close>. The reply is the lossy text of the payload, up to three
  times as long, and its \<^verbatim>\<open>try_send\<close> is unwrapped: a payload within the limit whose text is not
  makes the handler panic, whatever else happens, and that ends the receive loop, which is the
  node. In the witness the payload is 2731 bytes that are no text.\<close>

theorem long_text_ends_the_server:
  assumes "seqpacket_law N sock q hung" and "q k = (data, n) # ps" and "0 < n"
    and "length data \<le> MAX_MESSAGE_SIZE" and "MAX_MESSAGE_SIZE < length (utf8_lossy data)"
    and "quiet q hung ws"
    and "recv_loop_start debug N (bound_server_handle N M rt new) sock (ws # rounds) s k = (calls, e, s', k')"
  shows "e = Some LoopPanicked \<and> length calls = 1"
proof -
  let ?buf = "replicate MAX_MESSAGE_SIZE (0 :: u8)"
  have run: "recv_loop debug N (bound_server_handle N M rt new) sock (ws # rounds) ?buf s k = (calls, e, s', k')"
    using assms(7) by (simp add: recv_loop_start_def)
  show ?thesis
  proof (cases rule: recv_round [OF assms(1,6), of k debug ?buf])
    case (3 p m qs fds creds k1)
    then have p: "p = data" "m = n" using assms(2) by simp_all
    obtain f fs where fds: "fds = f # fs" using 3(5) p assms(3) by (cases fds) auto
    have ne: "data \<noteq> []" using assms(5) by auto
    have take_p: "take (length data) (overwrite data ?buf) = data" by (rule overwrite_take)
    have len: "length (overwrite data ?buf) = MAX_MESSAGE_SIZE" using assms(4) by (simp add: overwrite_length)
    obtain s1 k2 where "bound_server_handle N M rt new data fds creds (s, k1) = (Panicked, s1, k2)"
      using echo_reply_too_long [OF assms(5), of N M rt new f s "close_all N fs k1"] fds
      by (cases "echo_reply N M rt new f (utf8_lossy data) (s, close_all N fs k1)")
        (auto simp: bound_server_handle_def Let_def)
    with run 3(6) p ne take_p len assms(4) show ?thesis by (auto simp: received_truncated_def)
  qed (use assms(2) in simp_all)
qed

theorem long_text_ends_the_server_witness:
  "fst (snd (recv_loop_start True sample_net (bound_server_handle sample_net sample_mpsc None sample_alloc) 0
     [[Inr id]] \<lparr>cp_heap = Map.empty, cp_refs = Map.empty\<rparr>
     (sample_kernel\<lparr>sk_queue := [(replicate 2731 255, [2])]\<rparr>))) = Some LoopPanicked"
proof -
  let ?k = "sample_kernel\<lparr>sk_queue := [(replicate 2731 255, [2])]\<rparr>"
  let ?run = "recv_loop_start True sample_net (bound_server_handle sample_net sample_mpsc None sample_alloc) 0
     [[Inr id]] \<lparr>cp_heap = Map.empty, cp_refs = Map.empty\<rparr> ?k"
  obtain calls e s k' where run: "?run = (calls, e, s, k')" by (metis prod.exhaust)
  have "sample_waiting ?k = [(replicate 2731 255, 1)]" by (simp add: sample_waiting_def)
  from long_text_ends_the_server [OF sample_seqpacket_law this _ _ _ _ run] run length_junk [of 2731]
  show ?thesis by (simp add: MAX_MESSAGE_SIZE_def quiet_def)
qed

end
