(* ===== verification/Ipc_Timeline.thy ===== *)
theory Ipc_Timeline
  imports Ipc_Echo
begin

text \<open>
  \<^verbatim>\<open>examples/timeline.rs\<close>: a round trip cut into four sections by clock readings that travel in
  the payload. The clock is an input; an instant is what \<^verbatim>\<open>now_ns\<close> returned.
\<close>

section \<open>Stamps in a payload\<close>

definition HDR :: nat where
  "HDR = 24"

definition now_ns :: "64 word \<times> 64 word \<Rightarrow> u64" where
  "now_ns ts = fst ts * 1000000000 + snd ts"

definition stamp_get :: "u8 list \<Rightarrow> nat \<Rightarrow> u64 option" where
  "stamp_get data slot = map_option from_le_bytes (slice_get (slot * 8) (slot * 8 + 8) data)"

definition stamp_put :: "nat \<Rightarrow> u64 \<Rightarrow> u8 list \<Rightarrow> u8 list option" where
  "stamp_put slot v data = copy_into (slot * 8) (to_le_bytes v) data"

section \<open>The server\<close>

definition timeline_stamp :: "u64 \<Rightarrow> u64 \<Rightarrow> u8 list \<Rightarrow> u8 list option" where
  "timeline_stamp t1 t2 data = Option.bind (stamp_put 1 t1 data) (stamp_put 2 t2)"

text \<open>
  \<^verbatim>\<open>EchoHandler\<close>: a payload that begins with \<open>QUIT\<close> ends the process, and one without room for
  the stamps is dropped with its descriptors. \<open>t1\<close> is read on entry, \<open>t2\<close> before the answer.
\<close>

definition timeline_handle ::
  "'k net \<Rightarrow> ('c, message) mpsc \<Rightarrow> nat option \<Rightarrow> ('c ref_box caps \<Rightarrow> addr) \<Rightarrow> u64 \<Rightarrow> u64 \<Rightarrow>
   u8 list \<Rightarrow> fd list \<Rightarrow> ('c outbox \<Rightarrow> 'c outbox) list \<Rightarrow> addr option \<times> 'c ref_box caps \<times> 'k \<Rightarrow>
   server_outcome \<times> addr option \<times> 'c ref_box caps \<times> 'k" where
  "timeline_handle N M rt new t1 t2 data fds ws = (\<lambda>(cached, s, k).
     (if take 4 data = QUIT then (ServerExit, cached, s, k)
      else if length data < HDR then (ServerDone, cached, s, close_all N fds k)
      else (case cached_reply N rt new fds (cached, s, k) of
              (None, st1) \<Rightarrow> (ServerDone, st1)
            | (Some r, cached1, sk) \<Rightarrow>
                (case timeline_stamp t1 t2 data of
                   None \<Rightarrow> (ServerPanicked, cached1, ref_drop N r sk)
                 | Some out \<Rightarrow>
                     (case cached_answer N M rt r out ws sk of (res, sk1) \<Rightarrow> (res, cached1, sk1))))))"

section \<open>The client\<close>

text \<open>
  A reply as the client sees it: the sequence number, the server's two stamps, and the clock when
  the reply reached the handler. The handler's state is the channel to the frame loop.
\<close>

type_synonym stamps = "u64 \<times> u64 \<times> u64 \<times> u64"

definition timeline_reply :: "u64 \<Rightarrow> u8 list \<Rightarrow> stamps option" where
  "timeline_reply t3 data =
     (if HDR \<le> length data then
        (case (stamp_get data 0, stamp_get data 1, stamp_get data 2) of
           (Some s, Some t1, Some t2) \<Rightarrow> Some (s, t1, t2, t3)
         | _ \<Rightarrow> None)
      else None)"

definition timeline_reply_handle :: "'k net \<Rightarrow> u64 \<Rightarrow> (stamps list, 'k) handler" where
  "timeline_reply_handle N t3 data fds creds = (\<lambda>(q, k).
     (Returned data,
      (case timeline_reply t3 data of None \<Rightarrow> q | Some r \<Rightarrow> q @ [r]), close_all N fds k))"

text \<open>The message of a round: the payload with \<open>caps\<close> copies of the reply capability.\<close>

definition timeline_make :: "addr \<Rightarrow> u8 list \<Rightarrow> nat \<Rightarrow> 'o ref_heap \<Rightarrow> message \<times> 'o ref_heap" where
  "timeline_make r payload caps h = (add_ref r ^^ caps) (message_from_data payload, h)"

record timeline_log =
  tl_a :: "u64 list"
  tl_b :: "u64 list"
  tl_c :: "u64 list"
  tl_d :: "u64 list"
  tl_total :: "u64 list"
  tl_seqs :: "u64 list"
  tl_lost :: u64
  tl_seq :: u64

definition timeline_log_new :: "u64 \<Rightarrow> timeline_log" where
  "timeline_log_new s = \<lparr>tl_a = [], tl_b = [], tl_c = [], tl_d = [], tl_total = [], tl_seqs = [],
     tl_lost = 0, tl_seq = s\<rparr>"

text \<open>What the frame loop does with the outcome of a wait: \<open>None\<close> is a timeout.\<close>

definition timeline_record :: "u64 \<Rightarrow> u64 \<Rightarrow> stamps option \<Rightarrow> timeline_log \<Rightarrow> timeline_log" where
  "timeline_record t0 t0b answer l =
     (let l1 =
        (case answer of
           None \<Rightarrow> l\<lparr>tl_lost := tl_lost l + 1\<rparr>
         | Some (got, t1, t2, t3) \<Rightarrow>
             (if got = tl_seq l then
                (if t0 \<le> t0b \<and> t0b \<le> t1 \<and> t1 \<le> t2 \<and> t2 \<le> t3
                 then l\<lparr>tl_a := tl_a l @ [t0b - t0], tl_b := tl_b l @ [t1 - t0b],
                        tl_c := tl_c l @ [t2 - t1], tl_d := tl_d l @ [t3 - t2],
                        tl_total := tl_total l @ [t3 - t0], tl_seqs := tl_seqs l @ [got]\<rparr>
                 else l\<lparr>tl_lost := tl_lost l + 1\<rparr>)
              else l\<lparr>tl_lost := tl_lost l + 1\<rparr>))
      in l1\<lparr>tl_seq := tl_seq l1 + 1\<rparr>)"

text \<open>
  One message of a burst: whether its send succeeded, the clock before and after it, and the
  replies that reach the channel by the time the wait for one is over. The oldest reply in the
  channel is the answer; a wait that finds none is a timeout. A failed send ends the burst.
\<close>

record attempt =
  at_sent :: bool
  at_t0 :: u64
  at_t0b :: u64
  at_arrivals :: "stamps list"

fun timeline_burst :: "attempt list \<Rightarrow> stamps list \<times> timeline_log \<Rightarrow> stamps list \<times> timeline_log" where
  "timeline_burst [] st = st"
| "timeline_burst (x # xs) (q, l) =
     (if \<not> at_sent x then (q @ at_arrivals x, l)
      else (case q @ at_arrivals x of
              [] \<Rightarrow> timeline_burst xs ([], timeline_record (at_t0 x) (at_t0b x) None l)
            | r # rest \<Rightarrow> timeline_burst xs (rest, timeline_record (at_t0 x) (at_t0b x) (Some r) l)))"

definition timeline_frames :: "attempt list list \<Rightarrow> stamps list \<times> timeline_log \<Rightarrow> stamps list \<times> timeline_log" where
  "timeline_frames bursts st = fold timeline_burst bursts st"

section \<open>Lemmas\<close>

lemma le_digits_numeral:
  "le_digits (numeral n) v = of_nat v # le_digits (pred_numeral n) (v div 256)"
  using le_digits.simps(2) [of "pred_numeral n" v] unfolding numeral_eq_Suc [of n, symmetric] .

lemma stamp_put_same: "stamp_put s v xs = Some ys \<Longrightarrow> stamp_get ys s = Some v"
  using slice_copy_same [of "s * 8" "to_le_bytes v" xs ys] from_to_le_bytes [of 8, where 'w = 64, of v]
  by (simp add: stamp_put_def stamp_get_def)

lemma stamp_put_other:
  "stamp_put s v xs = Some ys \<Longrightarrow> t \<noteq> s \<Longrightarrow> stamp_get ys t = stamp_get xs t"
  using slice_copy_other [of "s * 8" "to_le_bytes v" xs ys "t * 8 + 8" "t * 8"]
  by (cases "t < s") (simp_all add: stamp_put_def stamp_get_def)

lemma stamp_put_tail:
  "stamp_put s v xs = Some ys \<Longrightarrow> s * 8 + 8 \<le> n \<Longrightarrow> length ys = length xs \<and> drop n ys = drop n xs"
  by (auto simp: stamp_put_def copy_into_def split: if_splits)

lemma stamp_put_ok: "s * 8 + 8 \<le> length xs \<Longrightarrow> \<exists>ys. stamp_put s v xs = Some ys"
  by (simp add: stamp_put_def copy_into_def)

text \<open>A log is sound when its sections add up and nothing is counted twice.\<close>

definition sections_ok :: "timeline_log \<Rightarrow> bool" where
  "sections_ok l \<longleftrightarrow>
     length (tl_a l) = length (tl_total l) \<and> length (tl_b l) = length (tl_total l) \<and>
     length (tl_c l) = length (tl_total l) \<and> length (tl_d l) = length (tl_total l) \<and>
     length (tl_seqs l) = length (tl_total l) \<and>
     (\<forall>i < length (tl_total l).
        unat (tl_total l ! i) = unat (tl_a l ! i) + unat (tl_b l ! i) + unat (tl_c l ! i) + unat (tl_d l ! i))"

lemma unat_diff: "a \<le> b \<Longrightarrow> unat (b - a :: u64) = unat b - unat a"
  by (simp add: unat_sub)

lemma sections_ok_record: "sections_ok l \<Longrightarrow> sections_ok (timeline_record t0 t0b x l)"
proof (cases x)
  case (Some r)
  assume ok: "sections_ok l"
  obtain got t1 t2 t3 where r: "r = (got, t1, t2, t3)" by (metis prod.exhaust)
  have "unat (t3 - t0) = unat (t0b - t0) + unat (t1 - t0b) + unat (t2 - t1) + unat (t3 - t2)"
    if "t0 \<le> t0b" "t0b \<le> t1" "t1 \<le> t2" "t2 \<le> t3"
    using that by (simp add: unat_diff word_le_nat_alt)
  with ok Some r show ?thesis
    by (auto simp: sections_ok_def timeline_record_def nth_append less_Suc_eq)
qed (simp add: sections_ok_def timeline_record_def)

lemma record_counts:
  "of_nat (length (tl_total (timeline_record t0 t0b x l))) + tl_lost (timeline_record t0 t0b x l) -
     tl_seq (timeline_record t0 t0b x l) = of_nat (length (tl_total l)) + tl_lost l - tl_seq l"
  by (auto simp: timeline_record_def Let_def split: option.splits prod.splits)

lemma burst_inv:
  "sections_ok l \<Longrightarrow> timeline_burst xs (q, l) = (q', l') \<Longrightarrow>
   sections_ok l' \<and> of_nat (length (tl_total l')) + tl_lost l' - tl_seq l' =
     of_nat (length (tl_total l)) + tl_lost l - tl_seq l"
proof (induction xs arbitrary: q l)
  case (Cons x xs)
  show ?case
  proof (cases "at_sent x")
    case True
    obtain a rest where "timeline_burst xs (rest, timeline_record (at_t0 x) (at_t0b x) a l) = (q', l')"
      using Cons.prems(2) True by (auto split: list.splits)
    from Cons.IH [OF sections_ok_record [OF Cons.prems(1)] this] show ?thesis by (simp add: record_counts)
  qed (use Cons.prems in simp)
qed simp


text \<open>Messages whose own reply, and nothing else, arrives while they are waited for.\<close>

fun own_replies :: "u64 \<Rightarrow> attempt list \<Rightarrow> bool" where
  "own_replies s [] \<longleftrightarrow> True"
| "own_replies s (x # xs) \<longleftrightarrow> at_sent x \<and> map fst (at_arrivals x) = [s] \<and> own_replies (s + 1) xs"

fun in_order :: "attempt \<Rightarrow> bool" where
  "in_order x \<longleftrightarrow> at_t0 x \<le> at_t0b x \<and>
     (\<forall>(s, t1, t2, t3) \<in> set (at_arrivals x). at_t0b x \<le> t1 \<and> t1 \<le> t2 \<and> t2 \<le> t3)"

lemma own_replies_sent: "own_replies s xs \<Longrightarrow> \<forall>x \<in> set xs. at_sent x"
  by (induction xs arbitrary: s) auto

lemma frames_concat:
  "\<forall>x \<in> set (concat bss). at_sent x \<Longrightarrow> timeline_frames bss st = timeline_burst (concat bss) st"
proof (induction bss arbitrary: st)
  case (Cons bs bss)
  have "timeline_burst (bs @ cs) st = timeline_burst cs (timeline_burst bs st)"
    if "\<forall>x \<in> set bs. at_sent x" for cs and st :: "stamps list \<times> timeline_log"
    using that by (induction bs st rule: timeline_burst.induct) (auto split: list.splits)
  with Cons show ?case by (simp add: timeline_frames_def)
qed (simp add: timeline_frames_def)

lemma record_other:
  "fst r \<noteq> tl_seq l \<Longrightarrow>
   timeline_record t0 t0b (Some r) l = l\<lparr>tl_lost := tl_lost l + 1, tl_seq := tl_seq l + 1\<rparr>"
  by (cases r) (simp add: timeline_record_def)

lemma burst_behind:
  "own_replies (tl_seq l) xs \<Longrightarrow> map fst q = [tl_seq l - 1] \<Longrightarrow>
   snd (timeline_burst xs (q, l)) =
     l\<lparr>tl_lost := tl_lost l + of_nat (length xs), tl_seq := tl_seq l + of_nat (length xs)\<rparr>"
proof (induction xs arbitrary: q l)
  case (Cons x xs)
  obtain r where q: "q = [r]" "fst r = tl_seq l - 1" using Cons.prems(2) by auto
  let ?l = "l\<lparr>tl_lost := tl_lost l + 1, tl_seq := tl_seq l + 1\<rparr>"
  have "snd (timeline_burst xs (at_arrivals x, ?l)) =
      ?l\<lparr>tl_lost := tl_lost ?l + of_nat (length xs), tl_seq := tl_seq ?l + of_nat (length xs)\<rparr>"
    using Cons.prems(1) by (intro Cons.IH) simp_all
  moreover have "timeline_burst (x # xs) (q, l) = timeline_burst xs (at_arrivals x, ?l)"
    using Cons.prems(1) q record_other [of r l] by simp
  ultimately show ?case by (simp add: algebra_simps)
qed simp

lemma burst_prompt:
  "own_replies (tl_seq l) xs \<Longrightarrow> \<forall>x \<in> set xs. in_order x \<Longrightarrow>
   length (tl_total (snd (timeline_burst xs ([], l)))) = length (tl_total l) + length xs \<and>
   tl_lost (snd (timeline_burst xs ([], l))) = tl_lost l"
proof (induction xs arbitrary: l)
  case (Cons x xs)
  obtain t1 t2 t3 where a: "at_arrivals x = [(tl_seq l, t1, t2, t3)]"
    using Cons.prems(1) by (auto simp: map_eq_Cons_conv)
  let ?l = "timeline_record (at_t0 x) (at_t0b x) (Some (tl_seq l, t1, t2, t3)) l"
  have rec: "tl_seq ?l = tl_seq l + 1" "tl_lost ?l = tl_lost l" "length (tl_total ?l) = length (tl_total l) + 1"
    using Cons.prems(2) a by (simp_all add: timeline_record_def)
  have "timeline_burst (x # xs) ([], l) = timeline_burst xs ([], ?l)" using Cons.prems(1) a by simp
  moreover have "own_replies (tl_seq ?l) xs" "\<forall>y \<in> set xs. in_order y"
    using Cons.prems rec(1) by simp_all
  ultimately show ?case using Cons.IH [of ?l] rec by (simp del: in_order.simps)
qed simp

section \<open>Properties\<close>


text \<open>The sections sum to the whole. After any number of frames, whatever arrives and in whatever
  order, every list of the log has one entry per recorded message, each total is exactly the sum
  of its four sections, with no wrap-around, and every message that was waited for is either
  recorded or counted as lost.\<close>

theorem timeline_sections_sum:
  "case timeline_frames bursts ([], timeline_log_new s) of (q, l) \<Rightarrow>
     sections_ok l \<and> of_nat (length (tl_total l)) + tl_lost l = tl_seq l - s"
proof -
  obtain q l where run: "timeline_frames bursts ([], timeline_log_new s) = (q, l)" by fastforce
  have "sections_ok l' \<and> of_nat (length (tl_total l')) + tl_lost l' - tl_seq l' =
      of_nat (length (tl_total l0)) + tl_lost l0 - tl_seq l0"
    if "sections_ok l0" "fold timeline_burst bursts (q0, l0) = (q', l')" for q0 l0 q' l'
    using that
  proof (induction bursts arbitrary: q0 l0)
    case (Cons b bs)
    obtain q1 l1 where b: "timeline_burst b (q0, l0) = (q1, l1)" by fastforce
    note B = burst_inv [OF Cons.prems(1) b]
    with Cons.IH [of l1 q1] Cons.prems(2) b show ?case by simp
  qed simp
  from this [of "timeline_log_new s" "[]" q l] run
  have "sections_ok l \<and> of_nat (length (tl_total l)) + tl_lost l - tl_seq l = - s"
    by (simp add: timeline_frames_def timeline_log_new_def sections_ok_def)
  with run show ?thesis by (simp add: algebra_simps eq_diff_eq)
qed

text \<open>One late reply loses every later sample. When the reply to one message misses its wait and
  comes in with the reply to the next, the loop is one reply behind from then on: it takes the
  reply before, sees another sequence number, and counts a loss, for every message of the rest of
  the run, although each reply arrives in time. From an empty channel the same messages would
  all have been recorded.\<close>

theorem late_reply_loses_the_rest:
  assumes "concat bursts = x # y # xs" and "at_sent x" and "at_arrivals x = []"
    and "at_sent y" and "map fst (at_arrivals y) = [tl_seq l, tl_seq l + 1]"
    and "own_replies (tl_seq l + 2) xs" and "\<forall>x \<in> set xs. in_order x"
  shows "snd (timeline_frames bursts ([], l)) =
      l\<lparr>tl_lost := tl_lost l + of_nat (length xs + 2), tl_seq := tl_seq l + of_nat (length xs + 2)\<rparr> \<and>
    length (tl_total (snd (timeline_burst xs ([], l\<lparr>tl_seq := tl_seq l + 2\<rparr>)))) = length (tl_total l) + length xs"
proof
  let ?l1 = "l\<lparr>tl_lost := tl_lost l + 1, tl_seq := tl_seq l + 1\<rparr>"
  let ?l2 = "l\<lparr>tl_lost := tl_lost l + 2, tl_seq := tl_seq l + 2\<rparr>"
  obtain r r' where y: "at_arrivals y = [r, r']" "fst r = tl_seq l" "fst r' = tl_seq l + 1"
    using assms(5) by (auto simp: map_eq_Cons_conv)
  have "\<forall>x \<in> set (concat bursts). at_sent x"
    unfolding assms(1) using assms(2,4) own_replies_sent [OF assms(6)] by simp
  then have "timeline_frames bursts ([], l) = timeline_burst (x # y # xs) ([], l)"
    using frames_concat [of bursts] assms(1) by simp
  also have "\<dots> = timeline_burst (y # xs) ([], ?l1)"
    using assms(2,3) by (simp add: timeline_record_def)
  also have "\<dots> = timeline_burst xs ([r'], ?l2)"
    using assms(4) y record_other [of r ?l1] by (simp add: algebra_simps)
  finally have "snd (timeline_frames bursts ([], l)) =
      ?l2\<lparr>tl_lost := tl_lost ?l2 + of_nat (length xs), tl_seq := tl_seq ?l2 + of_nat (length xs)\<rparr>"
    using burst_behind [of ?l2 xs "[r']"] assms(6) y(3) by (simp add: algebra_simps)
  then show "snd (timeline_frames bursts ([], l)) =
      l\<lparr>tl_lost := tl_lost l + of_nat (length xs + 2), tl_seq := tl_seq l + of_nat (length xs + 2)\<rparr>"
    by (simp add: algebra_simps)
  show "length (tl_total (snd (timeline_burst xs ([], l\<lparr>tl_seq := tl_seq l + 2\<rparr>)))) = length (tl_total l) + length xs"
    using burst_prompt [of "l\<lparr>tl_seq := tl_seq l + 2\<rparr>" xs] assms(6,7) by simp
qed

text \<open>A run of four messages in two bursts, of which the first reply is late.\<close>

definition late_burst :: "attempt list list" where
  "late_burst =
     [[\<lparr>at_sent = True, at_t0 = 10, at_t0b = 11, at_arrivals = []\<rparr>,
       \<lparr>at_sent = True, at_t0 = 50, at_t0b = 51, at_arrivals = [(7, 12, 13, 49), (8, 52, 53, 54)]\<rparr>],
      [\<lparr>at_sent = True, at_t0 = 60, at_t0b = 61, at_arrivals = [(9, 62, 63, 64)]\<rparr>,
       \<lparr>at_sent = True, at_t0 = 70, at_t0b = 71, at_arrivals = [(10, 72, 73, 74)]\<rparr>]]"

theorem late_reply_loses_the_rest_witness:
  "snd (timeline_frames late_burst ([], timeline_log_new 7)) = (timeline_log_new 11)\<lparr>tl_lost := 4\<rparr>"
  using late_reply_loses_the_rest [of late_burst _ _ "tl (tl (concat late_burst))" "timeline_log_new 7"]
  by (simp add: late_burst_def timeline_log_new_def)

text \<open>The sequence number is what the payload begins with, so one of them spells the order to quit.\<close>

lemma seq_can_spell_quit:
  assumes "stamp_put 0 0x54495551 payload = Some data"
  shows "fst (timeline_handle N M rt new t1 t2 data fds ws st) = ServerExit"
proof -
  have "to_le_bytes (0x54495551 :: u64) = [81, 85, 73, 84, 0, 0, 0, 0]"
    by (simp add: to_le_bytes_def le_digits_numeral)
  then have "take 4 data = QUIT"
    using assms by (auto simp: stamp_put_def copy_into_def QUIT_def split: if_splits)
  then show ?thesis by (cases st) (simp add: timeline_handle_def)
qed

end
