(* ===== verification/Ipc_Paced.thy ===== *)
theory Ipc_Paced
  imports Ipc_Echo
begin

text \<open>
  The measuring side of \<^verbatim>\<open>examples/paced.rs\<close>: frames of a burst of messages, one reply each, and
  the account it keeps of what came back. The clock and what a wait returns are inputs; instants
  are natural numbers of nanoseconds.
\<close>

section \<open>Replies\<close>

definition SEQ_BYTES :: nat where
  "SEQ_BYTES = 8"

definition paced_reply :: "nat \<Rightarrow> u8 list \<Rightarrow> (u64 \<times> nat) option" where
  "paced_reply now data =
     (if SEQ_BYTES \<le> length data then Some (from_le_bytes (take SEQ_BYTES data), now) else None)"

definition paced_reply_handle :: "'k net \<Rightarrow> nat \<Rightarrow> ((u64 \<times> nat) list, 'k) handler" where
  "paced_reply_handle N now data fds creds = (\<lambda>(q, k).
     (Returned data, (case paced_reply now data of None \<Rightarrow> q | Some r \<Rightarrow> q @ [r]), close_all N fds k))"

text \<open>
  \<^verbatim>\<open>recv_reply\<close>: on the raw socket what \<^verbatim>\<open>recv\<close> returned, if it did in time: its length, the
  buffer and the clock; otherwise what came out of the channel.
\<close>

definition recv_reply ::
  "(nat \<times> u8 list \<times> nat) option option \<Rightarrow> (u64 \<times> nat) option \<Rightarrow> (u64 \<times> nat) option" where
  "recv_reply raw channel =
     (case raw of
        Some got \<Rightarrow>
          (case got of
             None \<Rightarrow> None
           | Some (n, buf, now) \<Rightarrow>
               (if n < SEQ_BYTES then None else Some (from_le_bytes (take SEQ_BYTES buf), now)))
      | None \<Rightarrow> channel)"

section \<open>A frame\<close>

record paced_log =
  pc_msg_ns :: "u64 list"
  pc_burst_ns :: "u64 list"
  pc_wake_ns :: "u64 list"
  pc_late_frames :: u64
  pc_lost :: u64
  pc_seq :: u64
  pc_sent_at :: "u64 \<rightharpoonup> nat"

text \<open>\<^verbatim>\<open>duration_since\<close> saturates, and \<^verbatim>\<open>as u64\<close> truncates.\<close>

definition elapsed_ns :: "nat \<Rightarrow> nat \<Rightarrow> u64" where
  "elapsed_ns t0 at = of_nat (at - t0)"

text \<open>
  One at a time: whether the send succeeded, the clock before it, and what \<^verbatim>\<open>recv_reply\<close>
  returned. The count is \<^verbatim>\<open>done\<close>.
\<close>

fun paced_sequential ::
  "((bool \<times> nat) \<times> (u64 \<times> nat) option) list \<Rightarrow> nat \<times> paced_log \<Rightarrow> nat \<times> paced_log" where
  "paced_sequential [] st = st"
| "paced_sequential (((sent, t0), answer) # xs) (n, l) =
     (if \<not> sent then (n, l)
      else
        (let l1 = l\<lparr>pc_seq := pc_seq l + 1\<rparr>
         in case answer of
              None \<Rightarrow> paced_sequential xs (n, l1\<lparr>pc_lost := pc_lost l1 + 1\<rparr>)
            | Some (_, at) \<Rightarrow>
                paced_sequential xs (Suc n, l1\<lparr>pc_msg_ns := pc_msg_ns l1 @ [elapsed_ns t0 at]\<rparr>)))"

text \<open>All at once: the sends, then as many waits, matched by sequence number.\<close>

fun paced_send :: "(bool \<times> nat) list \<Rightarrow> paced_log \<Rightarrow> paced_log" where
  "paced_send [] l = l"
| "paced_send ((sent, t0) # xs) l =
     (let l1 = l\<lparr>pc_sent_at := (pc_sent_at l)(pc_seq l \<mapsto> t0)\<rparr>
      in if \<not> sent then l1 else paced_send xs (l1\<lparr>pc_seq := pc_seq l1 + 1\<rparr>))"

fun paced_collect :: "(u64 \<times> nat) option list \<Rightarrow> nat \<times> paced_log \<Rightarrow> nat \<times> paced_log" where
  "paced_collect [] st = st"
| "paced_collect (None # xs) (n, l) = paced_collect xs (n, l\<lparr>pc_lost := pc_lost l + 1\<rparr>)"
| "paced_collect (Some (got, at) # xs) (n, l) =
     (case pc_sent_at l got of
        None \<Rightarrow> paced_collect xs (n, l)
      | Some t0 \<Rightarrow> paced_collect xs (Suc n,
          l\<lparr>pc_sent_at := (pc_sent_at l)(got := None), pc_msg_ns := pc_msg_ns l @ [elapsed_ns t0 at]\<rparr>))"

text \<open>What a frame sees of the world: its deadline and the clock, the sends and the waits.\<close>

record frame_input =
  fi_deadline :: nat
  fi_woke :: nat
  fi_send :: "nat \<Rightarrow> bool \<times> nat"
  fi_answer :: "nat \<Rightarrow> (u64 \<times> nat) option"
  fi_elapsed :: nat

definition paced_frame :: "bool \<Rightarrow> nat \<Rightarrow> nat \<Rightarrow> frame_input \<Rightarrow> paced_log \<Rightarrow> paced_log" where
  "paced_frame sequential burst period x l =
     (let l1 = l\<lparr>pc_wake_ns := pc_wake_ns l @ [elapsed_ns (fi_deadline x) (fi_woke x)]\<rparr>;
          (got, l2) =
            (if sequential
             then paced_sequential (map (\<lambda>i. (fi_send x i, fi_answer x i)) [0 ..< burst]) (0, l1)
             else paced_collect (map (fi_answer x) [0 ..< burst])
                    (0, paced_send (map (fi_send x) [0 ..< burst]) l1));
          l3 = l2\<lparr>pc_burst_ns := pc_burst_ns l2 @ [of_nat (fi_elapsed x)]\<rparr>;
          l4 = (if period < fi_elapsed x then l3\<lparr>pc_late_frames := pc_late_frames l3 + 1\<rparr> else l3)
      in if got < burst then l4\<lparr>pc_lost := pc_lost l4 + of_nat (burst - got)\<rparr> else l4)"

section \<open>Lemmas\<close>

abbreviation timeouts :: "(u64 \<times> nat) option list \<Rightarrow> nat" where
  "timeouts xs \<equiv> length (filter (\<lambda>a. a = None) xs)"

lemma paced_sequential_count:
  "paced_sequential xs (n, l) = (m, l') \<Longrightarrow> ws = map snd (takeWhile (\<lambda>x. fst (fst x)) xs) \<Longrightarrow>
   m + timeouts ws = n + length ws \<and> length (pc_msg_ns l') + n = length (pc_msg_ns l) + m \<and>
   pc_lost l' = pc_lost l + of_nat (timeouts ws)"
proof (induction xs arbitrary: n l ws)
  case (Cons x xs)
  obtain sent t0 a where x: "x = ((sent, t0), a)" by (metis prod.exhaust)
  let ?l1 = "l\<lparr>pc_seq := pc_seq l + 1\<rparr>" and ?ws = "map snd (takeWhile (\<lambda>x. fst (fst x)) xs)"
  show ?case
  proof (cases sent)
    case True
    show ?thesis
    proof (cases a)
      case None
      with Cons.IH [of n "?l1\<lparr>pc_lost := pc_lost ?l1 + 1\<rparr>" ?ws] Cons.prems x True
      show ?thesis by (auto simp: algebra_simps)
    next
      case (Some r)
      obtain got at where "r = (got, at)" by fastforce
      with Cons.IH [of "Suc n" "?l1\<lparr>pc_msg_ns := pc_msg_ns ?l1 @ [elapsed_ns t0 at]\<rparr>" ?ws] Cons.prems x True Some
      show ?thesis by auto
    qed
  qed (use Cons.prems x in auto)
qed simp

lemma paced_send_same:
  "pc_msg_ns (paced_send xs l) = pc_msg_ns l" "pc_lost (paced_send xs l) = pc_lost l"
  by (induction xs l rule: paced_send.induct) (simp_all add: Let_def)

lemma paced_send_files:
  "\<forall>x \<in> set xs. fst x \<Longrightarrow>
   dom (pc_sent_at l) \<union> (\<lambda>i. pc_seq l + of_nat i) ` {..< length xs} \<subseteq> dom (pc_sent_at (paced_send xs l))"
proof (induction xs arbitrary: l)
  case (Cons x xs)
  obtain t0 where x: "x = (True, t0)" using Cons.prems by (cases x) auto
  let ?l = "l\<lparr>pc_sent_at := (pc_sent_at l)(pc_seq l \<mapsto> t0), pc_seq := pc_seq l + 1\<rparr>"
  have run: "paced_send (x # xs) l = paced_send xs ?l" using x by simp
  have "(\<lambda>i. pc_seq l + of_nat i) ` {..< length (x # xs)} =
      insert (pc_seq l) ((\<lambda>i. pc_seq ?l + of_nat i) ` {..< length xs})"
    by (auto simp: lessThan_Suc_eq_insert_0 image_image algebra_simps)
  moreover have "dom (pc_sent_at ?l) \<union> (\<lambda>i. pc_seq ?l + of_nat i) ` {..< length xs} \<subseteq> dom (pc_sent_at (paced_send xs ?l))"
    using Cons.prems by (intro Cons.IH) simp
  moreover have "dom (pc_sent_at ?l) = insert (pc_seq l) (dom (pc_sent_at l))" by simp
  ultimately show ?case unfolding run by blast
qed simp

definition gots :: "(u64 \<times> nat) option list \<Rightarrow> u64 list" where
  "gots xs = map fst (List.map_filter id xs)"

lemma gots_simps [simp]: "gots [] = []" "gots (None # xs) = gots xs" "gots (Some r # xs) = fst r # gots xs"
  by (simp_all add: gots_def List.map_filter_simps)

lemma paced_collect_count:
  "paced_collect xs (n, l) = (m, l') \<Longrightarrow>
   m + timeouts xs \<le> n + length xs \<and> length (pc_msg_ns l') + n = length (pc_msg_ns l) + m \<and>
   pc_lost l' = pc_lost l + of_nat (timeouts xs) \<and>
   (distinct (gots xs) \<and> set (gots xs) \<subseteq> dom (pc_sent_at l) \<longrightarrow> m + timeouts xs = n + length xs)"
proof (induction xs arbitrary: n l)
  case (Cons x xs)
  show ?case
  proof (cases x)
    case None
    with Cons.IH [of n "l\<lparr>pc_lost := pc_lost l + 1\<rparr>"] Cons.prems show ?thesis by (auto simp: algebra_simps)
  next
    case (Some r)
    obtain got at where r: "r = (got, at)" by fastforce
    show ?thesis
    proof (cases "pc_sent_at l got")
      case None
      with Cons.IH [of n l] Cons.prems Some r show ?thesis by auto
    next
      case (Some t0)
      let ?l = "l\<lparr>pc_sent_at := (pc_sent_at l)(got := None), pc_msg_ns := pc_msg_ns l @ [elapsed_ns t0 at]\<rparr>"
      have "set (gots xs) \<subseteq> dom (pc_sent_at ?l)"
        if "distinct (gots (x # xs))" "set (gots (x # xs)) \<subseteq> dom (pc_sent_at l)"
        using that \<open>x = Some r\<close> r by auto
      with Cons.IH [of "Suc n" ?l] Cons.prems Some \<open>x = Some r\<close> r show ?thesis by auto
    qed
  qed
qed simp

section \<open>Properties\<close>

text \<open>What came back in a frame: every send went out, and each reply seen is that of a message of the
  burst, no two of the same.\<close>

definition frame_matched :: "nat \<Rightarrow> frame_input \<Rightarrow> u64 \<Rightarrow> bool" where
  "frame_matched burst x seq \<longleftrightarrow>
     (\<forall>i < burst. fst (fi_send x i)) \<and> distinct (gots (map (fi_answer x) [0 ..< burst])) \<and>
     set (gots (map (fi_answer x) [0 ..< burst])) \<subseteq> (\<lambda>i. seq + of_nat i) ` {..< burst}"

text \<open>A reply that never came is reported twice. In a frame in which every message was sent and
  every reply that was seen is one of its own, the count of lost replies grows by twice the number
  of messages without a sample, pipelined or not: once at the timeout and once at the end of the
  frame. In any frame whatever it grows by at least that number and by at most twice it.\<close>

theorem paced_lost_bounds:
  "let l' = paced_frame sequential burst period x l; got = length (pc_msg_ns l') - length (pc_msg_ns l)
   in got \<le> burst \<and>
      (if frame_matched burst x (pc_seq l) then pc_lost l' = pc_lost l + 2 * of_nat (burst - got)
       else \<exists>again \<le> burst - got. pc_lost l' = pc_lost l + of_nat (burst - got) + of_nat again)"
proof -
  let ?l1 = "l\<lparr>pc_wake_ns := pc_wake_ns l @ [elapsed_ns (fi_deadline x) (fi_woke x)]\<rparr>"
  let ?as = "map (fi_answer x) [0 ..< burst]" and ?ss = "map (fi_send x) [0 ..< burst]"
  obtain got l2 where run: "(if sequential
      then paced_sequential (map (\<lambda>i. (fi_send x i, fi_answer x i)) [0 ..< burst]) (0, ?l1)
      else paced_collect ?as (0, paced_send ?ss ?l1)) = (got, l2)" by fastforce
  have "\<exists>again. length (pc_msg_ns l2) = length (pc_msg_ns l) + got \<and> again + got \<le> burst \<and>
      pc_lost l2 = pc_lost l + of_nat again \<and> (frame_matched burst x (pc_seq l) \<longrightarrow> again + got = burst)"
  proof (cases sequential)
    case True
    let ?xs = "map (\<lambda>i. (fi_send x i, fi_answer x i)) [0 ..< burst]"
    let ?ws = "map snd (takeWhile (\<lambda>x. fst (fst x)) ?xs)"
    have "paced_sequential ?xs (0, ?l1) = (got, l2)" using run True by simp
    note C = paced_sequential_count [OF this refl]
    have "length ?ws \<le> burst" using length_takeWhile_le [of _ ?xs] by simp
    moreover have "length ?ws = burst" if "frame_matched burst x (pc_seq l)"
    proof -
      have "\<forall>y \<in> set ?xs. fst (fst y)" using that by (auto simp: frame_matched_def)
      then have "takeWhile (\<lambda>x. fst (fst x)) ?xs = ?xs" by (simp only: takeWhile_eq_all_conv)
      then show ?thesis by (simp only: length_map length_upt diff_zero)
    qed
    ultimately show ?thesis using C by (intro exI [of _ "timeouts ?ws"]) auto
  next
    case False
    have "paced_collect ?as (0, paced_send ?ss ?l1) = (got, l2)" using run False by simp
    note C = paced_collect_count [OF this]
    have "set (gots ?as) \<subseteq> dom (pc_sent_at (paced_send ?ss ?l1))" if m: "frame_matched burst x (pc_seq l)"
    proof -
      have "(\<lambda>i. pc_seq l + of_nat i) ` {..< burst} \<subseteq> dom (pc_sent_at (paced_send ?ss ?l1))"
        using paced_send_files [of ?ss ?l1] m by (simp add: frame_matched_def)
      with m show ?thesis unfolding frame_matched_def by (meson subset_trans)
    qed
    with C show ?thesis
      by (intro exI [of _ "timeouts ?as"]) (auto simp: paced_send_same frame_matched_def)
  qed
  then obtain again where A: "length (pc_msg_ns l2) = length (pc_msg_ns l) + got" "again + got \<le> burst"
    "pc_lost l2 = pc_lost l + of_nat again" "frame_matched burst x (pc_seq l) \<longrightarrow> again + got = burst" by blast
  have "pc_msg_ns (paced_frame sequential burst period x l) = pc_msg_ns l2"
    "pc_lost (paced_frame sequential burst period x l) = pc_lost l2 + of_nat (burst - got)"
    using run by (simp_all add: paced_frame_def Let_def split: prod.splits)
  moreover define l' where "l' = paced_frame sequential burst period x l"
  ultimately have L: "length (pc_msg_ns l') - length (pc_msg_ns l) = got"
    "pc_lost l' = pc_lost l + of_nat (burst - got) + of_nat again" using A(1,3) by (simp_all add: add_ac)
  show ?thesis
  proof (cases "frame_matched burst x (pc_seq l)")
    case True
    with A(4) have "again = burst - got" by simp
    then have "pc_lost l' = pc_lost l + 2 * of_nat (burst - got)" using L(2) by (simp add: add.assoc)
    with A(2) True L(1) show ?thesis unfolding l'_def [symmetric] Let_def by simp
  next
    case False
    moreover have "again \<le> burst - got" using A(2) by simp
    ultimately show ?thesis using A(2) L unfolding l'_def [symmetric] Let_def by auto
  qed
qed

text \<open>
  One at a time, a reply is not matched with its message: after a late one each sample is the
  time to the reply before, and none at all when that was there before the send.
\<close>

lemma paced_sequential_behind:
  "\<forall>x \<in> set xs. fst (fst x) \<and> (\<exists>g at. snd x = Some (g, at) \<and> at \<le> snd (fst x)) \<Longrightarrow>
   pc_msg_ns (snd (paced_sequential xs (n, l))) = pc_msg_ns l @ replicate (length xs) 0"
proof (induction xs arbitrary: n l)
  case (Cons x xs)
  then show ?case by (cases x) (auto simp: elapsed_ns_def Let_def)
qed simp

end
