(* ===== verification/Ipc_Proc.thy ===== *)
theory Ipc_Proc
  imports Ipc_Prelude
begin

text \<open>
  What the benchmarks read out of \<^verbatim>\<open>/proc\<close>: the processor time of a process from its \<^verbatim>\<open>stat\<close>
  line and a size from its \<^verbatim>\<open>status\<close>. The files are strings; everything after a command name is
  ASCII, so white space is that of ASCII.
\<close>

section \<open>Strings\<close>

definition is_space :: "char \<Rightarrow> bool" where
  "is_space c \<longleftrightarrow> of_char c \<in> {9, 10, 11, 12, 13, 32 :: nat}"

text \<open>\<^verbatim>\<open>&s[s.rfind(c)? + 1..]\<close>: what follows the last \<open>c\<close>.\<close>

fun after_last :: "char \<Rightarrow> string \<Rightarrow> string option" where
  "after_last c [] = None"
| "after_last c (x # xs) =
     (case after_last c xs of Some r \<Rightarrow> Some r | None \<Rightarrow> if x = c then Some xs else None)"

text \<open>\<^verbatim>\<open>split_whitespace\<close> and \<^verbatim>\<open>lines\<close>.\<close>

fun split_on :: "(char \<Rightarrow> bool) \<Rightarrow> string \<Rightarrow> string list" where
  "split_on p [] = [[]]"
| "split_on p (x # xs) =
     (if p x then [] # split_on p xs
      else case split_on p xs of [] \<Rightarrow> [[x]] | w # ws \<Rightarrow> (x # w) # ws)"

definition split_whitespace :: "string \<Rightarrow> string list" where
  "split_whitespace s = filter (\<lambda>w. w \<noteq> []) (split_on is_space s)"

definition lines_of :: "string \<Rightarrow> string list" where
  "lines_of s = (let ls = split_on (\<lambda>c. of_char c = (10 :: nat)) s
     in if last ls = [] then butlast ls else ls)"

text \<open>\<^verbatim>\<open>str::parse::<u64>\<close>: an optional plus sign, at least one digit, and no overflow.\<close>

definition is_digit :: "char \<Rightarrow> bool" where
  "is_digit c \<longleftrightarrow> 48 \<le> (of_char c :: nat) \<and> (of_char c :: nat) \<le> 57"

definition parse_u64 :: "string \<Rightarrow> u64 option" where
  "parse_u64 s =
     (let ds = (case s of c # cs \<Rightarrow> if of_char c = (43 :: nat) then cs else s | [] \<Rightarrow> [])
      in if ds \<noteq> [] \<and> list_all is_digit ds \<and> read_nat 0 ds < 2 ^ 64 then Some (of_nat (read_nat 0 ds))
         else None)"

definition list_get :: "nat \<Rightarrow> 'a list \<Rightarrow> 'a option" where
  "list_get i xs = (if i < length xs then Some (xs ! i) else None)"

section \<open>The readings\<close>

text \<open>\<^verbatim>\<open>cpu_seconds\<close> without its last step, the division of the ticks by the clock rate.\<close>

definition cpu_ticks :: "string \<Rightarrow> u64 option" where
  "cpu_ticks stat =
     Option.bind (after_last (CHR '')'') stat) (\<lambda>rest.
       (let fields = split_whitespace rest
        in Option.bind (Option.bind (list_get 11 fields) parse_u64) (\<lambda>utime.
             map_option (\<lambda>stime. utime + stime) (Option.bind (list_get 12 fields) parse_u64))))"

definition status_kb :: "string option \<Rightarrow> string \<Rightarrow> u64 option" where
  "status_kb status key =
     Option.bind status (\<lambda>s.
       Option.bind (find (\<lambda>l. take (length key) l = key) (lines_of s)) (\<lambda>l.
         Option.bind (list_get 1 (split_whitespace l)) parse_u64))"

definition rss_kb :: "string option \<Rightarrow> u64" where
  "rss_kb status = (case status_kb status ''VmRSS:'' of None \<Rightarrow> 0 | Some n \<Rightarrow> n)"

definition peak_rss_kb :: "string option \<Rightarrow> u64" where
  "peak_rss_kb status = (case status_kb status ''VmHWM:'' of None \<Rightarrow> 0 | Some n \<Rightarrow> n)"

section \<open>Lemmas\<close>

lemma after_last_none: "c \<notin> set xs \<Longrightarrow> after_last c xs = None"
  by (induction xs) auto

lemma after_last_append: "c \<notin> set ys \<Longrightarrow> after_last c (xs @ c # ys) = Some ys"
  by (induction xs) (simp_all add: after_last_none)

lemma split_on_nonempty [simp]: "split_on p s \<noteq> []"
  by (induction s) (auto split: list.splits)

lemma split_on_word: "list_all (\<lambda>c. \<not> p c) w \<Longrightarrow> split_on p (w @ s) = (w @ hd (split_on p s)) # tl (split_on p s)"
  by (induction w) (auto split: list.splits)

lemma split_words:
  "\<forall>w \<in> set ws. w \<noteq> [] \<and> list_all (\<lambda>c. \<not> is_space c) w \<Longrightarrow>
   split_whitespace (concat (map (\<lambda>w. CHR '' '' # w) ws)) = ws"
proof (induction ws)
  case (Cons w ws)
  let ?rest = "concat (map (\<lambda>w. CHR '' '' # w) ws)"
  have sp: "is_space (CHR '' '')" by (simp add: is_space_def)
  have "hd (split_on is_space ?rest) = []" by (cases ws) (simp_all add: sp)
  moreover have "filter (\<lambda>w. w \<noteq> []) (split_on is_space ?rest) = ws"
    using Cons by (simp add: split_whitespace_def)
  ultimately have "filter (\<lambda>w. w \<noteq> []) (tl (split_on is_space ?rest)) = ws"
    by (cases "split_on is_space ?rest") auto
  with Cons.prems sp \<open>hd (split_on is_space ?rest) = []\<close> show ?case
    by (simp add: split_whitespace_def split_on_word)
qed (simp add: split_whitespace_def)

lemma show_nat_digits: "list_all is_digit (show_nat n)"
proof (induction n rule: show_nat.induct)
  case (1 n)
  have "is_digit (char_of (48 + m))" if "m < 10" for m :: nat
    using that by (simp add: is_digit_def)
  with 1 show ?case by (subst show_nat.simps) auto
qed

lemma digit_not_space: "is_digit c \<Longrightarrow> \<not> is_space c"
  by (auto simp: is_digit_def is_space_def)

lemma parse_show: "n < 2 ^ 64 \<Longrightarrow> parse_u64 (show_nat n) = Some (of_nat n)"
proof -
  assume n: "n < 2 ^ 64"
  obtain c cs where s: "show_nat n = c # cs" by (cases "show_nat n") auto
  then have "of_char c \<noteq> (43 :: nat)" using show_nat_digits [of n] by (simp add: is_digit_def)
  with n s show ?thesis using show_nat_digits [of n] read_show_nat [of n] by (simp add: parse_u64_def)
qed

text \<open>
  The reading is right for every command name: whatever it contains, spaces and parentheses
  included, the ticks are the sum of the two fields after the last parenthesis.
\<close>

theorem cpu_ticks_reads_stat:
  assumes "\<forall>w \<in> set ws. w \<noteq> [] \<and> list_all (\<lambda>c. \<not> is_space c \<and> c \<noteq> CHR '')'') w"
    and "12 < length ws" and "ws ! 11 = show_nat u" and "ws ! 12 = show_nat v" and "u < 2 ^ 64" and "v < 2 ^ 64"
  shows "cpu_ticks (pid @ CHR ''('' # comm @ CHR '')'' # concat (map (\<lambda>w. CHR '' '' # w) ws)) =
    Some (of_nat u + of_nat v)"
proof -
  let ?tail = "concat (map (\<lambda>w. CHR '' '' # w) ws)"
  have "CHR '')'' \<notin> set ?tail" using assms(1) by (auto simp: list_all_iff)
  then have "after_last (CHR '')'') (pid @ CHR ''('' # comm @ CHR '')'' # ?tail) = Some ?tail"
    using after_last_append [of "CHR '')''" ?tail "pid @ CHR ''('' # comm"] by simp
  moreover have "split_whitespace ?tail = ws"
    using assms(1) by (intro split_words) (auto simp: list_all_iff)
  ultimately show ?thesis
    using assms(2-6) parse_show by (simp add: cpu_ticks_def list_get_def)
qed

end
