(* ===== verification/Ipc_Bench.thy ===== *)
theory Ipc_Bench
  imports Ipc_Echo
begin

text \<open>
  The measuring side of \<^verbatim>\<open>examples/bench.rs\<close>: the descriptor watchdog, the sends that count
  backpressure, and the loops; and the raw rung of \<^verbatim>\<open>examples/fdcost.rs\<close>. What the clock and
  \<^verbatim>\<open>/proc\<close> say are inputs.
\<close>

section \<open>Descriptor limits\<close>

text \<open>\<^verbatim>\<open>getrlimit\<close> and \<^verbatim>\<open>setrlimit\<close> of the soft and hard limit; a failed call leaves zeros.\<close>

definition nofile_limit :: "('k \<Rightarrow> (u64 \<times> u64) option) \<Rightarrow> 'k \<Rightarrow> u64" where
  "nofile_limit get k = (case get k of None \<Rightarrow> 0 | Some (cur, mx) \<Rightarrow> cur)"

definition set_nofile_limit ::
  "('k \<Rightarrow> (u64 \<times> u64) option) \<Rightarrow> (u64 \<times> u64 \<Rightarrow> 'k \<Rightarrow> 'k) \<Rightarrow> u64 \<Rightarrow> 'k \<Rightarrow> 'k" where
  "set_nofile_limit get put soft k =
     (case get k of None \<Rightarrow> put (min soft 0, 0) k | Some (cur, mx) \<Rightarrow> put (min soft mx, mx) k)"

section \<open>The watchdog\<close>

text \<open>
  A log entry is the time since the log was started, the two sizes and the server's
  descriptors; times are an abstract type with a test for the next entry being due.
\<close>

record 't fd_watch =
  fw_threshold :: u64
  fw_peak_self :: u64
  fw_peak_child :: u64
  fw_tripped :: bool
  fw_timeline :: "('t \<times> u64 \<times> u64 \<times> u64) list option"

text \<open>The result says whether the sample aborts the run. The log is tried, not waited for.\<close>

definition fd_sample ::
  "('t \<Rightarrow> 't \<Rightarrow> bool) \<Rightarrow> bool \<Rightarrow> 't \<Rightarrow> u64 \<Rightarrow> u64 \<Rightarrow> u64 \<Rightarrow> u64 \<Rightarrow> 't fd_watch \<Rightarrow> bool \<times> 't fd_watch" where
  "fd_sample due locked t rss_self rss_child mine theirs w =
     (let w1 = w\<lparr>fw_peak_self := max (fw_peak_self w) mine, fw_peak_child := max (fw_peak_child w) theirs\<rparr>;
          w2 =
            (if locked then w1
             else (case fw_timeline w1 of
                     None \<Rightarrow> w1
                   | Some log \<Rightarrow>
                       (if log = [] \<or> due (fst (last log)) t
                        then w1\<lparr>fw_timeline := Some (log @ [(t, rss_self, rss_child, theirs)])\<rparr>
                        else w1)))
      in if fw_threshold w \<le> mine \<or> fw_threshold w \<le> theirs
         then (\<not> fw_tripped w, w2\<lparr>fw_tripped := True\<rparr>)
         else (False, w2))"

definition fd_reset_peaks :: "'t fd_watch \<Rightarrow> 't fd_watch" where
  "fd_reset_peaks w = w\<lparr>fw_peak_self := 0, fw_peak_child := 0\<rparr>"

section \<open>The client\<close>

record bench_replies =
  br_tx :: "nat list"
  br_received :: u64
  br_bytes :: u64

definition bench_reply_handle :: "'k net \<Rightarrow> (bench_replies, 'k) handler" where
  "bench_reply_handle N data fds creds = (\<lambda>(s, k).
     (Returned data,
      s\<lparr>br_received := br_received s + 1, br_bytes := br_bytes s + of_nat (length data),
        br_tx := br_tx s @ [length data]\<rparr>, close_all N fds k))"

definition client_message :: "addr \<Rightarrow> u8 list \<Rightarrow> nat \<Rightarrow> 'o ref_heap \<Rightarrow> message \<times> 'o ref_heap" where
  "client_message r payload with_cap h = (add_ref r ^^ with_cap) (message_from_data payload, h)"

text \<open>
  \<^verbatim>\<open>Client::send\<close>: \<^verbatim>\<open>try_send\<close> first, so that a full queue can be counted, and sampled, before
  \<^verbatim>\<open>send\<close> waits with the message that came back. \<open>smp\<close> is the sample: whether it aborts.
\<close>

datatype client_outcome = ClientSent bool | ClientWaiting | ClientPanicked | ClientAborted

definition client_send ::
  "'k net \<Rightarrow> ('c, message) mpsc \<Rightarrow> nat option \<Rightarrow> addr \<Rightarrow> ('t fd_watch \<Rightarrow> bool \<times> 't fd_watch) \<Rightarrow>
   message \<Rightarrow> ('c outbox \<Rightarrow> 'c outbox) list \<Rightarrow> u64 \<Rightarrow> 't fd_watch \<Rightarrow> 'c ref_box caps \<times> 'k \<Rightarrow>
   client_outcome \<times> u64 \<times> 't fd_watch \<times> 'c ref_box caps \<times> 'k" where
  "client_send N M rt server smp m ws backpressured w sk =
     (case cap_try_send N M rt server m sk of
        (Panicked, sk1) \<Rightarrow> (ClientPanicked, backpressured, w, sk1)
      | (Returned (Inr _), sk1) \<Rightarrow> (ClientSent True, backpressured, w, sk1)
      | (Returned (Inl (TryClosed _)), sk1) \<Rightarrow> (ClientSent False, backpressured, w, sk1)
      | (Returned (Inl (TryTooLarge _)), sk1) \<Rightarrow> (ClientSent False, backpressured, w, sk1)
      | (Returned (Inl (TryFull m1)), sk1) \<Rightarrow>
          (case smp w of
             (True, w1) \<Rightarrow> (ClientAborted, backpressured + 1, w1, sk1)
           | (False, w1) \<Rightarrow>
               (case cap_send N M rt server m1 ws sk1 of
                  (None, sk2) \<Rightarrow> (ClientWaiting, backpressured + 1, w1, sk2)
                | (Some Panicked, sk2) \<Rightarrow> (ClientPanicked, backpressured + 1, w1, sk2)
                | (Some (Returned r), sk2) \<Rightarrow>
                    (ClientSent (case r of Inr _ \<Rightarrow> True | Inl _ \<Rightarrow> False), backpressured + 1, w1, sk2))))"

section \<open>Reaching the server\<close>

text \<open>
  \<^verbatim>\<open>connect_with_retry\<close>: for each attempt what \<^verbatim>\<open>Ref::connect\<close> returned, whether the child had
  exited, and the clock in milliseconds. A failed attempt is followed by a sleep of 20.
\<close>

record 'r retry_round =
  rr_connect :: "'r option"
  rr_exited :: bool
  rr_now :: nat

fun connect_with_retry :: "nat \<Rightarrow> 'r retry_round list \<Rightarrow> 'r outcome option" where
  "connect_with_retry deadline [] = None"
| "connect_with_retry deadline (x # xs) =
     (case rr_connect x of
        Some r \<Rightarrow> Some (Returned r)
      | None \<Rightarrow>
          (if rr_exited x then Some Panicked
           else if deadline \<le> rr_now x then Some Panicked
           else connect_with_retry deadline xs))"

section \<open>The raw rung of fdcost.rs\<close>

text \<open>
  One datagram as \<^verbatim>\<open>recvmsg\<close> reports it: the count, what it wrote to the buffer, and its control
  messages, each with whether it is \<^verbatim>\<open>SCM_RIGHTS\<close> and the descriptors it carries.
\<close>

record 'k raw_net =
  rn_recvmsg :: "fd \<Rightarrow> nat \<Rightarrow> nat \<Rightarrow> 'k \<Rightarrow> int \<times> u8 list \<times> (bool \<times> fd list) list \<times> 'k"
  rn_sendmsg :: "fd \<Rightarrow> u8 list \<Rightarrow> fd option \<Rightarrow> 'k \<Rightarrow> int \<times> 'k"
  rn_close :: "fd \<Rightarrow> 'k \<Rightarrow> 'k"

definition recv_once :: "'k raw_net \<Rightarrow> fd \<Rightarrow> u8 list \<Rightarrow> nat \<Rightarrow> 'k \<Rightarrow> int \<times> u8 list \<times> nat \<times> 'k" where
  "recv_once R sock buf recv_fds k =
     (case rn_recvmsg R sock (length buf) 256 k of
        (n, data, cmsgs, k1) \<Rightarrow>
          (if n \<le> 0 then (n, overwrite data buf, recv_fds, k1)
           else (let fds = concat (map snd (filter fst cmsgs))
                 in (n, overwrite data buf, recv_fds + length fds, fold (rn_close R) fds k1))))"

definition xchg ::
  "'k raw_net \<Rightarrow> fd \<Rightarrow> u8 list \<Rightarrow> u8 list \<Rightarrow> fd option \<Rightarrow> nat \<Rightarrow> 'k \<Rightarrow> int \<times> u8 list \<times> nat \<times> 'k" where
  "xchg R sock data buf send_fd recv_fds k =
     (case rn_sendmsg R sock data send_fd k of
        (n, k1) \<Rightarrow> if n < 0 then (-1, buf, recv_fds, k1) else recv_once R sock buf recv_fds k1)"

text \<open>The echo child, for at most \<open>fuel\<close> datagrams; \<open>None\<close> while it still runs.\<close>

fun raw_child :: "'k raw_net \<Rightarrow> nat \<Rightarrow> fd \<Rightarrow> u8 list \<Rightarrow> nat \<Rightarrow> 'k \<Rightarrow> nat option \<times> 'k" where
  "raw_child R 0 sock buf got k = (None, k)"
| "raw_child R (Suc fuel) sock buf got k =
     (case recv_once R sock buf got k of
        (n, buf1, got1, k1) \<Rightarrow>
          (if n \<le> 0 then (Some got1, k1)
           else (case rn_sendmsg R sock (take (nat n) buf1) None k1 of
                   (m, k2) \<Rightarrow> if m < 0 then (Some got1, k2) else raw_child R fuel sock buf1 got1 k2)))"

definition fdcost_reply_handle :: "'k net \<Rightarrow> (nat list, 'k) handler" where
  "fdcost_reply_handle N data fds creds = (\<lambda>(q, k). (Returned data, q @ [length data], close_all N fds k))"

section \<open>Lemmas\<close>

text \<open>A message the client retries after \<open>Full\<close> is the one it was given.\<close>

lemma client_send_counts:
  "client_send N M rt server smp m ws b w sk = (out, b', w', sk') \<Longrightarrow>
   (b' = b \<and> w' = w \<and> out \<noteq> ClientWaiting \<and> out \<noteq> ClientAborted) \<or>
   (b' = b + 1 \<and> (\<exists>m1 sk1. cap_try_send N M rt server m sk = (Returned (Inl (TryFull m1)), sk1)))"
  by (auto simp: client_send_def split: prod.splits outcome.splits sum.splits try_send_error.splits
      bool.splits option.splits)

lemma fd_sample_aborts_once:
  "fst (fd_sample due locked t a b mine theirs w) \<longleftrightarrow>
     \<not> fw_tripped w \<and> (fw_threshold w \<le> mine \<or> fw_threshold w \<le> theirs)"
  "fw_tripped (snd (fd_sample due locked t a b mine theirs w)) \<longleftrightarrow>
     fw_tripped w \<or> fw_threshold w \<le> mine \<or> fw_threshold w \<le> theirs"
  "fw_threshold (snd (fd_sample due locked t a b mine theirs w)) = fw_threshold w"
  by (auto simp: fd_sample_def Let_def split: option.splits)

text \<open>Five seconds of attempts, each at least 20 ms after the one before, are at most 251.\<close>

lemma connect_with_retry_ends:
  assumes "\<forall>i. Suc i < length xs \<longrightarrow> rr_now (xs ! i) + 20 \<le> rr_now (xs ! Suc i)"
    and "start \<le> rr_now (xs ! 0)" and "250 < length xs"
  shows "connect_with_retry (start + 5000) xs \<noteq> None"
proof -
  have "connect_with_retry deadline ys \<noteq> None"
    if "i < length ys" "deadline \<le> rr_now (ys ! i)" for i deadline and ys :: "'a retry_round list"
    using that
  proof (induction ys arbitrary: i)
    case (Cons y ys)
    then show ?case by (cases i) (auto split: option.splits)
  qed simp
  moreover have "i < length xs \<longrightarrow> start + 20 * i \<le> rr_now (xs ! i)" for i
  proof (induction i)
    case (Suc i)
    with assms(1) show ?case by force
  qed (use assms(2) in simp)
  from this [of 250] assms(3) have "start + 5000 \<le> rr_now (xs ! 250)" by simp
  ultimately show ?thesis using assms(3) by blast
qed

text \<open>
  A datagram that is not empty leaves none of its descriptors open and all of them counted; an
  empty one keeps them.
\<close>

lemma recv_once_closes:
  assumes "rn_recvmsg R sock (length buf) 256 k = (n, data, cmsgs, k1)"
    and "recv_once R sock buf got k = (n', buf', got', k')"
  shows "if 0 < n then got' = got + length (concat (map snd (filter fst cmsgs))) \<and>
      k' = fold (rn_close R) (concat (map snd (filter fst cmsgs))) k1
    else got' = got \<and> k' = k1"
  using assms by (auto simp: recv_once_def Let_def)

end
