(* ===== verification/Ipc_Rendezvous.thy ===== *)
theory Ipc_Rendezvous
  imports Ipc_Connect Ipc_Registry_Props
begin

text \<open>
  \<^verbatim>\<open>Ref::connect\<close> meets the accept task of a \<^verbatim>\<open>RefFsBinding\<close>: what travels over the new
  connection, and which reference comes out of it. The two run in one process here, the case
  in which the registry has to recognise what comes back.
\<close>

section \<open>Sockets with datagrams in flight\<close>

text \<open>
  \<open>wait k i\<close> holds the datagrams that wait at socket \<open>i\<close>: the bytes, and the sockets that
  the attached descriptors name. \<open>calm\<close> is a change that leaves every open descriptor alone
  and brings no datagram.
\<close>

type_synonym 'k in_flight = "'k \<Rightarrow> nat \<Rightarrow> (u8 list \<times> nat list) list"

definition calm :: "'k net \<Rightarrow> ('k \<Rightarrow> fd \<Rightarrow> nat option) \<Rightarrow> 'k in_flight \<Rightarrow> 'k \<Rightarrow> 'k \<Rightarrow> bool" where
  "calm N obj wait k k' \<longleftrightarrow> keeps_open N obj k k' \<and> (\<forall>i. set (wait k' i) \<subseteq> set (wait k i))"

definition sent_fds :: "fd list option \<Rightarrow> fd list" where
  "sent_fds ctl = (case ctl of None \<Rightarrow> [] | Some ds \<Rightarrow> ds)"

text \<open>
  What the kernel does with them. A new socket has nothing waiting and a new number;
  \<^verbatim>\<open>connect\<close>, \<^verbatim>\<open>accept\<close>, a registration and a close bring no datagram; \<^verbatim>\<open>sendmsg\<close> adds at most
  the datagram it was given; \<^verbatim>\<open>recvmsg\<close> installs new descriptors for a prefix of what came with
  one datagram of its own socket.
\<close>

definition queue_law :: "'k net \<Rightarrow> ('k \<Rightarrow> fd \<Rightarrow> nat option) \<Rightarrow> 'k in_flight \<Rightarrow> bool" where
  "queue_law N obj wait \<longleftrightarrow>
     (\<forall>fl k d k'. net_socket N fl k = (Inr d, k') \<longrightarrow>
        obj k d = None \<and> calm N obj wait k k' \<and> (\<exists>i. obj k' d = Some i \<and> wait k' i = [])) \<and>
     (\<forall>d a k. calm N obj wait k (snd (net_connect N d a k))) \<and>
     (\<forall>d k. calm N obj wait k (snd (net_async_fd N d k))) \<and>
     (\<forall>d fl k. calm N obj wait k (snd (net_accept N d fl k))) \<and>
     (\<forall>d fl k c k'. net_accept N d fl k = (Inr c, k') \<longrightarrow> obj k c = None) \<and>
     (\<forall>d k i. set (wait (net_close N d k) i) \<subseteq> set (wait k i)) \<and>
     (\<forall>d iov ctl fl k. keeps_open N obj k (snd (net_sendmsg N d iov ctl fl k)) \<and>
        (\<forall>i x. x \<in> set (wait (snd (net_sendmsg N d iov ctl fl k)) i) \<longrightarrow>
           x \<in> set (wait k i) \<or>
           fst x = iov \<and> map Some (snd x) = map (obj k) (sent_fds ctl))) \<and>
     (\<forall>d len c fl k. calm N obj wait k (snd (net_recvmsg N d len c fl k))) \<and>
     (\<forall>d len c fl k m k' i fds creds. net_recvmsg N d len c fl k = (Inr m, k') \<longrightarrow>
        obj k d = Some i \<longrightarrow> collect_ancillary (rr_anc m) ([], None) = (fds, creds) \<longrightarrow>
        distinct fds \<and> (\<forall>f \<in> set fds. obj k f = None) \<and>
        (fds = [] \<or> (\<exists>x n. x \<in> set (wait k i) \<and> map (obj k') fds = map Some (take n (snd x)))))"

lemma queue_lawD:
  assumes "queue_law N obj wait"
  shows q_socket: "net_socket N fl k = (Inr d, k') \<Longrightarrow>
      obj k d = None \<and> calm N obj wait k k' \<and> (\<exists>i. obj k' d = Some i \<and> wait k' i = [])"
    and q_connect: "calm N obj wait k (snd (net_connect N d a k))"
    and q_async: "calm N obj wait k (snd (net_async_fd N d k))"
    and q_accept: "calm N obj wait k (snd (net_accept N d fl k))"
    and q_accepted: "net_accept N d fl k = (Inr c, k') \<Longrightarrow> obj k c = None"
    and q_close: "set (wait (net_close N d k) i) \<subseteq> set (wait k i)"
    and q_send: "keeps_open N obj k (snd (net_sendmsg N d iov ctl sfl k))"
      "x \<in> set (wait (snd (net_sendmsg N d iov ctl sfl k)) i) \<Longrightarrow>
        x \<in> set (wait k i) \<or> fst x = iov \<and> map Some (snd x) = map (obj k) (sent_fds ctl)"
    and q_recv: "calm N obj wait k (snd (net_recvmsg N d len cl rfl k))"
    and q_received: "net_recvmsg N d len cl rfl k = (Inr m, k') \<Longrightarrow> obj k d = Some i \<Longrightarrow>
        collect_ancillary (rr_anc m) ([], None) = (fds, creds) \<Longrightarrow>
        distinct fds \<and> (\<forall>f \<in> set fds. obj k f = None) \<and>
        (fds = [] \<or> (\<exists>x n. x \<in> set (wait k i) \<and> map (obj k') fds = map Some (take n (snd x))))"
proof -
  note l = assms [unfolded queue_law_def]
  note r1 = l [THEN conjunct2] note r2 = r1 [THEN conjunct2] note r3 = r2 [THEN conjunct2]
  note r4 = r3 [THEN conjunct2] note r5 = r4 [THEN conjunct2] note r6 = r5 [THEN conjunct2]
  note r7 = r6 [THEN conjunct2] note r8 = r7 [THEN conjunct2]
  show "net_socket N fl k = (Inr d, k') \<Longrightarrow>
      obj k d = None \<and> calm N obj wait k k' \<and> (\<exists>i. obj k' d = Some i \<and> wait k' i = [])"
    by (rule l [THEN conjunct1, rule_format])
  show "calm N obj wait k (snd (net_connect N d a k))" by (rule r1 [THEN conjunct1, rule_format])
  show "calm N obj wait k (snd (net_async_fd N d k))" by (rule r2 [THEN conjunct1, rule_format])
  show "calm N obj wait k (snd (net_accept N d fl k))" by (rule r3 [THEN conjunct1, rule_format])
  show "net_accept N d fl k = (Inr c, k') \<Longrightarrow> obj k c = None" by (rule r4 [THEN conjunct1, rule_format])
  show "set (wait (net_close N d k) i) \<subseteq> set (wait k i)" by (rule r5 [THEN conjunct1, rule_format])
  show "keeps_open N obj k (snd (net_sendmsg N d iov ctl sfl k))"
    by (rule r6 [THEN conjunct1, rule_format, THEN conjunct1])
  show "x \<in> set (wait (snd (net_sendmsg N d iov ctl sfl k)) i) \<Longrightarrow>
      x \<in> set (wait k i) \<or> fst x = iov \<and> map Some (snd x) = map (obj k) (sent_fds ctl)"
    by (rule r6 [THEN conjunct1, rule_format, THEN conjunct2, rule_format])
  show "calm N obj wait k (snd (net_recvmsg N d len cl rfl k))" by (rule r7 [THEN conjunct1, rule_format])
  show "net_recvmsg N d len cl rfl k = (Inr m, k') \<Longrightarrow> obj k d = Some i \<Longrightarrow>
      collect_ancillary (rr_anc m) ([], None) = (fds, creds) \<Longrightarrow>
      distinct fds \<and> (\<forall>f \<in> set fds. obj k f = None) \<and>
      (fds = [] \<or> (\<exists>x n. x \<in> set (wait k i) \<and> map (obj k') fds = map Some (take n (snd x))))"
    by (rule r8 [rule_format])
qed

section \<open>What is waiting on the connection is the offer\<close>

text \<open>
  The descriptors \<open>K\<close> name the sockets they named at the start, \<open>ob\<close>, under the identities
  \<open>sid\<close>, and nothing waits at socket \<open>c\<close> but datagrams of the set \<open>X\<close>.
\<close>

definition meeting ::
  "'k net \<Rightarrow> ('k \<Rightarrow> fd \<Rightarrow> nat option) \<Rightarrow> 'k in_flight \<Rightarrow> fd set \<Rightarrow> (fd \<Rightarrow> nat option) \<Rightarrow>
   (fd \<Rightarrow> (SocketId, io_error) result) \<Rightarrow> nat \<Rightarrow> (u8 list \<times> nat list) set \<Rightarrow> 'k \<Rightarrow> bool" where
  "meeting N obj wait K ob sid c X k \<longleftrightarrow>
     (\<forall>d \<in> K. obj k d = ob d \<and> ob d \<noteq> None \<and> socket_id N d k = sid d) \<and>
     set (wait k c) \<subseteq> X"

lemma meeting_calm:
  "meeting N obj wait K ob sid c X k \<Longrightarrow> calm N obj wait k k' \<Longrightarrow> meeting N obj wait K ob sid c X k'"
  unfolding meeting_def calm_def keeps_open_def by fastforce

lemma meeting_close:
  assumes "identity_law N obj" and "queue_law N obj wait" and "d \<notin> K" and "meeting N obj wait K ob sid c X k"
  shows "meeting N obj wait K ob sid c X (net_close N d k)"
proof -
  have "obj (net_close N d k) e = obj k e \<and> socket_id N e (net_close N d k) = socket_id N e k" if "e \<in> K" for e
    using id_close [OF assms(1), of e d k] that assms(3) by auto
  with assms(4) q_close [OF assms(2), of d k c] show ?thesis unfolding meeting_def by auto
qed

lemma meeting_fresh: "meeting N obj wait K ob sid c X k \<Longrightarrow> obj k d = None \<Longrightarrow> d \<notin> K"
  unfolding meeting_def by auto

lemma meeting_register:
  assumes "identity_law N obj" and "queue_law N obj wait" and "d \<notin> K" and "meeting N obj wait K ob sid c X k"
  shows "meeting N obj wait K ob sid c X (snd (reactive_new N d k))"
proof -
  have m: "meeting N obj wait K ob sid c X (snd (net_async_fd N d k))"
    by (rule meeting_calm [OF assms(4) q_async [OF assms(2)]])
  with meeting_close [OF assms(1-3) m] show ?thesis
    by (auto simp: reactive_new_def io_defs split: prod.splits sum.splits)
qed

text \<open>Wake-ups that bring nothing to the sockets at hand.\<close>

definition undisturbing :: "'k net \<Rightarrow> ('k \<Rightarrow> fd \<Rightarrow> nat option) \<Rightarrow> 'k in_flight \<Rightarrow> 'k wakeups \<Rightarrow> bool" where
  "undisturbing N obj wait ws \<longleftrightarrow> (\<forall>env. Inr env \<in> set ws \<longrightarrow> (\<forall>k. calm N obj wait k (env k)))"

lemma reactive_io_keeps:
  assumes "\<And>k. P k \<Longrightarrow> P (snd (try_op k))" and "\<And>env k. Inr env \<in> set ws \<Longrightarrow> P k \<Longrightarrow> P (env k)"
  shows "P k \<Longrightarrow> P (snd (reactive_io try_op ws k))"
  using assms(2)
proof (induction ws arbitrary: k)
  case (Cons w ws)
  show ?case
  proof (cases w)
    case (Inr env)
    with Cons.prems have "P (env k)" by simp
    from assms(1) [OF this] have p: "P (snd (try_op (env k)))" .
    obtain x k1 where t: "try_op (env k) = (x, k1)" by fastforce
    with p have "P k1" by simp
    with Cons t Inr show ?thesis by (cases x) simp_all
  qed (use Cons.prems in simp)
qed simp

lemma reactive_io_result:
  assumes "\<And>k e k1. P k \<Longrightarrow> try_op k = (Inl e, k1) \<Longrightarrow> P k1"
    and "reactive_io try_op ws k = (Some (Inr x), k')" and "\<And>env k. Inr env \<in> set ws \<Longrightarrow> P k \<Longrightarrow> P (env k)" and "P k"
  shows "\<exists>k1. P k1 \<and> try_op k1 = (Inr x, k')"
  using assms(2-)
proof (induction ws arbitrary: k)
  case (Cons w ws)
  show ?case
  proof (cases w)
    case (Inr env)
    with Cons.prems have P: "P (env k)" by simp
    obtain y k1 where t: "try_op (env k) = (y, k1)" by fastforce
    show ?thesis
    proof (cases y)
      case (Inl e)
      with t assms(1) [OF P] have "P k1" by simp
      with Cons t Inr Inl show ?thesis by (auto split: if_splits)
    qed (use Cons.prems(1) t Inr P in auto)
  qed (use Cons.prems in simp)
qed simp

lemma send_meeting:
  assumes law: "queue_law N obj wait" and K: "set (borrowed_fds borrow msg) \<subseteq> K"
    and X: "(message_data msg, map (\<lambda>f. the (ob f)) (borrowed_fds borrow msg)) \<in> X"
    and m: "meeting N obj wait K ob sid c X k"
  shows "meeting N obj wait K ob sid c X (snd (send_now N borrow d msg k))"
proof -
  let ?fds = "borrowed_fds borrow msg"
  have sent: "meeting N obj wait K ob sid c X k1"
    if s: "net_sendmsg N d (message_data msg) ctl flags_for_send k = (y, k1)" "sent_fds ctl = ?fds" for ctl y k1
  proof -
    have "set (wait k1 c) \<subseteq> X"
    proof
      fix x assume "x \<in> set (wait k1 c)"
      with q_send(2) [OF law, where d = d and iov = "message_data msg" and ctl = ctl and sfl = flags_for_send
          and k = k and x = x and i = c] s
      have "x \<in> set (wait k c) \<or> fst x = message_data msg \<and> map Some (snd x) = map (obj k) ?fds" by simp
      moreover have "map (obj k) ?fds = map Some (map (\<lambda>f. the (ob f)) ?fds)"
        using K m unfolding meeting_def by auto
      ultimately have "x \<in> set (wait k c) \<or> x = (message_data msg, map (\<lambda>f. the (ob f)) ?fds)"
        by (metis inj_map_eq_map inj_Some prod.collapse)
      with m X show "x \<in> X" unfolding meeting_def by auto
    qed
    moreover have "keeps_open N obj k k1"
      using q_send(1) [OF law, where d = d and iov = "message_data msg" and ctl = ctl and sfl = flags_for_send
          and k = k] s by simp
    ultimately show ?thesis using m unfolding meeting_def keeps_open_def by auto
  qed
  show ?thesis
  proof (cases "message_fds msg = []")
    case True
    then have "?fds = []" by simp
    with True m sent [of None] show ?thesis
      by (auto simp: send_now_def io_defs sent_fds_def split: sum.splits prod.splits)
  next
    case False
    with m sent [of "Some ?fds"] show ?thesis
      by (auto simp: send_now_def io_defs Let_def sent_fds_def split: sum.splits prod.splits)
  qed
qed

lemma send_offer_meeting:
  assumes "queue_law N obj wait" and "borrow r \<in> K" "ob (borrow r) = Some b"
    and "meeting N obj wait K ob sid c {([], [b])} k"
  shows "meeting N obj wait K ob sid c {([], [b])} (snd (send_now N borrow d (offer r) k))"
  by (rule send_meeting [OF assms(1) _ _ assms(4)]) (use assms(2,3) in \<open>simp_all add: offer_def message_defs\<close>)

text \<open>The accept task, from any round to the end of the rounds it is given.\<close>

lemma accept_task_meeting:
  assumes il: "identity_law N obj" and ql: "queue_law N obj wait"
    and "borrow r \<in> K" "ob (borrow r) = Some b" and "l \<notin> K"
  shows "\<forall>(ws, vs) \<in> set rounds. undisturbing N obj wait ws \<and> undisturbing N obj wait vs \<Longrightarrow>
    meeting N obj wait K ob sid c {([], [b])} k \<Longrightarrow>
    meeting N obj wait K ob sid c {([], [b])} (snd (snd (accept_task N borrow (l, r) rounds k)))"
proof (induction rounds arbitrary: k)
  case (Cons rnd rounds)
  let ?I = "meeting N obj wait K ob sid c {([], [b])}"
  obtain ws vs where rnd: "rnd = (ws, vs)" by fastforce
  with Cons.prems have q: "undisturbing N obj wait ws" "undisturbing N obj wait vs" by auto
  have env: "?I (env k)" if "Inr env \<in> set us" "undisturbing N obj wait us" "?I k" for env us k
    by (rule meeting_calm [OF that(3)]) (use that(1,2) in \<open>simp add: undisturbing_def\<close>)
  have acc1: "?I (snd (accept_now N l k))" if "?I k" for k
    using meeting_calm [OF that q_accept [OF ql]] by (simp add: accept_now_def)
  have acc: "?I (snd (reactive_io (accept_now N l) ws k))" if "?I k" for k
    by (rule reactive_io_keeps [where P = ?I, OF acc1 _ that]) (use env [OF _ q(1)] in simp_all)
  have off: "?I (snd (reactive_io (send_now N borrow d (offer r)) vs k))" if "?I k" for d k
    by (rule reactive_io_keeps [where P = ?I, OF _ _ that])
      (use send_offer_meeting [where borrow = borrow and r = r and ob = ob, OF ql assms(3,4)] env [OF _ q(2)] in simp_all)
  obtain x k1 where a: "reactive_accept N l ws k = (x, k1)" by fastforce
  have I1: "?I k1" using acc [of k] Cons.prems(2) a by (simp add: reactive_accept_def)
  note close = meeting_close [OF il ql \<open>l \<notin> K\<close>]
  show ?case
  proof (cases "\<exists>d. x = Some (Inr d)")
    case False
    with a I1 close [OF I1] rnd show ?thesis by (auto split: option.splits sum.splits)
  next
    case True
    then obtain d where x: "x = Some (Inr d)" by blast
    from a have "reactive_io (accept_now N l) ws k = (Some (Inr d), k1)" by (simp add: reactive_accept_def x)
    then have "\<exists>k0. ?I k0 \<and> accept_now N l k0 = (Inr d, k1)"
      by (rule reactive_io_result [where P = ?I, rotated])
        (use acc1 env [OF _ q(1)] Cons.prems(2) in \<open>auto dest: acc1\<close>)
    then obtain k0 where e: "?I k0" "accept_now N l k0 = (Inr d, k1)" by blast
    have d: "d \<notin> K" using meeting_fresh [OF e(1)] q_accepted [OF ql] e(2) by (simp add: accept_now_def)
    obtain y k2 where n: "reactive_new N d k1 = (y, k2)" by fastforce
    with meeting_register [OF il ql d I1] have I2: "?I k2" by simp
    show ?thesis
    proof (cases y)
      case (Inl e)
      with a x n I2 close [OF I2] rnd show ?thesis by simp
    next
      case (Inr d')
      with n have d': "d' = d" by (auto simp: reactive_new_def io_defs split: prod.splits sum.splits)
      obtain z k3 where s: "reactive_send N borrow d (offer r) vs k2 = (z, k3)" by fastforce
      have I3: "?I k3" using off [OF I2, of d] s by (simp add: reactive_send_def)
      have "?I (snd (snd (accept_task N borrow (l, r) rounds (net_close N d k3))))"
        using Cons.IH Cons.prems(1) meeting_close [OF il ql d I3] by simp
      with a x n Inr d' s I3 rnd show ?thesis by (auto split: option.splits prod.splits)
    qed
  qed
qed simp

section \<open>What comes out of the connection\<close>

lemma connect_gets_the_offer:
  assumes il: "identity_law N obj" and ql: "queue_law N obj wait"
    and opn: "\<And>d. d \<in> K \<Longrightarrow> obj k d \<noteq> None"
    and env: "\<And>conn c ob sid env k1. Inr env \<in> set ws \<Longrightarrow> obj k conn = None \<Longrightarrow>
      \<forall>d \<in> K. ob d = obj k d \<Longrightarrow> meeting N obj wait (insert conn K) ob sid c {([], [b])} k1 \<Longrightarrow> meeting N obj wait (insert conn K) ob sid c {([], [b])} (env k1)"
    and run: "ref_connect debug N rt a p ws (s, k) = (Some (Inr (Returned r)), s', k')"
  obtains conn f k2 k3 where "ref_from_fd N rt a f (s, k2) = (r, (s', k3))" "k' = net_close N conn k3"
    "obj k2 f = Some b" "f \<notin> K" "conn \<notin> K" "f \<noteq> conn"
    "\<And>d. d \<in> K \<Longrightarrow> obj k2 d = obj k d \<and> socket_id N d k2 = socket_id N d k"
proof -
  obtain conn k1 where conn: "io_bind (wire_connect N p) (reactive_new N) k = (Inr conn, k1)"
    using run by (auto simp: ref_connect_def split: prod.splits sum.splits)
  obtain ad ks where sock: "net_socket N {NONBLOCK, CLOEXEC} k = (Inr conn, ks)"
      "k1 = snd (net_async_fd N conn (snd (net_connect N conn ad ks)))"
  proof -
    assume *: "\<And>ks ad. net_socket N {NONBLOCK, CLOEXEC} k = (Inr conn, ks) \<Longrightarrow>
      k1 = snd (net_async_fd N conn (snd (net_connect N conn ad ks))) \<Longrightarrow> thesis"
    from conn obtain ad where ad: "net_addr N p = Inr ad"
      by (cases "net_addr N p") (auto simp: wire_connect_def io_defs)
    obtain x ks where ks: "net_socket N {NONBLOCK, CLOEXEC} k = (x, ks)" by fastforce
    show thesis
      using conn ad ks * [of ks ad]
      by (auto simp: wire_connect_def reactive_new_def io_defs split: prod.splits sum.splits)
  qed
  obtain c where c: "obj k conn = None" "calm N obj wait k ks" "obj ks conn = Some c" "wait ks c = []"
    using q_socket [OF ql sock(1)] by blast
  let ?I = "meeting N obj wait (insert conn K) (obj ks) (\<lambda>d. socket_id N d ks) c {([], [b])}"
  have "?I ks" using c opn by (auto simp: meeting_def calm_def keeps_open_def)
  then have I1: "?I k1" unfolding sock(2)
    by (rule meeting_calm [OF meeting_calm, OF _ q_connect [OF ql] q_async [OF ql]])
  obtain rc buf k2 where recv: "reactive_recv debug N conn [] (net_cmsg_space N 1 0) ws k1 = (Some (Inr (Returned (rc, buf))), k2)"
    using run conn by (auto simp: ref_connect_def split: prod.splits option.splits sum.splits outcome.splits)
  let ?op = "recv_now debug N conn [] (net_cmsg_space N 1 0)"
  have failed: "?I k1" if "?I k0" "?op k0 = (Inl e, k1)" for k0 e k1
    using meeting_calm [OF that(1) q_recv [OF ql]] that(2)
    by (auto simp: recv_now_def io_bind_def io_ret_def split: prod.splits sum.splits if_splits) (metis snd_conv)
  have "\<exists>k0. ?I k0 \<and> ?op k0 = (Inr (Returned (rc, buf)), k2)"
  proof (rule reactive_io_result [where P = ?I])
    show "?I (env k)" if "Inr env \<in> set ws" "?I k" for env k
      by (rule env [OF that(1) c(1) _ that(2)])
        (use c(2) opn in \<open>simp add: calm_def keeps_open_def\<close>)
    show "reactive_io ?op ws k1 = (Some (Inr (Returned (rc, buf))), k2)"
      using recv by (simp add: reactive_recv_def)
  qed (use failed I1 in auto)
  then obtain k0 where k0: "?I k0" "?op k0 = (Inr (Returned (rc, buf)), k2)" by blast
  then obtain m where m: "net_recvmsg N conn 0 (net_cmsg_space N 1 0) {CMSG_CLOEXEC, TRUNC} k0 = (Inr m, k2)"
      "fst (collect_ancillary (rr_anc m) ([], None)) = rc_fds rc"
    by (auto simp: recv_now_def io_bind_def io_ret_def split: prod.splits sum.splits if_splits)
  obtain f fs where f: "rc_fds rc = f # fs"
    using run conn recv by (auto simp: ref_connect_def split: list.splits)
  have "obj k0 conn = Some c" using k0(1) c(3) by (simp add: meeting_def)
  from q_received [OF ql m(1) this prod.collapse [symmetric]] m(2) f
  obtain y n where new: "obj k0 f = None" "y \<in> set (wait k0 c)" "map (obj k2) (f # fs) = map Some (take n (snd y))"
    by (metis list.set_intros(1) list.simps(3))
  moreover from new(2) k0(1) have "y = ([], [b])" by (auto simp: meeting_def)
  ultimately have b: "obj k2 f = Some b" "fs = []" by (cases n; simp)+
  have I2: "?I k2" using meeting_calm [OF k0(1) q_recv [OF ql]] m(1) by (metis snd_conv)
  have fK: "f \<notin> insert conn K" by (rule meeting_fresh [OF k0(1) new(1)])
  obtain r1 s1 k3 where g: "ref_from_fd N rt a f (s, k2) = (r1, (s1, k3))" by (metis prod.exhaust)
  with run conn recv f b(2) have "r1 = r" "s1 = s'" "k' = net_close N conn k3"
    by (simp_all add: ref_connect_def close_all_def)
  moreover have "obj k2 d = obj k d \<and> socket_id N d k2 = socket_id N d k" if "d \<in> K" for d
    using I2 that c(2) opn [OF that] by (simp add: meeting_def calm_def keeps_open_def)
  moreover have "conn \<notin> K" using c(1) opn by blast
  ultimately show thesis using that [of f k2 k3 conn] g b(1) fK by blast
qed


section \<open>A kernel with connections\<close>

text \<open>
  The descriptor table, the datagrams that wait at each inode, the connections not yet
  accepted and, for an accepted one, the inode at the other end.
\<close>

record meet =
  mk_tab :: fd_table
  mk_wait :: "(u64 \<times> u8 list \<times> u64 list) list"
  mk_conns :: "u64 list"
  mk_peers :: "(u64 \<times> u64) list"

definition meet_obj :: "meet \<Rightarrow> fd \<Rightarrow> nat option" where
  "meet_obj k = table_obj (mk_tab k)"

definition meet_wait :: "meet in_flight" where
  "meet_wait k i = map (\<lambda>x. (fst (snd x), map unat (snd (snd x)))) (filter (\<lambda>x. unat (fst x) = i) (mk_wait k))"

fun meet_take :: "u64 \<Rightarrow> (u64 \<times> 'x) list \<Rightarrow> ('x \<times> (u64 \<times> 'x) list) option" where
  "meet_take i [] = None"
| "meet_take i ((j, x) # q) = (if j = i then Some (x, q)
     else map_option (\<lambda>(y, q'). (y, (j, x) # q')) (meet_take i q))"

definition meet_socket :: "(fd, meet) io" where
  "meet_socket k = (let d = table_fresh (mk_tab k); i = of_nat (2 * d)
     in (Inr d, k\<lparr>mk_tab := (d, i) # mk_tab k, mk_wait := filter (\<lambda>x. fst x \<noteq> i) (mk_wait k)\<rparr>))"

definition meet_accept :: "(fd, meet) io" where
  "meet_accept k = (case mk_conns k of [] \<Rightarrow> (Inl (OsError WouldBlock 11), k)
     | c # cs \<Rightarrow> (let d = table_fresh (mk_tab k); i = of_nat (2 * d)
         in (Inr d, k\<lparr>mk_tab := (d, i) # mk_tab k, mk_conns := cs, mk_peers := (i, c) # mk_peers k\<rparr>)))"

definition meet_sendmsg :: "fd \<Rightarrow> u8 list \<Rightarrow> fd list option \<Rightarrow> (nat, meet) io" where
  "meet_sendmsg d iov ctl k =
     (case map_of (mk_tab k) d of None \<Rightarrow> (Inl (OsError (OtherKind 9) 9), k)
      | Some i \<Rightarrow> (case (map_of (mk_peers k) i, those (map (map_of (mk_tab k)) (sent_fds ctl))) of
          (Some c, Some is) \<Rightarrow> (Inr (length iov), k\<lparr>mk_wait := mk_wait k @ [(c, iov, is)]\<rparr>)
        | _ \<Rightarrow> (Inl (OsError BrokenPipe 32), k)))"

definition meet_recvmsg :: "fd \<Rightarrow> nat \<Rightarrow> (recv_return, meet) io" where
  "meet_recvmsg d len k =
     (case map_of (mk_tab k) d of None \<Rightarrow> (Inl (OsError (OtherKind 9) 9), k)
      | Some i \<Rightarrow> (case meet_take i (mk_wait k) of None \<Rightarrow> (Inl (OsError WouldBlock 11), k)
          | Some ((iov, is), q) \<Rightarrow>
              (let ds = [table_fresh (mk_tab k) ..< table_fresh (mk_tab k) + length is]
               in (Inr \<lparr>rr_bytes = length iov, rr_written = take len iov, rr_anc = [ScmRights ds], rr_ctrunc = False\<rparr>,
                   k\<lparr>mk_tab := zip ds is @ mk_tab k, mk_wait := q\<rparr>))))"

definition meet_net :: "meet net" where
  "meet_net =
     \<lparr>net_cmsg_space = sample_cmsg_space,
      net_anc_push = (\<lambda>sp ds. sample_cmsg_space (length ds) 0 \<le> sp),
      net_addr = Inr,
      net_socketpair = (\<lambda>fl. io_err (OsError (OtherKind 24) 24)),
      net_socket = (\<lambda>fl. meet_socket),
      net_bind = (\<lambda>d p. io_ret ()),
      net_listen = (\<lambda>d n. io_ret ()),
      net_connect = (\<lambda>d p k. case map_of (mk_tab k) d of None \<Rightarrow> (Inl (OsError (OtherKind 9) 9), k)
         | Some i \<Rightarrow> (Inr (), k\<lparr>mk_conns := mk_conns k @ [i]\<rparr>)),
      net_accept = (\<lambda>d fl. meet_accept),
      net_sendmsg = (\<lambda>d iov ctl fl. meet_sendmsg d iov ctl),
      net_recvmsg = (\<lambda>d n c fl. meet_recvmsg d n),
      net_passcred = (\<lambda>d b. io_ret ()),
      net_poll = (\<lambda>d fl k. Inr {}),
      net_dup = (\<lambda>d k. case map_of (mk_tab k) d of None \<Rightarrow> (Inl (OsError (OtherKind 9) 9), k)
         | Some i \<Rightarrow> (Inr (table_fresh (mk_tab k)), k\<lparr>mk_tab := (table_fresh (mk_tab k), i) # mk_tab k\<rparr>)),
      net_close = (\<lambda>d k. k\<lparr>mk_tab := filter (\<lambda>x. fst x \<noteq> d) (mk_tab k)\<rparr>),
      net_fstat = (\<lambda>d k. case map_of (mk_tab k) d of None \<Rightarrow> Inl (OsError (OtherKind 9) 9)
         | Some i \<Rightarrow> Inr \<lparr>st_dev = 9, st_ino = i\<rparr>),
      net_async_fd = (\<lambda>d. io_ret ()),
      net_getrlimit = (\<lambda>k. \<lparr>rl_current = None, rl_maximum = None\<rparr>),
      net_setrlimit = (\<lambda>r. io_ret ())\<rparr>"

lemma meet_socket_id: "socket_id meet_net d k =
  (case map_of (mk_tab k) d of None \<Rightarrow> Inl (OsError (OtherKind 9) 9) | Some i \<Rightarrow> Inr (9, i))"
  by (simp add: socket_id_def meet_net_def split: option.splits)

lemma meet_law: "identity_law meet_net meet_obj"
  unfolding identity_law_def meet_socket_id meet_obj_def table_obj_def
  by (auto simp: meet_net_def map_of_without table_fresh io_defs fun_eq_iff split: option.splits)
    (simp add: word_unat_eq_iff)

lemma meet_take_set: "meet_take i q = Some (x, q') \<Longrightarrow> (i, x) \<in> set q \<and> set q' \<subseteq> set q"
proof (induction q arbitrary: q')
  case (Cons y q)
  then show ?case by (cases y) (fastforce split: if_splits)
qed simp

lemma meet_keeps:
  "(\<And>d i. map_of (mk_tab k) d = Some i \<Longrightarrow> map_of (mk_tab k') d = Some i) \<Longrightarrow> keeps_open meet_net meet_obj k k'"
  by (auto simp: keeps_open_def meet_obj_def table_obj_def meet_socket_id)

lemma meet_waits: "set (mk_wait k') \<subseteq> set (mk_wait k) \<Longrightarrow> set (meet_wait k' i) \<subseteq> set (meet_wait k i)"
  unfolding meet_wait_def by auto

lemma meet_calm:
  "(\<And>d i. map_of (mk_tab k) d = Some i \<Longrightarrow> map_of (mk_tab k') d = Some i) \<Longrightarrow>
   set (mk_wait k') \<subseteq> set (mk_wait k) \<Longrightarrow> calm meet_net meet_obj meet_wait k k'"
  unfolding calm_def using meet_keeps meet_waits by blast

lemma map_of_zip_fresh:
  "map_of (zip [table_fresh t ..< table_fresh t + n] is @ t) d =
     (case map_of t d of Some i \<Rightarrow> Some i | None \<Rightarrow> map_of (zip [table_fresh t ..< table_fresh t + n] is) d)"
proof (cases "map_of t d")
  case (Some i)
  then have "d < table_fresh t" using table_above [of t d] by (metis not_le option.distinct(1))
  then have "map_of (zip [table_fresh t ..< table_fresh t + n] is) d = None"
    by (auto simp: map_of_eq_None_iff dest: set_zip_leftD)
  with Some show ?thesis by (simp add: map_add_def)
qed (simp add: map_add_def split: option.splits)

lemma meet_recv_new:
  assumes "meet_recvmsg d len k = (Inr m, k')"
  obtains i iov "is" q where "map_of (mk_tab k) d = Some i" "(i, iov, is) \<in> set (mk_wait k)" "set q \<subseteq> set (mk_wait k)"
    "rr_anc m = [ScmRights [table_fresh (mk_tab k) ..< table_fresh (mk_tab k) + length is]]"
    "k' = k\<lparr>mk_tab := zip [table_fresh (mk_tab k) ..< table_fresh (mk_tab k) + length is] is @ mk_tab k, mk_wait := q\<rparr>"
  using assms meet_take_set by (fastforce simp: meet_recvmsg_def Let_def split: option.splits prod.splits)

lemma those_map: "those xs = Some ys \<Longrightarrow> xs = map Some ys"
  by (induction xs arbitrary: ys) (auto split: option.splits)

lemma meet_installed:
  "map (meet_obj (k\<lparr>mk_tab := zip [table_fresh t ..< table_fresh t + length is] is @ t, mk_wait := q\<rparr>))
     [table_fresh t ..< table_fresh t + length is] = map Some (map unat is)"
proof (rule nth_equalityI)
  let ?ds = "[table_fresh t ..< table_fresh t + length is]"
  fix j assume "j < length (map (meet_obj (k\<lparr>mk_tab := zip ?ds is @ t, mk_wait := q\<rparr>)) ?ds)"
  then have j: "j < length is" by simp
  then have "map_of (zip ?ds is) (?ds ! j) = Some (is ! j)"
    by (intro map_of_zip_nth) simp_all
  with j show "map (meet_obj (k\<lparr>mk_tab := zip ?ds is @ t, mk_wait := q\<rparr>)) ?ds ! j = map Some (map unat is) ! j"
    by (simp add: meet_obj_def table_obj_def map_add_def)
qed simp

lemma meet_queue_law: "queue_law meet_net meet_obj meet_wait"
  unfolding queue_law_def
proof (intro conjI allI impI)
  fix fl k d k' assume "net_socket meet_net fl k = (Inr d, k')"
  then have k': "d = table_fresh (mk_tab k)" "k' = k\<lparr>mk_tab := (d, of_nat (2 * d)) # mk_tab k,
      mk_wait := filter (\<lambda>x. fst x \<noteq> of_nat (2 * d)) (mk_wait k)\<rparr>"
    by (auto simp: meet_net_def meet_socket_def Let_def)
  show "meet_obj k d = None" unfolding k'(1) by (simp add: meet_obj_def table_obj_def table_fresh)
  show "calm meet_net meet_obj meet_wait k k'" unfolding k'(2) 
    by (rule meet_calm) (use k'(1) table_fresh in \<open>auto split: if_splits\<close>)
  show "\<exists>i. meet_obj k' d = Some i \<and> meet_wait k' i = []" unfolding k'(2)
    by (auto simp: meet_obj_def table_obj_def meet_wait_def filter_empty_conv word_unat_eq_iff)
next
  show "calm meet_net meet_obj meet_wait k (snd (net_connect meet_net d a k))" for d a k
    by (rule meet_calm) (auto simp: meet_net_def split: option.splits)
  show "calm meet_net meet_obj meet_wait k (snd (net_async_fd meet_net d k))" for d k
    by (rule meet_calm) (auto simp: meet_net_def io_ret_def)
  show "calm meet_net meet_obj meet_wait k (snd (net_accept meet_net d fl k))" for d fl k
    by (rule meet_calm) (use table_fresh in \<open>auto simp: meet_net_def meet_accept_def Let_def split: list.splits\<close>)
  show "meet_obj k c = None" if "net_accept meet_net d fl k = (Inr c, k')" for d fl k c k'
    using that table_fresh
    by (auto simp: meet_net_def meet_accept_def Let_def meet_obj_def table_obj_def split: list.splits)
  show "set (meet_wait (net_close meet_net d k) i) \<subseteq> set (meet_wait k i)" for d k i
    by (rule meet_waits) (simp add: meet_net_def)
  show "keeps_open meet_net meet_obj k (snd (net_sendmsg meet_net d iov ctl fl k))" for d iov ctl fl k
    by (rule meet_keeps) (auto simp: meet_net_def meet_sendmsg_def split: option.splits)
next
  fix d iov ctl fl k i x
  assume "x \<in> set (meet_wait (snd (net_sendmsg meet_net d iov ctl fl k)) i)"
  then show "x \<in> set (meet_wait k i) \<or> fst x = iov \<and> map Some (snd x) = map (meet_obj k) (sent_fds ctl)"
    by (auto simp: meet_net_def meet_sendmsg_def meet_wait_def meet_obj_def table_obj_def split: option.splits
        dest!: those_map) (auto simp: table_obj_def list_eq_iff_nth_eq)
next
  show "calm meet_net meet_obj meet_wait k (snd (net_recvmsg meet_net d len c fl k))" for d len c fl k
  proof (cases "net_recvmsg meet_net d len c fl k")
    case (Pair y k')
    show ?thesis
    proof (cases y)
      case (Inl e)
      with Pair have "k' = k" by (auto simp: meet_net_def meet_recvmsg_def Let_def split: option.splits prod.splits)
      then show ?thesis unfolding Pair by (intro meet_calm) simp_all
    next
      case (Inr m)
      with Pair have "meet_recvmsg d len k = (Inr m, k')" by (simp add: meet_net_def)
      then show ?thesis unfolding Pair
        by (elim meet_recv_new) (auto simp: map_of_zip_fresh simp del: map_of_append intro!: meet_calm)
    qed
  qed
next
  fix d len c fl k m k' i fds creds
  assume r: "net_recvmsg meet_net d len c fl k = (Inr m, k')" and i: "meet_obj k d = Some i"
    and fds: "collect_ancillary (rr_anc m) ([], None) = (fds, creds)"
  from r have "meet_recvmsg d len k = (Inr m, k')" by (simp add: meet_net_def)
  then obtain j iov "is" q where R: "map_of (mk_tab k) d = Some j" "(j, iov, is) \<in> set (mk_wait k)"
    "rr_anc m = [ScmRights [table_fresh (mk_tab k) ..< table_fresh (mk_tab k) + length is]]"
    "k' = k\<lparr>mk_tab := zip [table_fresh (mk_tab k) ..< table_fresh (mk_tab k) + length is] is @ mk_tab k, mk_wait := q\<rparr>"
    by (rule meet_recv_new)
  from fds R(3) have f: "fds = [table_fresh (mk_tab k) ..< table_fresh (mk_tab k) + length is]" by simp
  show "distinct fds" unfolding f by simp
  show "\<forall>f \<in> set fds. meet_obj k f = None"
    unfolding f meet_obj_def table_obj_def using table_above by auto
  have "(iov, map unat is) \<in> set (meet_wait k i)"
    using R(1,2) i by (force simp: meet_wait_def meet_obj_def table_obj_def)
  moreover have "map (meet_obj k') fds = map Some (take (length is) (map unat is))"
    unfolding R(4) f by (simp only: meet_installed) simp
  ultimately show "fds = [] \<or> (\<exists>x n. x \<in> set (meet_wait k i) \<and> map (meet_obj k') fds = map Some (take n (snd x)))"
    by (metis snd_conv)
qed


text \<open>Reference 1 on descriptor 5, and a listening socket on descriptor 9.\<close>

definition bound_state :: "(unit, meet) cap_sys" where
  "bound_state =
     \<lparr>cs_caps = \<lparr>cp_heap = [1 \<mapsto> \<lparr>strong = 1, inner = ref_inner_new None 5 (Some (9, 70))\<rparr>], cp_refs = [(9, 70) \<mapsto> 1]\<rparr>,
      cs_kern = \<lparr>mk_tab = [(5, 70), (9, 90)], mk_wait = [], mk_conns = [], mk_peers = []\<rparr>,
      cs_stage = (\<lambda>_. Gone)(1 := Alive), cs_loose = {}\<rparr>"

lemma bound_reach:
  "reach (cap_init \<lparr>mk_tab = [], mk_wait = [], mk_conns = [], mk_peers = []\<rparr>) (cap_step meet_net meet_obj) bound_state"
proof -
  let ?k = "\<lparr>mk_tab = [(5, 70), (9, 90)], mk_wait = [], mk_conns = [], mk_peers = []\<rparr>"
  let ?s0 = "cap_init \<lparr>mk_tab = [], mk_wait = [], mk_conns = [], mk_peers = []\<rparr> :: (unit, meet) cap_sys"
  let ?s1 = "?s0\<lparr>cs_kern := ?k, cs_loose := cs_loose ?s0 \<union> {5}\<rparr>"
  have "cap_step meet_net meet_obj ?s0 ?s1"
    by (rule step_env) (simp_all add: held_def owners_def cap_init_def meet_obj_def table_obj_def)
  moreover have "ref_from_fd meet_net None 1 5 (cs_caps ?s1, cs_kern ?s1) = (1, (cs_caps bound_state, ?k))"
    by (simp add: ref_from_fd_def cap_init_def bound_state_def meet_socket_id arc_new_def)
  then have "cap_step meet_net meet_obj ?s1 (?s1\<lparr>cs_caps := cs_caps bound_state, cs_kern := ?k, cs_loose := cs_loose ?s1 - {5},
      cs_stage := (cs_stage ?s1)(1 := Alive)\<rparr>)"
    by (intro step_from_fd) (simp_all add: cap_init_def)
  moreover have "?s1\<lparr>cs_caps := cs_caps bound_state, cs_kern := ?k, cs_loose := cs_loose ?s1 - {5},
      cs_stage := (cs_stage ?s1)(1 := Alive)\<rparr> = bound_state"
    by (simp add: bound_state_def cap_init_def)
  ultimately show ?thesis using reach_step [OF reach_step [OF reach_init]] by metis
qed

lemma meet_calls [simp]:
  "net_cmsg_space meet_net = sample_cmsg_space" "net_anc_push meet_net sp ds = (sample_cmsg_space (length ds) 0 \<le> sp)"
  "net_addr meet_net p = Inr p" "net_socket meet_net fl = meet_socket" "net_accept meet_net d fl = meet_accept"
  "net_connect meet_net d p k = (case map_of (mk_tab k) d of None \<Rightarrow> (Inl (OsError (OtherKind 9) 9), k)
     | Some i \<Rightarrow> (Inr (), k\<lparr>mk_conns := mk_conns k @ [i]\<rparr>))"
  "net_sendmsg meet_net d iov ctl sfl = meet_sendmsg d iov ctl" "net_recvmsg meet_net d n c rfl = meet_recvmsg d n"
  "net_close meet_net d k = k\<lparr>mk_tab := filter (\<lambda>x. fst x \<noteq> d) (mk_tab k)\<rparr>"
  "net_async_fd meet_net d = io_ret ()"
  by (simp_all add: meet_net_def)

lemmas meet_defs = meet_socket_def meet_accept_def meet_sendmsg_def meet_recvmsg_def table_fresh_def

text \<open>The two sides of the connection, one after the other.\<close>

definition bound_serving :: "meet \<Rightarrow> meet" where
  "bound_serving k = snd (snd (accept_task meet_net (ref_borrowed_fd (cp_heap (cs_caps bound_state))) (9, 1) [([Inr id], [Inr id])] k))"

lemma bound_connected:
  "io_bind (wire_connect meet_net p) (reactive_new meet_net) (cs_kern bound_state) =
     (Inr 10, \<lparr>mk_tab = [(10, 20), (5, 70), (9, 90)], mk_wait = [], mk_conns = [20], mk_peers = []\<rparr>)"
  by (simp add: wire_connect_def reactive_new_def io_defs bound_state_def meet_defs Let_def)

lemma bound_served:
  "bound_serving \<lparr>mk_tab = [(10, 20), (5, 70), (9, 90)], mk_wait = [], mk_conns = [20], mk_peers = []\<rparr> =
     \<lparr>mk_tab = [(10, 20), (5, 70), (9, 90)], mk_wait = [(20, [], [70])], mk_conns = [], mk_peers = [(22, 20)]\<rparr>"
  by (simp add: bound_serving_def reactive_accept_def accept_now_def reactive_new_def reactive_send_def send_now_def io_defs
      meet_defs sent_fds_def message_defs offer_def ref_borrowed_fd_def bound_state_def
      EXPECTED_ANCILLARY_BUFFER_SIZE_def EXPECTED_FDS_def sample_cmsg_space_def ref_inner_new_def Let_def)

lemma bound_run:
  "ref_connect True meet_net None 2 ''/n'' [Inr bound_serving] (cs_caps bound_state, cs_kern bound_state) =
     (Some (Inr (Returned 1)), (cs_caps bound_state)\<lparr>cp_heap := ref_clone 1 (cp_heap (cs_caps bound_state))\<rparr>,
      \<lparr>mk_tab = [(5, 70), (9, 90)], mk_wait = [], mk_conns = [], mk_peers = [(22, 20)]\<rparr>)"
  unfolding ref_connect_def prod.case bound_connected reactive_recv_def recv_now_def
  by (simp add: bound_served io_defs meet_defs ref_from_fd_def meet_socket_id close_all_def Let_def)
    (simp add: bound_state_def weak_upgrade_def strong_count_def)


end
