(* ===== verification/Ipc_Backpressure.thy ===== *)
theory Ipc_Backpressure
  imports Ipc_Order_Props
begin

text \<open>
  What ends backpressure: the drain task empties the queue of a reference that is still in use,
  and a \<^verbatim>\<open>send\<close> that waits for a permit gets its message onto the wire.
\<close>

section \<open>The drain task catches up\<close>

text \<open>What is left of the drain's work when it has caught up is its wait for the next message.\<close>

lemma serving_drains:
  assumes law: "mpsc_law (env_mpsc E) V" and acc: "accepting E K"
  shows "serving E V K s \<Longrightarrow> \<not> drain_stopped (rs_drain s) \<Longrightarrow> \<exists>s'.
    ref_acts E (replicate (drain_work s - 1) ActDrain) s = Some s' \<and> serving E V K s' \<and>
    rs_drain s' = DrainRecv \<and> rs_queue s' = [] \<and> same_callers s s'"
proof (induction "drain_work s" arbitrary: s)
  case 0
  then show ?case by (cases "rs_drain s") (simp_all add: drain_work_def drain_stopped_def)
next
  case (Suc n)
  show ?case
  proof (cases "n = 0")
    case True
    with Suc(2-) have "rs_drain s = DrainRecv \<and> rs_queue s = []"
      by (cases "rs_drain s"; cases "rs_queue s") (simp_all add: drain_work_def drain_stopped_def)
    with Suc(2-) True show ?thesis by (simp add: same_callers_def)
  next
    case False
    with Suc(2) have "1 < drain_work s" by simp
    from serving_step [OF law acc Suc(3) this] obtain s1 where
      s1: "ref_act E ActDrain s = Some s1" "serving E V K s1" "Suc (drain_work s1) = drain_work s" "same_callers s s1"
      by blast
    have "\<not> drain_stopped (rs_drain s1)"
    proof
      assume "drain_stopped (rs_drain s1)"
      with s1(2) have "drain_work s1 = 0"
        by (cases "rs_drain s1") (auto simp: serving_def ref_inv_def shape_inv_def drain_work_def drain_stopped_def)
      with s1(3) Suc(2) False show False by simp
    qed
    moreover have "n = drain_work s1" using s1(3) Suc(2) by simp
    ultimately obtain s' where s': "ref_acts E (replicate (drain_work s1 - 1) ActDrain) s1 = Some s'" "serving E V K s'"
      "rs_drain s' = DrainRecv" "rs_queue s' = []" "same_callers s1 s'"
      using Suc(1) [of s1] s1(2) by blast
    have "drain_work s - 1 = Suc (drain_work s1 - 1)" using s1(3) Suc(2) False by simp
    then have "ref_acts E (replicate (drain_work s - 1) ActDrain) s = Some s'"
      using s1(1) s'(1) by (simp del: ref_act.simps)
    with s' s1(4) show ?thesis by (auto simp: same_callers_def simp del: ref_act.simps)
  qed
qed

text \<open>tokio grants a permit as soon as there is room, to the caller whose turn it is.\<close>

definition granting :: "('c, 'm) mpsc \<Rightarrow> ('c, 'm) mpsc_view \<Rightarrow> bool" where
  "granting M V \<longleftrightarrow>
     (\<forall>c. \<not> vw_closed V c \<and> length (vw_queue V c) + vw_permits V c < vw_cap V c \<longrightarrow> ch_reserve M c \<noteq> None)"

text \<open>A caller that waits with room in the queue is done in three steps of its own.\<close>

lemma waiting_caller_queues:
  assumes law: "mpsc_law (env_mpsc E) V" "granting (env_mpsc E) V" and bound: "env_threads E + 10 < 2 ^ 64"
    and s: "serving E V K s" "rs_drain s = DrainRecv" "rs_queue s = []" "rs_pcs s t = SendReserve m"
    and fds: "length (message_fds m) \<le> MAX_FDS"
    and room: "count_pcs (env_threads E) permitted (rs_pcs s) < DEPTH"
  shows "\<exists>s'. ref_acts E (replicate 3 (ActStep t)) s = Some s' \<and> serving E V K s' \<and>
    rs_pcs s' t = SendDone CallOk \<and> rs_drain s' = DrainRecv \<and> rs_queue s' = [(t, m)] \<and>
    rs_accepted s' = rs_accepted s @ [(t, m)]"
proof -
  have inv: "ref_inv E V s" using s(1) by (simp add: serving_def)
  obtain b d where box: "sh_outbox (rs_sh s) = Some (b, d)" using s(1) by (auto simp: serving_def)
  have view: "vw_cap V (ob_sender b) = DEPTH" "vw_queue V (ob_sender b) = []" "\<not> vw_closed V (ob_sender b)"
      "vw_permits V (ob_sender b) < DEPTH" "rs_hold s = []"
    using inv box s(2,3) room by (auto simp: ref_inv_def box_inv_def shape_inv_def drain_stopped_def)
  then obtain y where y: "ch_reserve (env_mpsc E) (ob_sender b) = Some y"
    using law(2) unfolding granting_def by fastforce
  then obtain c where c: "ch_reserve (env_mpsc E) (ob_sender b) = Some (Inr c)"
    using mpsc_reserve_closed [OF law(1), of "ob_sender b"] view(3) by (cases y) auto
  let ?s3 = "s\<lparr>rs_pcs := (rs_pcs s)(t := SendDone CallOk),
      rs_sh := (rs_sh s)\<lparr>sh_outbox := Some (outbox_permit_send (env_mpsc E) m (outbox_claim (b\<lparr>ob_sender := c\<rparr>)), d)\<rparr>,
      rs_accepted := rs_accepted s @ [(t, m)], rs_queue := [(t, m)]\<rparr>"
  have run: "ref_acts E (replicate 3 (ActStep t)) s = Some ?s3"
    by (simp add: numeral_3_eq_3 s box c drain_stopped_def)
  have "ref_inv E V ?s3" using run ref_acts_inv [OF law(1) bound inv] by blast
  with run s view(5) fds show ?thesis by (auto simp: serving_def simp del: ref_act.simps ref_acts.simps)
qed



section \<open>A queue filled by one thread\<close>

definition filled_state :: "u8 list \<Rightarrow> (skern, message schan) ref_sys" where
  "filled_state q =
     \<lparr>rs_sh = \<lparr>sh_kern = sample_kernel\<lparr>sk_open := [3, 0, 1, 2], sk_room := 0\<rparr>,
        sh_outbox = Some (\<lparr>ob_sender = \<lparr>sc_cap = 8, sc_queue = map plain q, sc_permits = 0,
          sc_closed = False, sc_gone = False\<rparr>, ob_pending = of_nat (length q)\<rparr>, 3)\<rparr>,
      rs_drain = DrainRecv, rs_pcs = (\<lambda>_. SendIdle), rs_dropped = False,
      rs_wire = [], rs_queue = map (\<lambda>x. (0, plain x)) q, rs_hold = [],
      rs_accepted = map (\<lambda>x. (0, plain x)) q, rs_leaked = 0, rs_failed = False\<rparr>"

lemma filled_first:
  "ref_acts sample_env [ActKernel (\<lambda>k. k\<lparr>sk_room := 0\<rparr>), ActCall 0 CallTrySend (plain x), ActStep 0, ActStep 0,
     ActStep 0, ActStep 0, ActStep 0, ActStep 0, ActReturn 0] (ref_sys_init sample_kernel) = Some (filled_state [x])"
  by (simp add: schedule_defs filled_state_def fun_upd_idem)

lemma small_count: "0 < n \<Longrightarrow> n < 9 \<Longrightarrow> (of_nat n :: usize) \<noteq> 0"
proof -
  assume n: "0 < n" "n < 9"
  then have "unat (of_nat n :: usize) = n" by (simp add: unsigned_of_nat take_bit_nat_eq_self)
  with n(1) show ?thesis by fastforce
qed

lemma filled_next:
  assumes "q \<noteq> []" and "length q < 8"
  shows "ref_acts sample_env [ActCall 0 CallTrySend (plain x), ActStep 0, ActStep 0, ActStep 0, ActStep 0, ActReturn 0]
    (filled_state q) = Some (filled_state (q @ [x]))"
  using assms small_count [of "length q"]
  by (simp add: schedule_defs filled_state_def fun_upd_idem)


definition waiting_turns :: "skern turn list" where
  "waiting_turns = [ActCall 1 CallSend (plain 9), ActStep 1, ActStep 1, ActStep 1, ActStep 1, ActStep 1, ActStep 1,
     ActKernel (\<lambda>k. k\<lparr>sk_room := 4\<rparr>)]"

definition waiting_state :: "u8 list \<Rightarrow> (skern, message schan) ref_sys" where
  "waiting_state q = (filled_state q)\<lparr>rs_pcs := (\<lambda>_. SendIdle)(1 := SendReserve (plain 9)),
     rs_sh := (rs_sh (filled_state q))\<lparr>sh_kern := sample_kernel\<lparr>sk_open := [3, 0, 1, 2]\<rparr>\<rparr>\<rparr>"

lemma waiting_run:
  assumes "length q = 8"
  shows "ref_acts sample_env waiting_turns (filled_state q) = Some (waiting_state q)"
  using assms small_count [of 8]
  by (simp add: schedule_defs filled_state_def waiting_state_def waiting_turns_def)

lemma filled_reach:
  "length q < 8 \<Longrightarrow> reach (ref_sys_init sample_kernel) (ref_step sample_env) (filled_state (x # q))"
proof (induction q rule: rev_induct)
  case Nil
  show ?case using ref_acts_reach [OF filled_first reach_init] .
next
  case (snoc y q)
  then show ?case using ref_acts_reach [OF filled_next [of "x # q" y]] by simp
qed

lemma waiting_reach: "reach (ref_sys_init sample_kernel) (ref_step sample_env) (waiting_state [1, 2, 3, 4, 5, 6, 7, 8])"
  by (rule ref_acts_reach [OF waiting_run filled_reach]) simp_all


end
