(* ===== verification/Ipc_Loop.thy ===== *)
theory Ipc_Loop
  imports Ipc_Connect Ipc_Node_Props
begin

text \<open>
  The receive loop against anything a peer may send: the shape of the calls it makes, and the
  descriptors it leaves open, whatever arrives and however the loop ends.
\<close>

section \<open>The shape of a call\<close>

text \<open>
  \<^verbatim>\<open>recvmsg\<close> writes no more than the buffer holds, writes all of a datagram that fits, and
  installs no more descriptors than one control message carries.
\<close>

definition shape_law :: "'k net \<Rightarrow> bool" where
  "shape_law N \<longleftrightarrow>
     (\<forall>d len c fl k m k'. net_recvmsg N d len c fl k = (Inr m, k') \<longrightarrow>
        length (rr_written m) \<le> len \<and> length (fst (collect_ancillary (rr_anc m) ([], None))) \<le> MAX_FDS)"

definition call_shape :: "call \<Rightarrow> bool" where
  "call_shape c \<longleftrightarrow>
     0 < length (fst c) \<and> length (fst c) \<le> MAX_MESSAGE_SIZE \<and> length (fst (snd c)) \<le> MAX_FDS"

lemma recv_now_shape:
  assumes "shape_law N" and "recv_now debug N d buf c k = (Inr (Returned (r, buf1)), k')"
  shows "length buf1 = length buf \<and> length (rc_fds r) \<le> MAX_FDS"
proof -
  obtain y k1 where y: "net_recvmsg N d (length buf) c {CMSG_CLOEXEC, TRUNC} k = (y, k1)" by fastforce
  with assms(2) obtain m where m: "y = Inr m" by (cases y) (auto simp: recv_now_def io_bind_def)
  with assms(1) y have "length (rr_written m) \<le> length buf"
    "length (fst (collect_ancillary (rr_anc m) ([], None))) \<le> MAX_FDS"
    unfolding shape_law_def by blast+
  with assms(2) y m show ?thesis
    by (auto simp: recv_now_def io_defs overwrite_def split: prod.splits if_splits)
qed

lemma reactive_recv_shape:
  assumes "shape_law N" and "reactive_recv debug N d buf c ws k = (Some (Inr (Returned (r, buf1))), k')"
  shows "length buf1 = length buf \<and> length (rc_fds r) \<le> MAX_FDS"
proof (rule reactive_io_finished [OF assms(2) [unfolded reactive_recv_def]])
  fix pre w post k1
  assume "case w of Inl e \<Rightarrow> Inr (Returned (r, buf1)) = Inl e \<and> k' = k1
    | Inr env \<Rightarrow> recv_now debug N d buf c (env k1) = (Inr (Returned (r, buf1)), k') \<and>
        (\<forall>e. Inr (Returned (r, buf1)) = Inl e \<longrightarrow> io_error_kind e \<noteq> WouldBlock)"
  then show ?thesis using recv_now_shape [OF assms(1)] by (cases w) auto
qed

lemma recv_loop_shape:
  assumes law: "shape_law N"
  shows "length buf = MAX_MESSAGE_SIZE \<Longrightarrow> recv_loop debug N H d rounds buf s k = (calls, rest) \<Longrightarrow>
    \<forall>c \<in> set calls. call_shape c"
proof (induction rounds arbitrary: buf s k calls rest)
  case (Cons ws rounds)
  note run = Cons.prems(2)
  obtain out k1 where r: "reactive_recv debug N d buf (MAX_ANCILLARY_BUFFER_SIZE N) ws k = (out, k1)"
    by fastforce
  consider (stop) "out = None \<or> (\<exists>x. out = Some (Inl x)) \<or> out = Some (Inr Panicked)"
    | (msg) x buf1 where "out = Some (Inr (Returned (x, buf1)))"
    by (metis old.prod.exhaust option.exhaust outcome.exhaust sum.exhaust)
  then show ?case
  proof cases
    case stop
    with run r show ?thesis by auto
  next
    case msg
    have shape: "length buf1 = MAX_MESSAGE_SIZE" "length (rc_fds x) \<le> MAX_FDS"
      using reactive_recv_shape [OF law r [unfolded msg]] Cons.prems(1) by simp_all
    let ?call = "(take (rc_bytes x) buf1, rc_fds x, rc_creds x)"
    show ?thesis
    proof (cases "rc_bytes x = 0 \<or> received_truncated x (length buf1)")
      case True
      with run r msg Cons.IH [OF shape(1)] show ?thesis by (auto split: if_splits)
    next
      case False
      then have call: "call_shape ?call"
        using shape by (simp add: call_shape_def received_truncated_def)
      obtain o1 s1 k2 where h: "H (take (rc_bytes x) buf1) (rc_fds x) (rc_creds x) (s, k1) = (o1, s1, k2)"
        by (metis prod.exhaust)
      show ?thesis
      proof (cases o1)
        case Panicked
        with run r msg False h call show ?thesis by auto
      next
        case (Returned data)
        let ?buf2 = "overwrite (take (rc_bytes x) data) buf1"
        obtain cs rest' where rl: "recv_loop debug N H d rounds ?buf2 s1 k2 = (cs, rest')"
          by (metis prod.exhaust)
        have "length ?buf2 = MAX_MESSAGE_SIZE"
          using False shape(1) by (subst overwrite_length) (auto simp: received_truncated_def)
        from Cons.IH [OF this rl] run r msg False h Returned rl call show ?thesis by auto
      qed
    qed
  qed
qed simp

section \<open>Descriptors\<close>

text \<open>
  A handler that opens nothing it keeps, and closes nothing of \<open>D\<close> unless it is handed it.
\<close>

definition tidy :: "('k \<Rightarrow> fd set) \<Rightarrow> fd set \<Rightarrow> ('s, 'k) handler \<Rightarrow> bool" where
  "tidy opn D H \<longleftrightarrow>
     (\<forall>p fs cr s k. opn (snd (snd (H p fs cr (s, k)))) \<subseteq> opn k \<and>
        (D \<subseteq> opn k \<and> D \<inter> set fs = {} \<longrightarrow> D \<subseteq> opn (snd (snd (H p fs cr (s, k))))))"

definition call_fds :: "call list \<Rightarrow> fd set" where
  "call_fds calls = (\<Union>c \<in> set calls. set (fst (snd c)))"

lemma call_fds_simps [simp]:
  "call_fds [] = {}" "call_fds (c # cs) = set (fst (snd c)) \<union> call_fds cs"
  by (simp_all add: call_fds_def)

lemma parked_recv_open:
  assumes "descriptor_law N opn" and "receive_law N opn"
  shows "idle opn ws \<Longrightarrow> reactive_recv debug N d buf c ws k = (None, k') \<Longrightarrow> opn k' = opn k"
  unfolding reactive_recv_def
proof (induction ws arbitrary: k)
  case (Cons w ws)
  then obtain env where w: "w = Inr env" by (cases w) auto
  with Cons.prems(1) have env: "opn (env k) = opn k" "idle opn ws" by (auto simp: idle_def)
  obtain y k1 where y: "recv_now debug N d buf c (env k) = (y, k1)" by fastforce
  with Cons.prems(2) w obtain e where e: "y = Inl e" "reactive_io (recv_now debug N d buf c) ws k1 = (None, k')"
    by (cases y) (auto split: if_splits)
  from recv_now_open [OF assms, of "env k" debug d buf c] y e(1) have "opn k1 = opn k" using env(1) by simp
  with Cons.IH [OF env(2) e(2)] show ?case by simp
qed simp

lemma recv_loop_open:
  assumes dl: "descriptor_law N opn" and rl: "receive_law N opn" and H: "tidy opn D H"
  shows "\<forall>ws \<in> set rounds. idle opn ws \<Longrightarrow> D \<subseteq> opn k \<Longrightarrow>
    recv_loop debug N H d rounds buf s k = (calls, e, s', k') \<Longrightarrow>
    D \<subseteq> opn k' \<and> opn k' \<subseteq> opn k \<union> call_fds calls"
proof (induction rounds arbitrary: buf s k calls)
  case (Cons ws rounds)
  note run = Cons.prems(3)
  have idle: "idle opn ws" "\<forall>ws \<in> set rounds. idle opn ws" using Cons.prems(1) by simp_all
  obtain out k1 where r: "reactive_recv debug N d buf (MAX_ANCILLARY_BUFFER_SIZE N) ws k = (out, k1)"
    by fastforce
  show ?case
  proof (cases out)
    case None
    with run r have "k' = k1" "calls = []" by simp_all
    moreover have "opn k1 = opn k" by (rule parked_recv_open [OF dl rl idle(1) r [unfolded None]])
    ultimately show ?thesis using Cons.prems(2) by simp
  next
    case (Some z)
    note R = reactive_recv_open [OF dl rl idle(1) r [unfolded Some]]
    consider (stop) "(\<exists>x. z = Inl x) \<or> z = Inr Panicked" | (msg) x buf1 where "z = Inr (Returned (x, buf1))"
      by (metis old.prod.exhaust outcome.exhaust sum.exhaust)
    then show ?thesis
    proof cases
      case stop
      with run r Some R Cons.prems(2) show ?thesis by auto
    next
      case msg
      have fds: "set (rc_fds x) \<inter> opn k = {}" "opn k1 = opn k \<union> set (rc_fds x)" using R msg by simp_all
      have closed: "opn (close_all N (rc_fds x) k1) = opn k"
        using close_all_open [OF dl, of "rc_fds x" k1] fds by auto
      consider (hup) "rc_bytes x = 0" | (big) "rc_bytes x \<noteq> 0" "received_truncated x (length buf1)"
        | (fits) "rc_bytes x \<noteq> 0" "\<not> received_truncated x (length buf1)" by blast
      then show ?thesis
      proof cases
        case hup
        with run r Some msg closed Cons.prems(2) show ?thesis by auto
      next
        case big
        then have "recv_loop debug N H d rounds buf1 s (close_all N (rc_fds x) k1) = (calls, e, s', k')"
          using run r Some msg by simp
        from Cons.IH [OF idle(2) _ this] closed Cons.prems(2) show ?thesis by simp
      next
        case fits
        obtain o1 s1 k2 where h: "H (take (rc_bytes x) buf1) (rc_fds x) (rc_creds x) (s, k1) = (o1, s1, k2)"
          by (metis prod.exhaust)
        have D: "D \<subseteq> opn k1" "D \<inter> set (rc_fds x) = {}" using fds Cons.prems(2) by auto
        have k2: "opn k2 \<subseteq> opn k1" "D \<subseteq> opn k2"
          using H [unfolded tidy_def, rule_format, of "take (rc_bytes x) buf1" "rc_fds x" "rc_creds x" s k1] D h
          by simp_all
        show ?thesis
        proof (cases o1)
          case Panicked
          with run r Some msg fits h k2 fds show ?thesis by auto
        next
          case (Returned data)
          obtain cs rest where c: "recv_loop debug N H d rounds (overwrite (take (rc_bytes x) data) buf1) s1 k2 = (cs, rest)"
            by (metis prod.exhaust)
          with run r Some msg fits h Returned
          have "rest = (e, s', k')" "calls = (take (rc_bytes x) buf1, rc_fds x, rc_creds x) # cs" by auto
          with Cons.IH [OF idle(2) k2(2)] c k2 fds show ?thesis by fastforce
        qed
      qed
    qed
  qed
qed simp


section \<open>Properties\<close>



text \<open>
  A peer with its own idea of the limits: a datagram of 9000 bytes with a descriptor, then one
  of two bytes with two. The handler keeps the first descriptor of each call.
\<close>

definition rude_kernel :: skern where
  "rude_kernel = sample_kernel\<lparr>sk_queue := [(replicate 9000 1, [7]), ([5, 6], [8, 9])]\<rparr>"

definition keep_first :: "(unit, skern) handler" where
  "keep_first p fs cr = (\<lambda>(s, k). (Returned p, s, close_all sample_net (drop 1 fs) k))"

lemma rude_run:
  "recv_loop_start True sample_net keep_first 3 [[Inr id], [Inr id], [Inr id]] () rude_kernel =
     ([([5, 6], [3, 4], Some (1, 0, 0))], None, (), sample_kernel\<lparr>sk_open := [3, 0, 1, 2]\<rparr>)"
  by (simp add: recv_loop_start_def reactive_recv_def recv_now_def rude_kernel_def keep_first_def sample_defs io_defs
      received_truncated_def MAX_MESSAGE_SIZE_def close_all_def overwrite_def upt_rec)

lemma keep_first_tidy: "tidy (\<lambda>k. set (sk_open k)) D keep_first"
proof -
  have "set (sk_open (snd (snd (keep_first p fs cr (s, k))))) = set (sk_open k) - set (drop 1 fs)" for p fs cr s k
    using close_all_open [OF sample_descriptor_law, of "drop 1 fs" k] by (simp add: keep_first_def)
  moreover have "set (drop 1 fs) \<subseteq> set fs" for fs :: "fd list" by (rule set_drop_subset)
  ultimately show ?thesis unfolding tidy_def by (auto dest: in_set_dropD)
qed

text \<open>The small kernel, with the kernel's limit on the descriptors of a datagram.\<close>

definition capped_net :: "skern net" where
  "capped_net = sample_net\<lparr>net_recvmsg := (\<lambda>d len c fl k.
     sample_recvmsg d len c fl (k\<lparr>sk_queue := map (\<lambda>x. (fst x, take MAX_FDS (snd x))) (sk_queue k)\<rparr>))\<rparr>"

lemma capped_shape: "shape_law capped_net"
  by (auto simp: shape_law_def capped_net_def sample_recvmsg_def split: list.splits if_splits)

lemma capped_run:
  "recv_loop_start True capped_net keep_first 3 [[Inr id], [Inr id], [Inr id]] () rude_kernel =
     ([([5, 6], [3, 4], Some (1, 0, 0))], None, (), sample_kernel\<lparr>sk_open := [3, 0, 1, 2]\<rparr>)"
  by (simp add: recv_loop_start_def reactive_recv_def recv_now_def rude_kernel_def keep_first_def capped_net_def
      sample_defs io_defs received_truncated_def MAX_MESSAGE_SIZE_def MAX_FDS_def close_all_def overwrite_def upt_rec)



end
