(* ===== verification/Ipc_Watch.thy ===== *)
theory Ipc_Watch
  imports Ipc_Echo_Props Ipc_Registry_Props
begin

text \<open>
  \<^verbatim>\<open>Ref::death_notification\<close> called by any number of tasks on one reference, cut at its system
  calls and at its accesses to the \<^verbatim>\<open>OnceLock\<close> of the death watch: who registers a descriptor,
  who drops one, and when a notification returns.
\<close>

section \<open>The machine\<close>

text \<open>
  One program counter per task: about to ask \<^verbatim>\<open>is_dead\<close>, about to look into the \<^verbatim>\<open>OnceLock\<close>, about
  to duplicate the descriptor, to register the duplicate, and to set the lock with it; then
  waiting on the shared watch, waiting for ever, or returned, with what made it return.
\<close>

datatype watch_cause = AlreadyDead | HangupReported | ReactorFailed

datatype watch_pc =
    WatchIdle
  | WatchCheck
  | WatchGet
  | WatchDup
  | WatchRegister fd
  | WatchSet fd
  | WatchWait fd
  | WatchStuck
  | WatchDone watch_cause

fun notification_step ::
  "'k net \<Rightarrow> watch_pc \<Rightarrow> 'o ref_inner \<times> 'k \<Rightarrow> (watch_pc \<times> 'o ref_inner \<times> 'k) option" where
  "notification_step N WatchCheck (v, k) =
     Some (if is_hung_up N (ri_fd v) k then WatchDone AlreadyDead else WatchGet, v, k)"
| "notification_step N WatchGet (v, k) =
     Some (case ri_death v of Some w \<Rightarrow> WatchWait w | None \<Rightarrow> WatchDup, v, k)"
| "notification_step N WatchDup (v, k) =
     (case net_dup N (ri_fd v) k of
        (Inl _, k1) \<Rightarrow> Some (WatchStuck, v, k1)
      | (Inr w, k1) \<Rightarrow> Some (WatchRegister w, v, k1))"
| "notification_step N (WatchRegister w) (v, k) =
     (case reactive_new N w k of
        (Inl _, k1) \<Rightarrow> Some (WatchStuck, v, k1)
      | (Inr w', k1) \<Rightarrow> Some (WatchSet w', v, k1))"
| "notification_step N (WatchSet w) (v, k) =
     (case ri_death v of
        None \<Rightarrow> Some (WatchWait w, v\<lparr>ri_death := Some w\<rparr>, k)
      | Some w0 \<Rightarrow> Some (WatchWait w0, v, net_close N w k))"
| "notification_step N _ _ = None"

text \<open>
  \<open>ws_made\<close> keeps account through the descriptor table: what steps of the tasks opened and
  no step of theirs has closed.
\<close>

record ('o, 'k) watch_sys =
  ws_inner :: "'o ref_inner"
  ws_kern :: 'k
  ws_pcs :: "nat \<Rightarrow> watch_pc"
  ws_made :: "fd set"

definition watch_init :: "'o ref_inner \<Rightarrow> 'k \<Rightarrow> ('o, 'k) watch_sys" where
  "watch_init v k = \<lparr>ws_inner = v, ws_kern = k, ws_pcs = (\<lambda>_. WatchIdle), ws_made = {}\<rparr>"

text \<open>
  The kernel moves on: it keeps the open descriptors, and a hangup is for good. What the
  reactor reports as a hangup is one; it may also fail.
\<close>

definition moves_on :: "'k net \<Rightarrow> ('k \<Rightarrow> fd \<Rightarrow> nat option) \<Rightarrow> 'k \<Rightarrow> 'k \<Rightarrow> bool" where
  "moves_on N obj k k' \<longleftrightarrow> keeps_open N obj k k' \<and>
     (\<forall>d. obj k d \<noteq> None \<and> is_hung_up N d k \<longrightarrow> is_hung_up N d k')"

inductive watch_step ::
  "'k net \<Rightarrow> ('k \<Rightarrow> fd \<Rightarrow> nat option) \<Rightarrow> ('o, 'k) watch_sys \<Rightarrow> ('o, 'k) watch_sys \<Rightarrow> bool" for N obj where
  step_notification: "ws_pcs s t = WatchIdle \<Longrightarrow>
    watch_step N obj s (s\<lparr>ws_pcs := (ws_pcs s)(t := WatchCheck)\<rparr>)"
| step_watcher: "notification_step N (ws_pcs s t) (ws_inner s, ws_kern s) = Some (pc, v, k) \<Longrightarrow>
    watch_step N obj s (s\<lparr>ws_pcs := (ws_pcs s)(t := pc), ws_inner := v, ws_kern := k,
      ws_made := {d. obj k d \<noteq> None \<and> (d \<in> ws_made s \<or> obj (ws_kern s) d = None)}\<rparr>)"
| step_ready: "ws_pcs s t = WatchWait w \<Longrightarrow>
    (\<forall>read_closed err. x = Inr (read_closed, err) \<and> (read_closed \<or> err) \<longrightarrow> is_hung_up N w (ws_kern s)) \<Longrightarrow>
    watch_step N obj s (s\<lparr>ws_pcs := (ws_pcs s)(t :=
      if hangup [x] then WatchDone (if isl x then ReactorFailed else HangupReported) else WatchWait w)\<rparr>)"
| step_watch_cancel: "ws_pcs s t = WatchWait w \<or> ws_pcs s t = WatchStuck \<Longrightarrow>
    watch_step N obj s (s\<lparr>ws_pcs := (ws_pcs s)(t := WatchIdle)\<rparr>)"
| step_watch_return: "ws_pcs s t = WatchDone c \<Longrightarrow>
    watch_step N obj s (s\<lparr>ws_pcs := (ws_pcs s)(t := WatchIdle)\<rparr>)"
| step_watch_kernel: "moves_on N obj (ws_kern s) k \<Longrightarrow> watch_step N obj s (s\<lparr>ws_kern := k\<rparr>)"

inductive_cases watch_stepE: "watch_step N obj s t"

section \<open>The whole call and its steps\<close>

text \<open>A task that runs its steps alone, up to its \<^verbatim>\<open>await\<close>, has done what \<^verbatim>\<open>death_watch\<close> does.\<close>

fun notification_run ::
  "'k net \<Rightarrow> nat \<Rightarrow> watch_pc \<Rightarrow> 'o ref_inner \<times> 'k \<Rightarrow> watch_pc \<times> 'o ref_inner \<times> 'k" where
  "notification_run N 0 pc x = (pc, x)"
| "notification_run N (Suc n) pc x =
     (case notification_step N pc x of None \<Rightarrow> (pc, x) | Some (pc', x') \<Rightarrow> notification_run N n pc' x')"

lemma death_watch_is_its_steps:
  "notification_run N 4 WatchGet (v, k) =
     (case ref_death_watch N v k of
        (Inl e, v', k') \<Rightarrow> (WatchStuck, v', k')
      | (Inr w, v', k') \<Rightarrow> (WatchWait w, v', k'))"
  by (auto simp: ref_death_watch_def io_bind_def numeral_eq_Suc split: option.splits prod.splits sum.splits)

section \<open>The invariant\<close>

text \<open>Duplicates, registrations and closes do not end a hangup, and all descriptors of a socket see it.\<close>

definition poll_law :: "'k net \<Rightarrow> ('k \<Rightarrow> fd \<Rightarrow> nat option) \<Rightarrow> bool" where
  "poll_law N obj \<longleftrightarrow>
     (\<forall>k d d'. obj k d \<noteq> None \<and> obj k d' = obj k d \<longrightarrow> is_hung_up N d' k = is_hung_up N d k) \<and>
     (\<forall>k d f. obj k d \<noteq> None \<and> is_hung_up N d k \<longrightarrow>
        is_hung_up N d (snd (net_dup N f k)) \<and> is_hung_up N d (snd (net_async_fd N f k)) \<and>
        (d \<noteq> f \<longrightarrow> is_hung_up N d (net_close N f k)))"

fun building_watch :: "watch_pc \<Rightarrow> fd option" where
  "building_watch (WatchRegister w) = Some w"
| "building_watch (WatchSet w) = Some w"
| "building_watch _ = None"

text \<open>The descriptors, and what the program counters say.\<close>

definition table_ok ::
  "(fd \<Rightarrow> nat option) \<Rightarrow> fd \<Rightarrow> fd option \<Rightarrow> fd set \<Rightarrow> (nat \<Rightarrow> fd option) \<Rightarrow> bool" where
  "table_ok ob f dw made B \<longleftrightarrow>
     ob f \<noteq> None \<and> f \<notin> made \<and> (\<forall>w \<in> made. ob w = ob f) \<and>
     made = set_option dw \<union> {w. \<exists>t. B t = Some w} \<and>
     (\<forall>t w. B t = Some w \<longrightarrow> dw \<noteq> Some w) \<and>
     (\<forall>t u w. B t = Some w \<and> B u = Some w \<longrightarrow> t = u)"

definition pcs_ok :: "fd option \<Rightarrow> bool \<Rightarrow> (nat \<Rightarrow> watch_pc) \<Rightarrow> bool" where
  "pcs_ok dw hup pcs \<longleftrightarrow>
     (\<forall>t w. pcs t = WatchWait w \<longrightarrow> dw = Some w) \<and>
     (\<forall>t c. pcs t = WatchDone c \<longrightarrow> c = ReactorFailed \<or> hup)"

definition watch_inv :: "'k net \<Rightarrow> ('k \<Rightarrow> fd \<Rightarrow> nat option) \<Rightarrow> ('o, 'k) watch_sys \<Rightarrow> bool" where
  "watch_inv N obj s \<longleftrightarrow>
     table_ok (obj (ws_kern s)) (ri_fd (ws_inner s)) (ri_death (ws_inner s)) (ws_made s)
       (building_watch \<circ> ws_pcs s) \<and>
     pcs_ok (ri_death (ws_inner s)) (is_hung_up N (ri_fd (ws_inner s)) (ws_kern s)) (ws_pcs s)"

lemma table_okD:
  assumes "table_ok ob f dw made B"
  shows "ob f \<noteq> None" "f \<notin> made" "w \<in> made \<Longrightarrow> ob w = ob f" "made = set_option dw \<union> {w. \<exists>t. B t = Some w}"
    "B t = Some w \<Longrightarrow> dw \<noteq> Some w" "B t = Some w \<Longrightarrow> B u = Some w \<Longrightarrow> t = u"
    "B t = Some w \<Longrightarrow> w \<in> made"
  using assms unfolding table_ok_def by blast+

lemma table_keep:
  "table_ok ob f dw made B \<Longrightarrow> (\<And>d. ob d \<noteq> None \<Longrightarrow> ob' d = ob d) \<Longrightarrow> table_ok ob' f dw made B"
  unfolding table_ok_def by metis

lemma table_dup:
  assumes ok: "table_ok ob f dw made B" and t: "B t = None" and w: "ob w = None"
  shows "table_ok (ob(w := ob f)) f dw (insert w made) (B(t := Some w))"
proof -
  note D = table_okD [OF ok]
  have new: "w \<notin> made" "w \<noteq> f" using D(1,3) w by auto
  then have "dw \<noteq> Some w" "\<And>u. B u \<noteq> Some w" using D(4,7) by auto
  moreover have "{v. \<exists>u. (B(t := Some w)) u = Some v} = insert w {v. \<exists>u. B u = Some v}"
    using t by (auto split: if_splits) (metis fun_upd_apply option.distinct(1))
  ultimately show ?thesis using D new t unfolding table_ok_def
    by (auto split: if_splits)
qed

lemma table_drop:
  assumes ok: "table_ok ob f dw made B" and t: "B t = Some w"
    and ob: "\<And>d. d \<noteq> w \<Longrightarrow> ob' d = ob d"
  shows "table_ok ob' f dw (made - {w}) (B(t := None))"
proof -
  note D = table_okD [OF ok]
  have w: "w \<in> made" "f \<noteq> w" "dw \<noteq> Some w" using D(2,5,7) t by auto
  have "{v. \<exists>u. (B(t := None)) u = Some v} = {v. \<exists>u. B u = Some v} - {w}"
  proof (intro set_eqI iffI)
    fix v assume "v \<in> {v. \<exists>u. (B(t := None)) u = Some v}"
    then obtain u where "u \<noteq> t" "B u = Some v" by (auto split: if_splits)
    with D(6) [OF t] show "v \<in> {v. \<exists>u. B u = Some v} - {w}" by auto
  next
    fix v assume "v \<in> {v. \<exists>u. B u = Some v} - {w}"
    then obtain u where "B u = Some v" "v \<noteq> w" by blast
    then have "(B(t := None)) u = Some v" using t by auto
    then show "v \<in> {v. \<exists>u. (B(t := None)) u = Some v}" by blast
  qed
  moreover have "set_option dw - {w} = set_option dw" using w(3) by auto
  ultimately have "made - {w} = set_option dw \<union> {v. \<exists>u. (B(t := None)) u = Some v}" using D(4) by auto
  moreover have "ob' v = ob' f" if "v \<in> made - {w}" for v using that D(3) ob w(2) by simp
  moreover have "ob' f \<noteq> None" using D(1) ob w(2) by simp
  ultimately show ?thesis using D(2,5,6) unfolding table_ok_def by (auto split: if_splits)
qed

lemma table_set:
  assumes ok: "table_ok ob f None made B" and t: "B t = Some w"
  shows "table_ok ob f (Some w) made (B(t := None))"
proof -
  note D = table_okD [OF ok]
  have "{v. \<exists>u. B u = Some v} = insert w {v. \<exists>u. (B(t := None)) u = Some v}"
    using t by (auto split: if_splits) (metis fun_upd_apply option.inject)
  with D t show ?thesis unfolding table_ok_def by (auto split: if_splits)
qed

lemma pcs_update:
  "pcs_ok dw hup pcs \<Longrightarrow> (\<And>w. pc = WatchWait w \<Longrightarrow> dw = Some w) \<Longrightarrow>
   (\<And>c. pc = WatchDone c \<Longrightarrow> c = ReactorFailed \<or> hup) \<Longrightarrow> pcs_ok dw hup (pcs(t := pc))"
  unfolding pcs_ok_def by auto

lemma pcs_weaken: "pcs_ok dw hup pcs \<Longrightarrow> (hup \<longrightarrow> hup') \<Longrightarrow> pcs_ok dw hup' pcs"
  unfolding pcs_ok_def by blast

lemma pcs_set: "pcs_ok None hup pcs \<Longrightarrow> pcs_ok (Some w) hup pcs"
  unfolding pcs_ok_def by auto

lemma building_update [simp]: "building_watch \<circ> pcs(t := pc) = (building_watch \<circ> pcs)(t := building_watch pc)"
  by (rule fun_upd_comp)

lemma made_same: "(\<And>d. d \<in> made \<Longrightarrow> ob d \<noteq> None) \<Longrightarrow> {d. ob d \<noteq> None \<and> (d \<in> made \<or> ob d = None)} = made"
  by auto


lemma poll_lawD:
  assumes "poll_law N obj"
  shows "obj k d \<noteq> None \<Longrightarrow> obj k d' = obj k d \<Longrightarrow> is_hung_up N d' k = is_hung_up N d k"
    "obj k d \<noteq> None \<Longrightarrow> is_hung_up N d k \<Longrightarrow> is_hung_up N d (snd (net_dup N f k))"
    "obj k d \<noteq> None \<Longrightarrow> is_hung_up N d k \<Longrightarrow> is_hung_up N d (snd (net_async_fd N f k))"
    "obj k d \<noteq> None \<Longrightarrow> is_hung_up N d k \<Longrightarrow> d \<noteq> f \<Longrightarrow> is_hung_up N d (net_close N f k)"
  using assms unfolding poll_law_def by blast+

lemma made_opened:
  "(\<And>d. d \<in> made \<Longrightarrow> ob d \<noteq> None) \<Longrightarrow> ob w = None \<Longrightarrow> x \<noteq> None \<Longrightarrow>
   {d. (ob(w := x)) d \<noteq> None \<and> (d \<in> made \<or> ob d = None)} = insert w made"
  by (auto split: if_splits)

lemma made_closed:
  assumes "\<And>d. d \<in> made \<Longrightarrow> ob d \<noteq> None" and "ob' w = None" and "\<And>d. d \<noteq> w \<Longrightarrow> ob' d = ob d"
  shows "{d. ob' d \<noteq> None \<and> (d \<in> made \<or> ob d = None)} = made - {w}"
proof (intro set_eqI iffI)
  fix d assume d: "d \<in> {d. ob' d \<noteq> None \<and> (d \<in> made \<or> ob d = None)}"
  then have "d \<noteq> w" using assms(2) by auto
  with d assms(3) show "d \<in> made - {w}" by auto
qed (use assms in auto)

lemma watch_inv_watcher:
  assumes il: "identity_law N obj" and pl: "poll_law N obj" and inv: "watch_inv N obj s"
    and stp: "notification_step N (ws_pcs s t) (ws_inner s, ws_kern s) = Some (pc, v, k)"
  shows "watch_inv N obj (s\<lparr>ws_pcs := (ws_pcs s)(t := pc), ws_inner := v, ws_kern := k,
      ws_made := {d. obj k d \<noteq> None \<and> (d \<in> ws_made s \<or> obj (ws_kern s) d = None)}\<rparr>)"
    (is "watch_inv N obj ?s")
proof -
  let ?k = "ws_kern s" and ?v = "ws_inner s"
  let ?f = "ri_fd ?v" and ?dw = "ri_death ?v" and ?ob = "obj ?k"
  let ?B = "building_watch \<circ> ws_pcs s"
  have T: "table_ok ?ob ?f ?dw (ws_made s) ?B" and P: "pcs_ok ?dw (is_hung_up N ?f ?k) (ws_pcs s)"
    using inv by (simp_all add: watch_inv_def)
  note D = table_okD [OF T]
  have made: "d \<in> ws_made s \<Longrightarrow> ?ob d \<noteq> None" for d using D(1,3) by metis
  have still: "watch_inv N obj ?s"
    if "v = ?v" "obj k = ?ob" "is_hung_up N ?f ?k \<longrightarrow> is_hung_up N ?f k" "building_watch pc = building_watch (ws_pcs s t)"
      "\<And>w. pc = WatchWait w \<Longrightarrow> ?dw = Some w" "\<And>c. pc = WatchDone c \<Longrightarrow> c = ReactorFailed \<or> is_hung_up N ?f k"
  proof -
    have "?B(t := building_watch pc) = ?B" using that(4) by auto
    moreover have "pcs_ok ?dw (is_hung_up N ?f k) ((ws_pcs s)(t := pc))"
      by (rule pcs_update [OF pcs_weaken [OF P that(3)] that(5,6)])
    ultimately show ?thesis using that(1,2) T made_same [of "ws_made s" ?ob] made by (simp add: watch_inv_def)
  qed
  show ?thesis
  proof (cases "ws_pcs s t")
    case WatchCheck
    then show ?thesis using stp by (intro still) (auto split: if_splits)
  next
    case WatchGet
    then show ?thesis using stp by (intro still) (auto split: option.splits)
  next
    case WatchDup
    obtain x k1 where dup: "net_dup N ?f ?k = (x, k1)" by fastforce
    have hup: "is_hung_up N ?f ?k \<longrightarrow> is_hung_up N ?f k1"
      using poll_lawD(2) [OF pl D(1), of ?f] dup by simp
    show ?thesis
    proof (cases x)
      case (Inl e)
      with stp dup WatchDup hup id_dup_err(1) [OF il dup [unfolded Inl]] show ?thesis by (intro still) simp_all
    next
      case (Inr w)
      note d = id_dup(1,2) [OF il dup [unfolded Inr]]
      have "table_ok (obj k1) ?f ?dw (insert w (ws_made s)) (?B(t := Some w))"
        unfolding d(2) by (rule table_dup [OF T _ d(1)]) (simp add: WatchDup)
      moreover have "{d. obj k1 d \<noteq> None \<and> (d \<in> ws_made s \<or> ?ob d = None)} = insert w (ws_made s)"
        unfolding d(2) by (rule made_opened [where ob = ?ob, OF made d(1) D(1)])
      moreover have out: "pc = WatchRegister w" "v = ?v" "k = k1" using stp dup Inr WatchDup by simp_all
      ultimately show ?thesis using pcs_update [OF pcs_weaken [OF P hup], of "WatchRegister w" t]
        by (simp add: watch_inv_def)
    qed
  next
    case (WatchRegister w)
    then have t: "?B t = Some w" by simp
    then have w: "w \<noteq> ?f" using D(2,7) by blast
    obtain x k1 where a: "net_async_fd N w ?k = (x, k1)" by fastforce
    have k1: "obj k1 = ?ob" "is_hung_up N ?f ?k \<longrightarrow> is_hung_up N ?f k1"
      using id_async(1) [OF il, of w ?k] poll_lawD(3) [OF pl D(1), of w] a by simp_all
    show ?thesis
    proof (cases x)
      case (Inl e)
      then have out: "pc = WatchStuck" "v = ?v" "k = net_close N w k1"
        using stp a WatchRegister by (simp_all add: reactive_new_def io_defs)
      have "obj k d = ?ob d" if "d \<noteq> w" for d using id_close(1) [OF il that, of k1] k1(1) out(3) by simp
      moreover have "obj k w = None" using id_closed [OF il] out(3) by simp
      moreover have "is_hung_up N ?f ?k \<longrightarrow> is_hung_up N ?f k"
        using poll_lawD(4) [OF pl, of k1 ?f w] k1 D(1) w out(3) by simp
      ultimately show ?thesis
        using table_drop [where B = ?B, OF T t, of "obj k"] made_closed [where ob = ?ob and ob' = "obj k" and w = w, OF made] out
          pcs_update [OF pcs_weaken [OF P], of _ WatchStuck t]
        by (simp add: watch_inv_def)
    next
      case (Inr u)
      then have out: "pc = WatchSet w" "v = ?v" "k = k1"
        using stp a WatchRegister by (simp_all add: reactive_new_def io_defs)
      with k1 WatchRegister show ?thesis by (intro still) simp_all
    qed
  next
    case (WatchSet w)
    then have t: "?B t = Some w" by simp
    then have w: "w \<noteq> ?f" using D(2,7) by blast
    show ?thesis
    proof (cases ?dw)
      case None
      then have out: "pc = WatchWait w" "v = ?v\<lparr>ri_death := Some w\<rparr>" "k = ?k" using stp WatchSet by simp_all
      with table_set [where B = ?B, OF T [unfolded None] t] made_same [of "ws_made s" ?ob] made
        pcs_update [OF pcs_set [OF P [unfolded None]], of "WatchWait w" w t]
      show ?thesis by (simp add: watch_inv_def)
    next
      case (Some w0)
      then have out: "pc = WatchWait w0" "v = ?v" "k = net_close N w ?k" using stp WatchSet by simp_all
      have "obj k d = ?ob d" if "d \<noteq> w" for d using id_close(1) [OF il that, of ?k] out(3) by simp
      moreover have "obj k w = None" using id_closed [OF il] out(3) by simp
      moreover have "is_hung_up N ?f ?k \<longrightarrow> is_hung_up N ?f k"
        using poll_lawD(4) [OF pl D(1), of w] w out(3) by simp
      ultimately show ?thesis
        using table_drop [where B = ?B, OF T t, of "obj k"] made_closed [where ob = ?ob and ob' = "obj k" and w = w, OF made] out Some
          pcs_update [OF pcs_weaken [OF P], of _ "WatchWait w0" t]
        by (simp add: watch_inv_def)
    qed
  qed (use stp in simp_all)
qed

lemma watch_inv_move:
  assumes "watch_inv N obj s" and "building_watch pc = building_watch (ws_pcs s t)"
    and "\<And>w. pc = WatchWait w \<Longrightarrow> ri_death (ws_inner s) = Some w"
    and "\<And>c. pc = WatchDone c \<Longrightarrow> c = ReactorFailed \<or> is_hung_up N (ri_fd (ws_inner s)) (ws_kern s)"
  shows "watch_inv N obj (s\<lparr>ws_pcs := (ws_pcs s)(t := pc)\<rparr>)"
proof -
  have "(building_watch \<circ> ws_pcs s)(t := building_watch pc) = (building_watch \<circ> ws_pcs s)"
    using assms(2) by auto
  with assms(1) pcs_update [of _ _ "ws_pcs s" pc t] assms(3,4) show ?thesis by (simp add: watch_inv_def)
qed

lemma watch_inv_step:
  assumes il: "identity_law N obj" and pl: "poll_law N obj" and inv: "watch_inv N obj s" and stp: "watch_step N obj s s'"
  shows "watch_inv N obj s'"
  using stp
proof (cases rule: watch_step.cases)
  case (step_notification t)
  then show ?thesis by (simp, intro watch_inv_move [OF inv]) simp_all
next
  case (step_watcher t pc v k)
  then show ?thesis using watch_inv_watcher [OF il pl inv] by simp
next
  case (step_ready t w x)
  let ?f = "ri_fd (ws_inner s)"
  have T: "table_ok (obj (ws_kern s)) ?f (ri_death (ws_inner s)) (ws_made s) (building_watch \<circ> ws_pcs s)"
    using inv by (simp add: watch_inv_def)
  have w: "ri_death (ws_inner s) = Some w" using inv step_ready(2) by (simp add: watch_inv_def pcs_ok_def)
  then have "obj (ws_kern s) w = obj (ws_kern s) ?f" using table_okD(3,4) [OF T] by auto
  then have hup: "is_hung_up N w (ws_kern s) = is_hung_up N ?f (ws_kern s)"
    using poll_lawD(1) [OF pl] table_okD(1) [OF T] by blast
  show ?thesis
  proof (cases "hangup [x]")
    case False
    then have "(if hangup [x] then WatchDone (if isl x then ReactorFailed else HangupReported) else WatchWait w) = WatchWait w"
      by simp
    with w show ?thesis unfolding step_ready(1) by (intro watch_inv_move [OF inv]) (simp_all add: step_ready(2))
  next
    case True
    then have pc: "(if hangup [x] then WatchDone (if isl x then ReactorFailed else HangupReported) else WatchWait w) =
        WatchDone (if isl x then ReactorFailed else HangupReported)" by simp
    have "isl x \<or> is_hung_up N ?f (ws_kern s)"
    proof (cases x)
      case (Inr y)
      obtain c e where y: "y = (c, e)" by fastforce
      with True Inr have "c \<or> e" by (simp split: if_splits)
      with step_ready(3) Inr y hup show ?thesis by blast
    qed simp
    then show ?thesis unfolding step_ready(1) pc by (intro watch_inv_move [OF inv]) (auto simp: step_ready(2))
  qed
next
  case (step_watch_cancel t w)
  from step_watch_cancel(2) have "building_watch (ws_pcs s t) = None" by auto
  then show ?thesis unfolding step_watch_cancel(1) by (intro watch_inv_move [OF inv]) simp_all
next
  case (step_watch_return t c)
  then show ?thesis by (simp, intro watch_inv_move [OF inv]) simp_all
next
  case (step_watch_kernel k)
  let ?T = "table_ok (obj (ws_kern s)) (ri_fd (ws_inner s)) (ri_death (ws_inner s)) (ws_made s) (building_watch \<circ> ws_pcs s)"
  have T: ?T using inv by (simp add: watch_inv_def)
  have "table_ok (obj k) (ri_fd (ws_inner s)) (ri_death (ws_inner s)) (ws_made s) (building_watch \<circ> ws_pcs s)"
    by (rule table_keep [OF T]) (use step_watch_kernel(2) in \<open>auto simp: moves_on_def keeps_open_def\<close>)
  moreover have "is_hung_up N (ri_fd (ws_inner s)) (ws_kern s) \<longrightarrow> is_hung_up N (ri_fd (ws_inner s)) k"
    using table_okD(1) [OF T] step_watch_kernel(2) by (auto simp: moves_on_def)
  with inv have "pcs_ok (ri_death (ws_inner s)) (is_hung_up N (ri_fd (ws_inner s)) k) (ws_pcs s)"
    using pcs_weaken unfolding watch_inv_def by blast
  ultimately show ?thesis unfolding step_watch_kernel(1) by (simp add: watch_inv_def)
qed

lemma watch_inv_init: "obj k (ri_fd v) \<noteq> None \<Longrightarrow> ri_death v = None \<Longrightarrow> watch_inv N obj (watch_init v k)"
  by (simp add: watch_inv_def table_ok_def pcs_ok_def watch_init_def)

interpretation watching: state_machine "watch_init v k" "watch_step N obj"
  "\<lambda>s. identity_law N obj \<and> poll_law N obj \<and> obj k (ri_fd v) \<noteq> None \<and> ri_death v = None \<longrightarrow> watch_inv N obj s"
  for v :: "'o ref_inner" and k :: 'k and N :: "'k net" and obj
  by unfold_locales (auto intro: watch_inv_init watch_inv_step)


section \<open>Runs that can be computed\<close>

datatype watch_turn = TurnCall nat | TurnStep nat | TurnReady nat "io_error + bool \<times> bool"

fun watch_act ::
  "'k net \<Rightarrow> ('k \<Rightarrow> fd \<Rightarrow> nat option) \<Rightarrow> watch_turn \<Rightarrow> ('o, 'k) watch_sys \<Rightarrow> ('o, 'k) watch_sys option" where
  "watch_act N obj (TurnCall t) s =
     (if ws_pcs s t = WatchIdle then Some (s\<lparr>ws_pcs := (ws_pcs s)(t := WatchCheck)\<rparr>) else None)"
| "watch_act N obj (TurnStep t) s =
     (case notification_step N (ws_pcs s t) (ws_inner s, ws_kern s) of None \<Rightarrow> None
      | Some (pc, v, k) \<Rightarrow> Some (s\<lparr>ws_pcs := (ws_pcs s)(t := pc), ws_inner := v, ws_kern := k,
          ws_made := {d. obj k d \<noteq> None \<and> (d \<in> ws_made s \<or> obj (ws_kern s) d = None)}\<rparr>))"
| "watch_act N obj (TurnReady t x) s =
     (case ws_pcs s t of
        WatchWait w \<Rightarrow>
          if isl x then Some (s\<lparr>ws_pcs := (ws_pcs s)(t := WatchDone ReactorFailed)\<rparr>) else None
      | _ \<Rightarrow> None)"

lemma watch_act_step: "watch_act N obj a s = Some s' \<Longrightarrow> watch_step N obj s s'"
proof (cases a)
  case (TurnStep t)
  assume "watch_act N obj a s = Some s'"
  with TurnStep obtain pc v k where w: "notification_step N (ws_pcs s t) (ws_inner s, ws_kern s) = Some (pc, v, k)"
    "s' = s\<lparr>ws_pcs := (ws_pcs s)(t := pc), ws_inner := v, ws_kern := k,
      ws_made := {d. obj k d \<noteq> None \<and> (d \<in> ws_made s \<or> obj (ws_kern s) d = None)}\<rparr>"
    by (auto split: option.splits prod.splits simp del: not_None_eq)
  show ?thesis unfolding w(2) by (rule step_watcher [OF w(1)])
next
  case (TurnReady t x)
  assume "watch_act N obj a s = Some s'"
  with TurnReady obtain w e where w: "ws_pcs s t = WatchWait w" "x = Inl e"
    "s' = s\<lparr>ws_pcs := (ws_pcs s)(t := WatchDone ReactorFailed)\<rparr>"
    by (cases x) (auto split: watch_pc.splits)
  then show ?thesis using step_ready [of s t w "Inl e" N obj] by simp
qed (auto split: if_splits option.splits prod.splits intro: watch_step.intros)

fun watch_acts ::
  "'k net \<Rightarrow> ('k \<Rightarrow> fd \<Rightarrow> nat option) \<Rightarrow> watch_turn list \<Rightarrow> ('o, 'k) watch_sys \<Rightarrow> ('o, 'k) watch_sys option" where
  "watch_acts N obj [] s = Some s"
| "watch_acts N obj (a # as) s =
     (case watch_act N obj a s of None \<Rightarrow> None | Some s' \<Rightarrow> watch_acts N obj as s')"

lemma watch_acts_reach:
  "watch_acts N obj as s = Some s' \<Longrightarrow> reach i (watch_step N obj) s \<Longrightarrow> reach i (watch_step N obj) s'"
  by (induction as arbitrary: s) (auto split: option.splits dest: watch_act_step intro: reach_step)

text \<open>Two tasks watch one reference at the same time: both register a duplicate, one is kept.\<close>

definition race_turns :: "watch_turn list" where
  "race_turns = [TurnCall 0, TurnStep 0, TurnStep 0, TurnStep 0, TurnCall 1, TurnStep 1, TurnStep 1, TurnStep 1,
     TurnStep 1, TurnStep 0, TurnStep 0, TurnStep 1]"

definition race_state :: "(unit, fd_table) watch_sys" where
  "race_state = \<lparr>ws_inner = (ref_inner_new None 5 (Some (9, 70)))\<lparr>ri_death := Some 6\<rparr>, ws_kern = [(6, 70), (5, 70)],
     ws_pcs = (\<lambda>_. WatchIdle)(0 := WatchWait 6, 1 := WatchWait 6), ws_made = {6}\<rparr>"

lemma race_run:
  "watch_acts table_net table_obj race_turns (watch_init (ref_inner_new None 5 (Some (9, 70))) [(5, 70)]) = Some race_state"
  by (simp add: race_turns_def race_state_def watch_init_def is_hung_up_def table_net_def reactive_new_def io_defs
      table_obj_def table_fresh_def ref_inner_new_def) auto


lemma race_reach: "reach (watch_init (ref_inner_new None 5 (Some (9, 70))) [(5, 70)]) (watch_step table_net table_obj) race_state"
  using watch_acts_reach [OF race_run reach_init] .

lemma table_not_hung: "is_hung_up table_net d k = False"
  by (simp add: is_hung_up_def table_net_def)

lemma table_poll_law: "poll_law table_net table_obj"
  by (simp add: poll_law_def table_not_hung)

section \<open>Properties\<close>

text \<open>C14: a reference that is watched pays for one watch. However the calls of
  \<^verbatim>\<open>death_notification\<close> on it interleave, race for the \<^verbatim>\<open>OnceLock\<close>, fail or are dropped while
  they wait, the descriptors they have made and not closed are the one watch that is shared and
  one for each call between its \<^verbatim>\<open>dup\<close> and its \<^verbatim>\<open>set\<close>, each of the reference's own socket; every
  call that waits does so on the shared one; and once no call is in between, at most one
  descriptor was added.\<close>

theorem death_watch_is_shared:
  assumes "identity_law N obj" and "poll_law N obj" and "obj k (ri_fd v) \<noteq> None" and "ri_death v = None"
    and "reach (watch_init v k) (watch_step N obj) s"
  shows "ws_made s = set_option (ri_death (ws_inner s)) \<union> {w. \<exists>t. ws_pcs s t = WatchRegister w \<or> ws_pcs s t = WatchSet w} \<and>
    (\<forall>w \<in> ws_made s. obj (ws_kern s) w = obj (ws_kern s) (ri_fd (ws_inner s))) \<and>
    (\<forall>t w. ws_pcs s t = WatchWait w \<longrightarrow> ri_death (ws_inner s) = Some w) \<and>
    ((\<forall>t. building_watch (ws_pcs s t) = None) \<longrightarrow> card (ws_made s) \<le> 1)"
proof -
  have inv: "watch_inv N obj s" using watching.reach_inv [OF assms(5)] assms(1-4) by blast
  then have T: "table_ok (obj (ws_kern s)) (ri_fd (ws_inner s)) (ri_death (ws_inner s)) (ws_made s) (building_watch \<circ> ws_pcs s)"
    and P: "pcs_ok (ri_death (ws_inner s)) (is_hung_up N (ri_fd (ws_inner s)) (ws_kern s)) (ws_pcs s)"
    by (simp_all add: watch_inv_def)
  have b: "building_watch pc = Some w \<longleftrightarrow> pc = WatchRegister w \<or> pc = WatchSet w" for pc w by (cases pc) auto
  have made: "ws_made s = set_option (ri_death (ws_inner s)) \<union> {w. \<exists>t. building_watch (ws_pcs s t) = Some w}"
    using table_okD(4) [OF T] by simp
  moreover have "card (ws_made s) \<le> 1" if "\<forall>t. building_watch (ws_pcs s t) = None"
    unfolding made using that by (cases "ri_death (ws_inner s)") simp_all
  ultimately show ?thesis using table_okD(3) [OF T] P unfolding b pcs_ok_def by blast
qed

theorem death_watch_is_shared_witness:
  "card (ws_made race_state) \<le> 1 \<and> ri_death (ws_inner race_state) = Some 6"
  using death_watch_is_shared [OF table_law table_poll_law _ _ race_reach]
  by (simp add: table_obj_def ref_inner_new_def race_state_def)



text \<open>Sockets from inode 1000 on have lost their peer.\<close>

definition gone_net :: "fd_table net" where
  "gone_net = table_net\<lparr>net_poll := (\<lambda>d fl k. Inr (case map_of k d of None \<Rightarrow> {POLL_NVAL}
     | Some i \<Rightarrow> if 1000 \<le> i then {POLL_HUP} else {}))\<rparr>"

lemma gone_hung: "is_hung_up gone_net d k = (case map_of k d of None \<Rightarrow> True | Some i \<Rightarrow> 1000 \<le> i)"
  by (simp add: is_hung_up_def gone_net_def split: option.splits)

lemma gone_law: "identity_law gone_net table_obj"
proof -
  have id: "socket_id gone_net = socket_id table_net" by (intro ext) (simp add: socket_id_def gone_net_def)
  have calls: "net_close gone_net = net_close table_net" "net_dup gone_net = net_dup table_net"
    "net_async_fd gone_net = net_async_fd table_net" by (simp_all add: gone_net_def)
  show ?thesis using table_law unfolding identity_law_def id calls .
qed

lemma gone_poll_law: "poll_law gone_net table_obj"
  unfolding poll_law_def gone_hung table_obj_def
  by (auto simp: gone_net_def table_net_def io_ret_def map_of_without table_fresh
      word_unat_eq_iff [symmetric] split: option.splits)


text \<open>
  The other case: the peer is there, the runtime shuts down under the watch, and the
  notification has returned all the same.
\<close>

lemma reactor_failure_reads_as_death:
  "\<exists>s. reach (watch_init (ref_inner_new None 5 (Some (9, 70)) :: unit ref_inner) [(5, 70)]) (watch_step table_net table_obj) s \<and>
     ws_pcs s 0 = WatchDone ReactorFailed \<and> \<not> is_hung_up table_net (ri_fd (ws_inner s)) (ws_kern s)"
proof -
  have "watch_acts table_net table_obj [TurnReady 0 (Inl (SimpleError BrokenPipe))] race_state =
      Some (race_state\<lparr>ws_pcs := (ws_pcs race_state)(0 := WatchDone ReactorFailed)\<rparr>)"
    by (simp add: race_state_def)
  from watch_acts_reach [OF this race_reach] show ?thesis
    by (intro exI [of _ "race_state\<lparr>ws_pcs := (ws_pcs race_state)(0 := WatchDone ReactorFailed)\<rparr>"])
      (simp add: table_not_hung)
qed

end
