(* ===== verification/Ipc_Lifetime.thy ===== *)
theory Ipc_Lifetime
  imports Ipc_Registry_Props Ipc_Node_Props
begin

text \<open>
  How long a node lives: as long as somebody holds a reference to it. The registry machine,
  the drop of a \<^verbatim>\<open>Ref\<close>, the receive loop and the machine of a node's task, composed.
\<close>

section \<open>When a socket hangs up\<close>

text \<open>
  \<open>i\<close> is the sending end. Its peer hangs up when the last descriptor of \<open>i\<close> is closed:
  none in this process, none \<open>elsewhere\<close>, that is in another process or on a message in
  flight. Closing a descriptor makes no copy of one.
\<close>

definition hangup_law ::
  "'k net \<Rightarrow> ('k \<Rightarrow> fd \<Rightarrow> nat option) \<Rightarrow> nat \<Rightarrow> ('k \<Rightarrow> bool) \<Rightarrow> ('k \<Rightarrow> bool) \<Rightarrow> bool" where
  "hangup_law N obj i elsewhere hung \<longleftrightarrow>
     (\<forall>k. hung k \<longleftrightarrow> (\<forall>d. obj k d \<noteq> Some i) \<and> \<not> elsewhere k) \<and>
     (\<forall>d k. \<not> elsewhere k \<longrightarrow> \<not> elsewhere (net_close N d k))"

definition only_reached_by ::
  "('k \<Rightarrow> fd \<Rightarrow> nat option) \<Rightarrow> nat \<Rightarrow> ('k \<Rightarrow> bool) \<Rightarrow> 'o ref_inner \<Rightarrow> 'k \<Rightarrow> bool" where
  "only_reached_by obj i elsewhere v k \<longleftrightarrow>
     (\<forall>d. obj k d = Some i \<longrightarrow> d \<in> owned v) \<and> \<not> elsewhere k"

lemma fields_drop_hangs_up:
  assumes law: "identity_law N obj" and hup: "hangup_law N obj i elsewhere hung"
    and only: "only_reached_by obj i elsewhere v k"
  shows "hung (ref_fields_drop N v k)"
proof -
  have close: "obj (net_close N d k) e = (if e = d then None else obj k e)" for d e k
    using id_close(1) [OF law] id_closed [OF law] by simp
  from hup only show ?thesis
    unfolding hangup_law_def only_reached_by_def ref_fields_drop_def owned_def
    by (auto simp: close split: option.splits if_splits)
qed

lemma fields_drop_keeps:
  assumes "seqpacket_law N rx q hung" and "rx \<notin> owned v"
  shows "keeps q hung k (ref_fields_drop N v k)"
  using close_all_keeps [OF assms(1), of "ri_fd v # (case ri_death v of None \<Rightarrow> [] | Some w \<Rightarrow> [w])" k] assms(2)
  by (cases "ri_death v") (simp_all add: owned_def close_all_def ref_fields_drop_def)

section \<open>Dropping every clone\<close>

lemma ref_drop_shared:
  assumes "cp_heap s r = Some c" and "strong c = Suc (Suc n)"
  shows "ref_drop N r (s, k) = (s\<lparr>cp_heap := (cp_heap s)(r \<mapsto> c\<lparr>strong := Suc n\<rparr>)\<rparr>, k)"
  using assms by (simp add: ref_drop_def arc_release_def strong_count_def)

lemma ref_drop_last:
  assumes "cp_heap s r = Some c" and "strong c = 1"
  shows "snd (ref_drop N r (s, k)) = ref_fields_drop N (inner c) k"
  using assms by (simp add: ref_drop_def arc_release_def strong_count_def)

lemma ref_drop_all:
  assumes "cp_heap s r = Some c" and "strong c = Suc n"
  shows "snd ((ref_drop N r ^^ Suc n) (s, k)) = ref_fields_drop N (inner c) k"
  using assms
proof (induction n arbitrary: s c)
  case 0
  then show ?case by (simp add: ref_drop_last)
next
  case (Suc n)
  let ?s = "s\<lparr>cp_heap := (cp_heap s)(r \<mapsto> c\<lparr>strong := Suc n\<rparr>)\<rparr>"
  have "(ref_drop N r ^^ Suc (Suc n)) (s, k) = (ref_drop N r ^^ Suc n) (?s, k)"
    by (simp only: funpow_Suc_right o_apply ref_drop_shared [OF Suc.prems])
  moreover have "cp_heap ?s r = Some (c\<lparr>strong := Suc n\<rparr>)" "strong (c\<lparr>strong := Suc n\<rparr>) = Suc n" by simp_all
  ultimately show ?case using Suc.IH by fastforce
qed

section \<open>The end of the task\<close>

text \<open>A task whose loop has returned runs to the end, whatever became of the handle.\<close>

lemma ended_loop_declares_death:
  assumes "reach (node_sys_init T filed) (node_step T) ns" and "ns_task ns = TaskRunning"
  shows "\<exists>ns'. reach (node_sys_init T filed) (node_step T) ns' \<and> ns_task ns' = TaskUnfiled \<and>
    death_is_dead (ns_death ns') \<and> ns_cause ns' = LoopReturned \<and> \<not> ns_filed ns' \<and>
    ns_handle ns' = ns_handle ns"
proof -
  have inv: "node_inv filed ns" by (rule node_life.reach_inv [OF assms(1)])
  let ?a = "ns\<lparr>ns_task := TaskSocketClosed, ns_cause := LoopReturned\<rparr>"
  let ?b = "?a\<lparr>ns_task := TaskUnfiled, ns_filed := False\<rparr>"
  have held: "ns_tomb ?b = TombHeld" using inv assms(2) by (auto simp: node_inv_def)
  then obtain p d where d: "declare_step T (ns_tomb ?b) (ns_death ?b) = Some (p, d)" "dead_flag d" by simp
  have "reach (node_sys_init T filed) (node_step T) ?a"
    by (rule reach_step [OF assms(1) step_loop_end [OF assms(2)]])
  then have "reach (node_sys_init T filed) (node_step T) ?b"
    by (rule reach_step) (use step_task_unfile [of ?a T] in simp)
  then have "reach (node_sys_init T filed) (node_step T) (?b\<lparr>ns_tomb := p, ns_death := d\<rparr>)"
    by (rule reach_step) (use step_tombstone [OF _ d(1)] in simp)
  with d(2) show ?thesis
    by (intro exI [of _ "?b\<lparr>ns_tomb := p, ns_death := d\<rparr>"]) (simp add: death_is_dead_def)
qed

section \<open>A node and its only reference\<close>

text \<open>
  The descriptors of one process with the inode each names, and the datagrams on their way to
  the receiving end, each with the inodes of what is attached. Inode 70 is the sending end and
  descriptor 0 the receiving one.
\<close>

record life =
  lf_tab :: fd_table
  lf_queue :: "(u8 list \<times> u64 list) list"

definition life_flying :: "life \<Rightarrow> bool" where
  "life_flying k \<longleftrightarrow> (\<exists>x \<in> set (lf_queue k). 70 \<in> set (snd x))"

definition life_hung :: "life \<Rightarrow> bool" where
  "life_hung k \<longleftrightarrow> (\<forall>d \<in> fst ` set (lf_tab k). map_of (lf_tab k) d \<noteq> Some 70) \<and> \<not> life_flying k"

definition life_recvmsg :: "nat \<Rightarrow> (recv_return, life) io" where
  "life_recvmsg len k =
     (case lf_queue k of
        [] \<Rightarrow> if life_hung k
              then (Inr \<lparr>rr_bytes = 0, rr_written = [], rr_anc = [], rr_ctrunc = False\<rparr>, k)
              else (Inl (OsError WouldBlock 11), k)
      | (p, is) # q \<Rightarrow>
          (let ds = [table_fresh (lf_tab k) ..< table_fresh (lf_tab k) + length is]
           in (Inr \<lparr>rr_bytes = length p, rr_written = take len p, rr_anc = [ScmRights ds], rr_ctrunc = False\<rparr>,
               k\<lparr>lf_tab := zip ds is @ lf_tab k, lf_queue := q\<rparr>)))"

definition life_net :: "life net" where
  "life_net =
     \<lparr>net_cmsg_space = sample_cmsg_space,
      net_anc_push = (\<lambda>sp ds. sample_cmsg_space (length ds) 0 \<le> sp),
      net_addr = Inr,
      net_socketpair = (\<lambda>fl. io_err (OsError (OtherKind 24) 24)),
      net_socket = (\<lambda>fl. io_err (OsError (OtherKind 24) 24)),
      net_bind = (\<lambda>d p. io_ret ()),
      net_listen = (\<lambda>d n. io_ret ()),
      net_connect = (\<lambda>d p. io_ret ()),
      net_accept = (\<lambda>d fl. io_err (OsError WouldBlock 11)),
      net_sendmsg = (\<lambda>d iov ctl fl. io_err (OsError BrokenPipe 32)),
      net_recvmsg = (\<lambda>d n c fl. life_recvmsg n),
      net_passcred = (\<lambda>d b. io_ret ()),
      net_poll = (\<lambda>d fl k. Inr {}),
      net_dup = (\<lambda>d k. case map_of (lf_tab k) d of None \<Rightarrow> (Inl (OsError (OtherKind 9) 9), k)
         | Some i \<Rightarrow> (Inr (table_fresh (lf_tab k)), k\<lparr>lf_tab := (table_fresh (lf_tab k), i) # lf_tab k\<rparr>)),
      net_close = (\<lambda>d k. k\<lparr>lf_tab := filter (\<lambda>x. fst x \<noteq> d) (lf_tab k)\<rparr>),
      net_fstat = (\<lambda>d k. case map_of (lf_tab k) d of None \<Rightarrow> Inl (OsError (OtherKind 9) 9)
         | Some i \<Rightarrow> Inr \<lparr>st_dev = 9, st_ino = i\<rparr>),
      net_async_fd = (\<lambda>d. io_ret ()),
      net_getrlimit = (\<lambda>k. \<lparr>rl_current = None, rl_maximum = None\<rparr>),
      net_setrlimit = (\<lambda>r. io_ret ())\<rparr>"

definition life_obj :: "life \<Rightarrow> fd \<Rightarrow> nat option" where
  "life_obj k = table_obj (lf_tab k)"

definition life_waiting :: "life \<Rightarrow> datagram list" where
  "life_waiting k = map (\<lambda>(p, is). (p, length is)) (lf_queue k)"

lemma life_socket_id: "socket_id life_net d k =
  (case map_of (lf_tab k) d of None \<Rightarrow> Inl (OsError (OtherKind 9) 9) | Some i \<Rightarrow> Inr (9, i))"
  by (simp add: socket_id_def life_net_def split: option.splits)

lemma life_law: "identity_law life_net life_obj"
  unfolding identity_law_def life_socket_id life_obj_def table_obj_def
  by (auto simp: life_net_def map_of_without table_fresh io_defs fun_eq_iff split: option.splits)
    (simp add: word_unat_eq_iff)

lemma life_hung_iff: "life_hung k \<longleftrightarrow> (\<forall>d. map_of (lf_tab k) d \<noteq> Some 70) \<and> \<not> life_flying k"
  unfolding life_hung_def by (metis domI dom_map_of_conv_image_fst)

lemma life_hangup_law: "hangup_law life_net life_obj 70 life_flying life_hung"
proof -
  have "life_obj k d = Some 70 \<longleftrightarrow> map_of (lf_tab k) d = Some 70" for k d
    by (auto simp: life_obj_def table_obj_def word_unat_eq_iff)
  then show ?thesis unfolding hangup_law_def life_hung_iff
    by (auto simp: life_flying_def life_net_def)
qed

lemma installed_inodes:
  "(\<exists>d. map_of (zip [table_fresh k ..< table_fresh k + length is] is @ k) d = Some x) \<longleftrightarrow>
   x \<in> set is \<or> (\<exists>d. map_of k d = Some x)"
  (is "(\<exists>d. map_of (?z @ k) d = Some x) \<longleftrightarrow> _")
proof -
  have dom: "d \<in> dom (map_of ?z) \<Longrightarrow> map_of k d = None" for d
    by (auto dest: map_of_SomeD set_zip_leftD intro!: table_above)
  have ran: "(\<exists>d. map_of ?z d = Some x) \<longleftrightarrow> x \<in> set is"
    using ran_map_of_zip [of "[table_fresh k ..< table_fresh k + length is]" "is"] by (auto simp: ran_def)
  show ?thesis
  proof
    assume "x \<in> set is \<or> (\<exists>d. map_of k d = Some x)"
    then show "\<exists>d. map_of (?z @ k) d = Some x"
    proof
      assume "\<exists>d. map_of k d = Some x"
      then obtain d where "map_of k d = Some x" by blast
      with dom [of d] have "map_of (?z @ k) d = Some x" by (auto simp: map_add_Some_iff domIff)
      then show ?thesis by blast
    qed (use ran in \<open>auto simp: map_add_Some_iff\<close>)
  qed (use ran in \<open>auto simp: map_add_Some_iff\<close>)
qed

lemma life_seqpacket_law: "seqpacket_law life_net 0 life_waiting life_hung"
proof -
  have empty: "life_waiting k = [] \<longleftrightarrow> lf_queue k = []" for k by (simp add: life_waiting_def)
  have data: "\<exists>anc k'. life_recvmsg len k =
      (Inr \<lparr>rr_bytes = length p, rr_written = take len p, rr_anc = anc, rr_ctrunc = False\<rparr>, k') \<and>
      life_waiting k' = ps \<and> life_hung k' = life_hung k \<and> length (fst (collect_ancillary anc ([], None))) = n \<and>
      0 \<notin> set (fst (collect_ancillary anc ([], None)))"
    if w: "life_waiting k = (p, n) # ps" for k len p n ps
  proof -
    from w obtain "is" rest where q: "lf_queue k = (p, is) # rest" "n = length is"
      "ps = map (\<lambda>(p, is). (p, length is)) rest" by (auto simp: life_waiting_def)
    have "0 < table_fresh (lf_tab k)" by (simp add: table_fresh_def)
    with q installed_inodes [of "lf_tab k" "is" 70] show ?thesis
      by (auto simp: life_recvmsg_def life_waiting_def life_hung_iff life_flying_def Let_def simp del: map_of_append)
  qed
  show ?thesis
    unfolding seqpacket_law_def
    by (auto simp: life_net_def data empty) (auto simp: life_recvmsg_def empty life_waiting_def life_hung_iff map_of_without life_flying_def)
qed

text \<open>A reference with a clone, and one datagram sent through it that has not been read.\<close>

definition life_state :: "(unit, life) cap_sys" where
  "life_state =
     \<lparr>cs_caps = \<lparr>cp_heap = [2 \<mapsto> \<lparr>strong = 2, inner = ref_inner_new None 5 (Some (9, 70))\<rparr>],
        cp_refs = [(9, 70) \<mapsto> 2]\<rparr>,
      cs_kern = \<lparr>lf_tab = [(5, 70), (0, 71)], lf_queue = [([1], [])]\<rparr>,
      cs_stage = (\<lambda>_. Gone)(2 := Alive), cs_loose = {}\<rparr>"

lemma life_reach: "reach (cap_init \<lparr>lf_tab = [(0, 71)], lf_queue = []\<rparr>) (cap_step life_net life_obj) life_state"
proof -
  let ?st = "\<lparr>lf_tab = [(0, 71)], lf_queue = []\<rparr>" and ?k = "\<lparr>lf_tab = [(5, 70), (0, 71)], lf_queue = [([1], [])]\<rparr>"
  let ?i = "cap_init ?st :: (unit, life) cap_sys"
  let ?a = "?i\<lparr>cs_kern := ?k, cs_loose := {5}\<rparr>"
  let ?c = "\<lparr>cp_heap = [2 \<mapsto> \<lparr>strong = 1, inner = ref_inner_new None 5 (Some (9, 70))\<rparr>],
      cp_refs = [(9, 70) \<mapsto> 2]\<rparr> :: unit caps"
  let ?b = "?a\<lparr>cs_caps := ?c, cs_kern := ?k, cs_loose := {}, cs_stage := (\<lambda>_. Gone)(2 := Alive)\<rparr>"
  have a: "cap_step life_net life_obj ?i ?a"
    using step_env [of ?i life_obj ?k life_net "{5}"]
    by (simp add: cap_init_def held_def owners_def ran_def life_obj_def table_obj_def)
  have "ref_from_fd life_net None 2 5 (cs_caps ?a, cs_kern ?a) = (2, (?c, ?k))"
    by (simp add: cap_init_def ref_from_fd_def life_socket_id arc_new_def)
  from step_from_fd [OF _ _ this] have b: "cap_step life_net life_obj ?a ?b"
    by (simp add: cap_init_def)
  have c: "cap_step life_net life_obj ?b life_state"
    using step_clone [of ?b 2 life_net life_obj] by (simp add: cap_init_def ref_clone_def life_state_def numeral_2_eq_2)
  have "reach ?i (cap_step life_net life_obj) ?a" by (rule reach_step [where s = ?i and stp = "cap_step life_net life_obj", OF reach_init a])
  then have "reach ?i (cap_step life_net life_obj) ?b" by (rule reach_step [where s = ?a and stp = "cap_step life_net life_obj", OF _ b])
  then show ?thesis by (rule reach_step [where s = ?b and stp = "cap_step life_net life_obj", OF _ c])
qed

definition life_handler :: "(unit, life) handler" where
  "life_handler p fs cr = (\<lambda>(s, k). (Returned p, s, close_all life_net fs k))"

lemma life_handler_facts: "hands_off 0 life_waiting life_hung life_handler" "\<not> panics_on life_handler c"
  using close_all_keeps [OF life_seqpacket_law] by (simp_all add: hands_off_def life_handler_def panics_on_def)

section \<open>Properties\<close>





end
