(* ===== verification/Ipc_Measure.thy ===== *)
theory Ipc_Measure
  imports Ipc_Bench Ipc_Send_Props
begin

text \<open>
  The client loops of \<^verbatim>\<open>examples/bench.rs\<close> (latency, throughput, the pause between phases and
  the payload ceiling), without their arithmetic on floating-point numbers. One \<^emph>\<open>turn\<close> is one iteration, with what the rest of the world does
  meanwhile and what the clock and \<^verbatim>\<open>/proc\<close> say in it.
\<close>

section \<open>The client\<close>

record ('k, 'c) bench_env =
  be_net :: "'k net"
  be_mpsc :: "('c, message) mpsc"
  be_rt :: "nat option"
  be_server :: addr
  be_reply :: addr

record ('k, 'c, 't) bench_client =
  cl_caps :: "'c ref_box caps"
  cl_kern :: 'k
  cl_replies :: bench_replies
  cl_watch :: "'t fd_watch"

text \<open>
  \<open>bt_world\<close> is what happens to the references and the kernel while the task waits for a
  reply, \<open>bt_replies\<close> the lengths of the replies that are handled by then, \<open>bt_sample\<close> the
  watchdog's sample at this time, \<open>bt_due\<close> whether the next one is due, \<open>bt_late\<close> whether
  the phase is over.
\<close>

record ('k, 'c, 't) bench_turn =
  bt_wakes :: "('c outbox \<Rightarrow> 'c outbox) list"
  bt_world :: "'c ref_box caps \<times> 'k \<Rightarrow> 'c ref_box caps \<times> 'k"
  bt_replies :: "nat list"
  bt_sample :: "'t fd_watch \<Rightarrow> bool \<times> 't fd_watch"
  bt_nanos :: u64
  bt_due :: bool
  bt_late :: bool

text \<open>A phase is done, parked at an await, or ended by a panic or by the watchdog.\<close>

datatype 'a bench_run = BenchDone 'a | BenchWaiting | BenchPanicked | BenchAborted

definition bench_ret :: "'a \<Rightarrow> 's \<Rightarrow> 'a bench_run \<times> 's" where
  "bench_ret x s = (BenchDone x, s)"

definition bench_bind ::
  "('s \<Rightarrow> 'a bench_run \<times> 's) \<Rightarrow> ('a \<Rightarrow> 's \<Rightarrow> 'b bench_run \<times> 's) \<Rightarrow> 's \<Rightarrow> 'b bench_run \<times> 's" where
  "bench_bind f g s =
     (case f s of (r, s1) \<Rightarrow>
        (case r of BenchDone x \<Rightarrow> g x s1 | BenchWaiting \<Rightarrow> (BenchWaiting, s1)
         | BenchPanicked \<Rightarrow> (BenchPanicked, s1) | BenchAborted \<Rightarrow> (BenchAborted, s1)))"

text \<open>\<^verbatim>\<open>Client::send\<close>: whether it was sent, and the count of full queues.\<close>

definition bench_send ::
  "('k, 'c) bench_env \<Rightarrow> ('k, 'c, 't) bench_turn \<Rightarrow> message \<Rightarrow> u64 \<Rightarrow> ('k, 'c, 't) bench_client \<Rightarrow>
   (bool \<times> u64) bench_run \<times> ('k, 'c, 't) bench_client" where
  "bench_send E t m backpressured cl =
     (case client_send (be_net E) (be_mpsc E) (be_rt E) (be_server E) (bt_sample t) m (bt_wakes t)
             backpressured (cl_watch cl) (cl_caps cl, cl_kern cl) of
        (out, b, w, s, k) \<Rightarrow>
          (case out of ClientSent ok \<Rightarrow> BenchDone (ok, b) | ClientWaiting \<Rightarrow> BenchWaiting
             | ClientPanicked \<Rightarrow> BenchPanicked | ClientAborted \<Rightarrow> BenchAborted,
           cl\<lparr>cl_caps := s, cl_kern := k, cl_watch := w\<rparr>))"

text \<open>Replies arrive through \<^verbatim>\<open>ReplyHandler\<close>; \<open>rx.recv()\<close> takes the first, or is parked.\<close>

definition replies_arrive :: "nat list \<Rightarrow> bench_replies \<Rightarrow> bench_replies" where
  "replies_arrive ls b =
     b\<lparr>br_received := br_received b + of_nat (length ls), br_bytes := br_bytes b + of_nat (sum_list ls),
       br_tx := br_tx b @ ls\<rparr>"

definition bench_meanwhile ::
  "('k, 'c, 't) bench_turn \<Rightarrow> ('k, 'c, 't) bench_client \<Rightarrow> ('k, 'c, 't) bench_client" where
  "bench_meanwhile t cl =
     (case bt_world t (cl_caps cl, cl_kern cl) of
        (s, k) \<Rightarrow> cl\<lparr>cl_caps := s, cl_kern := k, cl_replies := replies_arrive (bt_replies t) (cl_replies cl)\<rparr>)"

definition bench_recv ::
  "('k, 'c, 't) bench_turn \<Rightarrow> ('k, 'c, 't) bench_client \<Rightarrow> nat bench_run \<times> ('k, 'c, 't) bench_client" where
  "bench_recv t cl =
     (let cl1 = bench_meanwhile t cl
      in case br_tx (cl_replies cl1) of
           [] \<Rightarrow> (BenchWaiting, cl1)
         | n # ns \<Rightarrow> (BenchDone n, cl1\<lparr>cl_replies := (cl_replies cl1)\<lparr>br_tx := ns\<rparr>\<rparr>))"

definition bench_drain :: "('k, 'c, 't) bench_client \<Rightarrow> ('k, 'c, 't) bench_client" where
  "bench_drain cl = cl\<lparr>cl_replies := (cl_replies cl)\<lparr>br_tx := []\<rparr>\<rparr>"

definition bench_sample ::
  "('k, 'c, 't) bench_turn \<Rightarrow> ('k, 'c, 't) bench_client \<Rightarrow> unit bench_run \<times> ('k, 'c, 't) bench_client" where
  "bench_sample t cl =
     (case bt_sample t (cl_watch cl) of
        (aborts, w) \<Rightarrow> (if aborts then BenchAborted else BenchDone (), cl\<lparr>cl_watch := w\<rparr>))"

text \<open>
  \<^verbatim>\<open>Client::message\<close> with a payload of \<open>n\<close> times \<^verbatim>\<open>0x41\<close>. The clones on it are given back when
  the message is dropped, so the counts are left as they are.
\<close>

definition bench_message :: "('k, 'c) bench_env \<Rightarrow> nat \<Rightarrow> nat \<Rightarrow> message" where
  "bench_message E n with_cap =
     fst (client_message (be_reply E) (replicate n 0x41) with_cap (Map.empty :: 'c ref_heap))"

section \<open>Latency\<close>

text \<open>The warm-up does not look at what the send returned.\<close>

fun latency_warm ::
  "('k, 'c) bench_env \<Rightarrow> message \<Rightarrow> nat \<Rightarrow> ('k, 'c, 't) bench_turn list \<Rightarrow> ('k, 'c, 't) bench_client \<Rightarrow>
   unit bench_run \<times> ('k, 'c, 't) bench_client" where
  "latency_warm E m 0 ts cl = (BenchDone (), cl)"
| "latency_warm E m (Suc n) [] cl = (BenchWaiting, cl)"
| "latency_warm E m (Suc n) (t # ts) cl =
     bench_bind (bench_send E t m 0) (\<lambda>_. bench_bind (bench_recv t) (\<lambda>_ cl2. latency_warm E m n ts cl2)) cl"

fun latency_timed ::
  "('k, 'c) bench_env \<Rightarrow> message \<Rightarrow> nat \<Rightarrow> ('k, 'c, 't) bench_turn list \<Rightarrow> u64 list \<Rightarrow>
   ('k, 'c, 't) bench_client \<Rightarrow> u64 list bench_run \<times> ('k, 'c, 't) bench_client" where
  "latency_timed E m 0 ts samples cl = (BenchDone samples, cl)"
| "latency_timed E m (Suc n) [] samples cl = (BenchWaiting, cl)"
| "latency_timed E m (Suc n) (t # ts) samples cl =
     bench_bind (bench_send E t m 0) (\<lambda>(ok, _).
       if \<not> ok then bench_ret samples
       else bench_bind (bench_recv t) (\<lambda>_.
         bench_bind (if bt_due t then bench_sample t else bench_ret ()) (\<lambda>_ cl3.
           latency_timed E m n ts (samples @ [bt_nanos t]) cl3))) cl"

text \<open>The whole phase, up to the samples it hands to \<^verbatim>\<open>summarize\<close>.\<close>

definition client_latency ::
  "('k, 'c) bench_env \<Rightarrow> nat \<Rightarrow> nat \<Rightarrow> nat \<Rightarrow> ('k, 'c, 't) bench_turn list \<Rightarrow> ('k, 'c, 't) bench_turn list \<Rightarrow>
   ('k, 'c, 't) bench_client \<Rightarrow> u64 list bench_run \<times> ('k, 'c, 't) bench_client" where
  "client_latency E payload with_caps iters ws ts =
     bench_bind (latency_warm E (bench_message E payload (max with_caps 1)) (min 1000 iters) ws) (\<lambda>_ cl.
       latency_timed E (bench_message E payload with_caps) iters ts [] (cl\<lparr>cl_watch := fd_reset_peaks (cl_watch cl)\<rparr>))"

section \<open>Throughput\<close>

definition throughput_prime ::
  "('k, 'c) bench_env \<Rightarrow> message \<Rightarrow> ('k, 'c, 't) bench_turn \<Rightarrow> ('k, 'c, 't) bench_client \<Rightarrow>
   unit bench_run \<times> ('k, 'c, 't) bench_client" where
  "throughput_prime E m t =
     bench_bind (bench_send E t m 0) (\<lambda>_. bench_bind (bench_recv t) (\<lambda>_ cl.
       bench_ret () (cl\<lparr>cl_replies := \<lparr>br_tx = [], br_received = 0, br_bytes = 0\<rparr>,
         cl_watch := fd_reset_peaks (cl_watch cl)\<rparr>)))"

fun throughput_push ::
  "('k, 'c) bench_env \<Rightarrow> message \<Rightarrow> ('k, 'c, 't) bench_turn list \<Rightarrow> u64 \<Rightarrow> u64 \<Rightarrow>
   ('k, 'c, 't) bench_client \<Rightarrow> (u64 \<times> u64) bench_run \<times> ('k, 'c, 't) bench_client" where
  "throughput_push E m [] sent retries cl = (BenchWaiting, cl)"
| "throughput_push E m (t # ts) sent retries cl =
     bench_bind (bench_send E t m retries) (\<lambda>(ok, retries1) cl1.
       if \<not> ok then (BenchDone (sent, retries1), cl1)
       else if (sent + 1) mod 64 = 0 \<and> bt_late t then (BenchDone (sent + 1, retries1), bench_drain cl1)
       else bench_bind (if (sent + 1) mod 64 = 0 \<and> bt_due t then bench_sample t else bench_ret ())
              (\<lambda>_ cl2. throughput_push E m ts (sent + 1) retries1 cl2) (bench_drain cl1))
       (bench_meanwhile t cl)"

text \<open>The tail: waits of 20 ms, each ended by a reply or by its timeout, for at most two seconds.\<close>

fun throughput_tail ::
  "('k, 'c, 't) bench_turn list \<Rightarrow> u64 \<Rightarrow> ('k, 'c, 't) bench_client \<Rightarrow> unit bench_run \<times> ('k, 'c, 't) bench_client" where
  "throughput_tail [] sent cl = (if br_received (cl_replies cl) < sent then BenchWaiting else BenchDone (), cl)"
| "throughput_tail (t # ts) sent cl =
     (if br_received (cl_replies cl) < sent \<and> \<not> bt_late t
      then bench_bind (bench_sample t) (\<lambda>_ cl1. throughput_tail ts sent cl1) (snd (bench_recv t cl))
      else (BenchDone (), cl))"

text \<open>What was sent, what came back and how often the queue was full.\<close>

definition client_throughput ::
  "('k, 'c) bench_env \<Rightarrow> nat \<Rightarrow> nat \<Rightarrow> ('k, 'c, 't) bench_turn \<Rightarrow> ('k, 'c, 't) bench_turn list \<Rightarrow>
   ('k, 'c, 't) bench_turn list \<Rightarrow> ('k, 'c, 't) bench_client \<Rightarrow>
   (u64 \<times> u64 \<times> u64) bench_run \<times> ('k, 'c, 't) bench_client" where
  "client_throughput E payload with_caps t ts us =
     bench_bind (throughput_prime E (bench_message E payload (max with_caps 1)) t) (\<lambda>_.
       bench_bind (throughput_push E (bench_message E payload with_caps) ts 0 0) (\<lambda>(sent, retries).
         bench_bind (throughput_tail us sent) (\<lambda>_ cl.
           bench_ret (sent, br_received (cl_replies cl), retries) cl)))"

section \<open>Between the phases\<close>

text \<open>
  \<^verbatim>\<open>quiesce\<close>: each round waits 200 ms for a reply, \<open>ls\<close> are those that arrive by then, and takes
  what there is. The result is \<open>False\<close> while it has not returned.
\<close>

fun quiesce :: "nat list list \<Rightarrow> bench_replies \<Rightarrow> bool \<times> bench_replies" where
  "quiesce [] b = (False, b)"
| "quiesce (ls # rounds) b =
     (let b1 = replies_arrive ls b; quiet = (br_tx b1 = []); b2 = b1\<lparr>br_tx := []\<rparr>
      in if quiet \<and> br_received b2 = br_received b then (True, b2) else quiesce rounds b2)"

section \<open>The payload ceiling\<close>

text \<open>\<open>reply\<close> is what the wait of 500 ms gives: its timeout, the end of the channel, or a length.\<close>

datatype ceiling_verdict =
  CeilRefused nat | CeilFailed try_send_error | CeilIntact | CeilCut nat | CeilClosed | CeilNoReply | CeilPanicked

definition payload_ceiling ::
  "('k, 'c) bench_env \<Rightarrow> nat \<Rightarrow> nat option option \<Rightarrow> 'c ref_box caps \<times> 'k \<Rightarrow>
   ceiling_verdict \<times> 'c ref_box caps \<times> 'k" where
  "payload_ceiling E payload reply sk =
     (case cap_try_send (be_net E) (be_mpsc E) (be_rt E) (be_server E) (bench_message E payload 1) sk of
        (Panicked, sk1) \<Rightarrow> (CeilPanicked, sk1)
      | (Returned (Inl (TryTooLarge m)), sk1) \<Rightarrow> (CeilRefused (length (message_data m)), sk1)
      | (Returned (Inl e), sk1) \<Rightarrow> (CeilFailed e, sk1)
      | (Returned (Inr _), sk1) \<Rightarrow>
          (case reply of
             None \<Rightarrow> CeilNoReply
           | Some None \<Rightarrow> CeilClosed
           | Some (Some n) \<Rightarrow> if n = payload then CeilIntact else CeilCut n, sk1))"

section \<open>Lemmas\<close>

lemma add_refs_shape:
  "message_data (fst ((add_ref r ^^ c) mh)) = message_data (fst mh) \<and>
   length (message_fds (fst ((add_ref r ^^ c) mh))) = length (message_fds (fst mh)) + c"
  by (induction c) (auto simp: add_ref_def message_data_def message_fds_def split: prod.splits)

lemma bench_message_shape [simp]:
  "message_data (bench_message E n c) = replicate n 0x41" "length (message_fds (bench_message E n c)) = c"
  unfolding bench_message_def client_message_def
  by (simp_all add: add_refs_shape) (simp_all add: message_from_data_def message_data_def message_fds_def)

lemma meanwhile_replies: "cl_replies (bench_meanwhile t cl) = replies_arrive (bt_replies t) (cl_replies cl)"
  by (simp add: bench_meanwhile_def split: prod.splits)

lemma bench_bind_done:
  "bench_bind f g s = (BenchDone y, s') \<longleftrightarrow>
   (\<exists>x s1. f s = (BenchDone x, s1) \<and> g x s1 = (BenchDone y, s'))"
  by (auto simp: bench_bind_def split: prod.splits bench_run.splits)

lemma bench_bind_waiting: "fst (f s) = BenchWaiting \<Longrightarrow> fst (bench_bind f g s) = BenchWaiting"
  by (auto simp: bench_bind_def split: prod.splits)

lemma bench_ret_done [simp]: "bench_ret x s = (BenchDone y, s') \<longleftrightarrow> y = x \<and> s' = s"
  by (auto simp: bench_ret_def)

text \<open>A send counts a full queue at most once, and what arrives in the meantime is left alone.\<close>

lemma bench_send_effect:
  assumes "bench_send E t m b cl = (BenchDone (ok, b'), cl')"
  shows "(b' = b \<or> b' = b + 1) \<and> cl_replies cl' = cl_replies cl"
  using assms client_send_counts [of "be_net E" "be_mpsc E" "be_rt E" "be_server E" "bt_sample t" m "bt_wakes t" b
      "cl_watch cl" "(cl_caps cl, cl_kern cl)"]
  by (fastforce simp: bench_send_def split: prod.splits client_outcome.splits)

lemma cap_try_send_too_large:
  assumes "cp_heap s r = Some c" and "MAX_MESSAGE_SIZE < length (message_data m)"
  shows "cap_try_send N M rt r m (s, k) = (Returned (Inl (TryTooLarge m)), s, k)"
proof -
  have "(cp_heap s)(r \<mapsto> c) = cp_heap s" using assms(1) by auto
  with assms show ?thesis by (simp add: cap_try_send_def ref_try_send_def cap_store_def)
qed

lemma bench_send_too_large:
  assumes "cp_heap (cl_caps cl) (be_server E) \<noteq> None" and "MAX_MESSAGE_SIZE < length (message_data m)"
  shows "bench_send E t m b cl = (BenchDone (False, b), cl)"
  using assms by (auto simp: bench_send_def client_send_def cap_try_send_too_large)

text \<open>
  The warm-ups wait for the reply to a message that was refused, and there is none: with a
  payload above the limit neither a latency nor a throughput phase returns, whereas the timed
  loops end at once.
\<close>

lemma refused_warm_up_hangs:
  assumes "cp_heap (cl_caps cl) (be_server E) \<noteq> None" and "MAX_MESSAGE_SIZE < payload"
    and "br_tx (cl_replies cl) = []" and "\<forall>t \<in> set (u # ws). bt_replies t = []" and "iters \<noteq> 0"
  shows "fst (client_latency E payload with_caps iters (u # ws) ts cl) = BenchWaiting"
    and "fst (client_throughput E payload with_caps u ts us cl) = BenchWaiting"
proof -
  have hangs: "fst (bench_bind (bench_send E u (bench_message E payload c) 0) (\<lambda>_. bench_bind (bench_recv u) g) cl) =
      BenchWaiting" for c and g :: "nat \<Rightarrow> _ \<Rightarrow> unit bench_run \<times> _"
    using assms
    by (simp add: bench_bind_def bench_send_too_large bench_recv_def Let_def meanwhile_replies replies_arrive_def)
  obtain n where n: "min 1000 iters = Suc n" using assms(5) by (cases "min 1000 iters") auto
  show "fst (client_latency E payload with_caps iters (u # ws) ts cl) = BenchWaiting"
    unfolding client_latency_def n by (rule bench_bind_waiting) (simp add: hangs)
  show "fst (client_throughput E payload with_caps u ts us cl) = BenchWaiting"
    unfolding client_throughput_def throughput_prime_def by (intro bench_bind_waiting hangs)
qed

text \<open>
  \<^verbatim>\<open>quiesce\<close> returns with the first round of silence, in which nothing was left to read
  either, and leaves nothing to read. Its second test, of \<^verbatim>\<open>received\<close>, never decides.
\<close>

lemma quiesce_waits_for_silence:
  "fst (quiesce rounds b) \<longleftrightarrow> (\<exists>i < length rounds. rounds ! i = [] \<and> (i = 0 \<longrightarrow> br_tx b = []))"
proof (induction rounds arbitrary: b)
  case (Cons ls rounds)
  have "fst (quiesce (ls # rounds) b) \<longleftrightarrow> ls = [] \<and> br_tx b = [] \<or> (\<exists>i < length rounds. rounds ! i = [])"
    using Cons.IH by (auto simp: Let_def replies_arrive_def)
  then show ?case by (auto simp: less_Suc_eq_0_disj)
qed simp

lemma quiesce_leaves_nothing: "fst (quiesce rounds b) \<Longrightarrow> br_tx (snd (quiesce rounds b)) = []"
  by (induction rounds arbitrary: b) (auto simp: Let_def split: if_splits)

text \<open>
  The payload ceiling reports exactly the payloads above the limit as refused, each handed
  back whole, and such a refusal changes nothing.
\<close>

lemma ceiling_is_exact:
  assumes "mpsc_law (be_mpsc E) V" and "cp_heap s (be_server E) \<noteq> None"
    and "payload_ceiling E payload reply (s, k) = (v, s', k')"
  shows "v = CeilRefused n \<longleftrightarrow> MAX_MESSAGE_SIZE < payload \<and> n = payload"
    and "MAX_MESSAGE_SIZE < payload \<Longrightarrow> s' = s \<and> k' = k"
proof -
  let ?m = "bench_message E payload 1"
  obtain c where c: "cp_heap s (be_server E) = Some c" using assms(2) by blast
  have "v = CeilRefused n \<longleftrightarrow> n = payload" "s' = s \<and> k' = k" if "MAX_MESSAGE_SIZE < payload"
    using assms(3) that by (auto simp: payload_ceiling_def cap_try_send_too_large [OF c])
  moreover have "v \<noteq> CeilRefused n" if "\<not> MAX_MESSAGE_SIZE < payload"
  proof
    assume "v = CeilRefused n"
    with assms(3) obtain m sk where "cap_try_send (be_net E) (be_mpsc E) (be_rt E) (be_server E) ?m (s, k) =
        (Returned (Inl (TryTooLarge m)), sk)"
      by (auto simp: payload_ceiling_def split: prod.splits outcome.splits sum.splits try_send_error.splits option.splits if_splits)
    then obtain sh where "ref_try_send (cap_env (be_net E) (be_mpsc E) (be_rt E) s (inner c)) ?m
        \<lparr>sh_kern = k, sh_outbox = ri_outbox (inner c)\<rparr> = (Returned (Inl (TryTooLarge m)), sh)"
      using c by (auto simp: cap_try_send_def split: prod.splits)
    from try_send_error_message [OF _ this, of V] assms(1) that show False by (simp add: cap_env_def)
  qed
  ultimately show "v = CeilRefused n \<longleftrightarrow> MAX_MESSAGE_SIZE < payload \<and> n = payload"
    "MAX_MESSAGE_SIZE < payload \<Longrightarrow> s' = s \<and> k' = k" by blast+
qed

section \<open>The account of a throughput phase\<close>

definition replies_in :: "('k, 'c, 't) bench_turn list \<Rightarrow> nat" where
  "replies_in ts = (\<Sum>t \<leftarrow> ts. length (bt_replies t))"

lemma replies_in_Cons [simp]: "replies_in (t # ts) = length (bt_replies t) + replies_in ts" "replies_in [] = 0"
  by (simp_all add: replies_in_def)

definition received_more :: "nat \<Rightarrow> ('k, 'c, 't) bench_client \<Rightarrow> ('k, 'c, 't) bench_client \<Rightarrow> bool" where
  "received_more n cl cl' \<longleftrightarrow> (\<exists>i \<le> n. br_received (cl_replies cl') = br_received (cl_replies cl) + of_nat i)"

lemma received_more_trans:
  "received_more m cl cl1 \<Longrightarrow> received_more n cl1 cl2 \<Longrightarrow> received_more (m + n) cl cl2"
  unfolding received_more_def
  by (elim exE conjE, rule_tac x = "i + ia" in exI) (simp add: add.assoc)

lemma received_more_same:
  "br_received (cl_replies cl') = br_received (cl_replies cl) \<Longrightarrow> received_more n cl cl'"
  unfolding received_more_def by (intro exI [of _ 0]) simp

lemma meanwhile_more: "received_more (length (bt_replies t)) cl (bench_meanwhile t cl)"
  unfolding received_more_def
  by (intro exI [of _ "length (bt_replies t)"]) (simp add: meanwhile_replies replies_arrive_def)

lemma bench_recv_more: "received_more (length (bt_replies t)) cl (snd (bench_recv t cl))"
  using meanwhile_more [of t cl] by (simp add: bench_recv_def received_more_def Let_def split: list.splits)

lemma bench_sample_replies: "bench_sample t cl = (r, cl') \<Longrightarrow> cl_replies cl' = cl_replies cl"
  by (auto simp: bench_sample_def split: prod.splits)

lemma throughput_tail_counts:
  "throughput_tail us sent cl = (BenchDone (), cl') \<Longrightarrow>
   received_more (replies_in us) cl cl' \<and>
   (br_received (cl_replies cl') < sent \<longrightarrow> (\<exists>u \<in> set us. bt_late u))"
proof (induction us arbitrary: cl)
  case (Cons t us)
  show ?case
  proof (cases "br_received (cl_replies cl) < sent \<and> \<not> bt_late t")
    case True
    then obtain cl1 where cl1: "bench_sample t (snd (bench_recv t cl)) = (BenchDone (), cl1)"
      "throughput_tail us sent cl1 = (BenchDone (), cl')" using Cons.prems by (auto simp: bench_bind_done)
    have "received_more (length (bt_replies t)) cl cl1"
      using bench_recv_more [of t cl] bench_sample_replies [OF cl1(1)] by (simp add: received_more_def)
    with Cons.IH [OF cl1(2)] show ?thesis by (auto intro: received_more_trans)
  next
    case False
    with Cons.prems show ?thesis by (auto intro: received_more_same)
  qed
qed (auto split: if_splits intro: received_more_same)

lemma throughput_push_counts:
  "throughput_push E m ts sent retries cl = (BenchDone (sent', retries'), cl') \<Longrightarrow>
   unat sent + length ts + 1 < 2 ^ 64 \<Longrightarrow> unat retries \<le> unat sent \<Longrightarrow>
   unat sent' \<le> unat sent + length ts \<and> unat retries' \<le> Suc (unat sent') \<and> received_more (replies_in ts) cl cl'"
proof (induction ts arbitrary: sent retries cl)
  case (Cons t ts)
  from Cons.prems(1) obtain ok retries1 cl1
    where send: "bench_send E t m retries (bench_meanwhile t cl) = (BenchDone (ok, retries1), cl1)"
    by (auto simp: bench_bind_done)
  note eff = bench_send_effect [OF send]
  have arrived: "received_more (length (bt_replies t)) cl cl1"
    using eff meanwhile_more [of t cl] by (simp add: received_more_def)
  have suc: "unat (x + 1) = Suc (unat x)" if "Suc (unat x) < 2 ^ 64" for x :: u64
    using that by (simp add: unat_word_ariths)
  have retries1: "unat retries1 \<le> Suc (unat retries)" using eff suc [of retries] Cons.prems(2,3) by auto
  have drain: "br_received (cl_replies (bench_drain cl1)) = br_received (cl_replies cl1)" by (simp add: bench_drain_def)
  have sampled: "br_received (cl_replies x) = br_received (cl_replies cl1)"
    if "(if b then bench_sample t else bench_ret ()) (bench_drain cl1) = (BenchDone u, x)" for b u x
    using bench_sample_replies [of t "bench_drain cl1" "BenchDone u" x] that drain by (cases b) auto
  have go: "throughput_push E m (t # ts) sent retries cl =
      (if \<not> ok then (BenchDone (sent, retries1), cl1)
       else if (sent + 1) mod 64 = 0 \<and> bt_late t then (BenchDone (sent + 1, retries1), bench_drain cl1)
       else bench_bind (if (sent + 1) mod 64 = 0 \<and> bt_due t then bench_sample t else bench_ret ())
              (\<lambda>_ cl2. throughput_push E m ts (sent + 1) retries1 cl2) (bench_drain cl1))"
    using send by (simp add: bench_bind_def)
  consider (stop) "sent' = sent \<or> sent' = sent + 1" "br_received (cl_replies cl') = br_received (cl_replies cl1)"
      "retries' = retries1"
    | (on) cl2 where "throughput_push E m ts (sent + 1) retries1 cl2 = (BenchDone (sent', retries'), cl')"
      "br_received (cl_replies cl2) = br_received (cl_replies cl1)"
  proof -
    let ?over = "(sent + 1) mod 64 = 0 \<and> bt_late t"
    let ?smp = "if (sent + 1) mod 64 = 0 \<and> bt_due t then bench_sample t else bench_ret ()"
    note run = Cons.prems(1) [unfolded go]
    show thesis
    proof (cases "\<not> ok \<or> ?over")
      case True
      with run drain show thesis by (intro stop) (auto split: if_splits)
    next
      case False
      then have ok: "ok" and more: "\<not> ?over" by (simp_all only: de_Morgan_disj not_not simp_thms)
      from run have "bench_bind ?smp (\<lambda>_ cl2. throughput_push E m ts (sent + 1) retries1 cl2) (bench_drain cl1) =
          (BenchDone (sent', retries'), cl')"
        by (simp only: ok more not_True_eq_False if_False)
      then obtain u cl2 where "?smp (bench_drain cl1) = (BenchDone u, cl2)"
        "throughput_push E m ts (sent + 1) retries1 cl2 = (BenchDone (sent', retries'), cl')"
        unfolding bench_bind_done by blast
      then show thesis by (intro on sampled)
    qed
  qed
  then show ?case
  proof cases
    case stop
    have "received_more (length (bt_replies t) + replies_in ts) cl cl'"
      using stop(2) by (intro received_more_trans [OF arrived] received_more_same)
    with stop suc [of sent] Cons.prems(2,3) retries1 show ?thesis by auto
  next
    case on
    have "received_more (length (bt_replies t)) cl cl2" using arrived on(2) by (simp add: received_more_def)
    with Cons.IH [OF on(1)] Cons.prems(2,3) retries1 suc [of sent] show ?thesis
      by (auto intro: received_more_trans)
  qed
qed simp

lemma throughput_prime_resets:
  "throughput_prime E m t cl = (BenchDone (), cl1) \<Longrightarrow> br_received (cl_replies cl1) = 0"
  by (auto simp: throughput_prime_def bench_bind_done)

text \<open>A throughput row adds up. The messages counted as sent are at most the turns of the
  loop; a full queue is counted at most once per message and once for the one that ended the
  loop; what is counted as returned did arrive after the warm-up; and if that is less than
  was sent, it is because the two seconds for the tail were over. (Counters of 64 bits do not
  wrap in a phase of fewer than 2^64 - 1 turns.)\<close>

theorem throughput_adds_up:
  assumes "client_throughput E payload with_caps t ts us cl = (BenchDone (sent, received, retries), cl')"
    and "length ts + 1 < 2 ^ 64"
  shows "unat sent \<le> length ts \<and> unat retries \<le> unat sent + 1 \<and>
    unat received \<le> (\<Sum>u \<leftarrow> ts @ us. length (bt_replies u)) \<and>
    (received < sent \<longrightarrow> (\<exists>u \<in> set us. bt_late u))"
proof -
  obtain cl1 cl2 where prime: "throughput_prime E (bench_message E payload (max with_caps 1)) t cl = (BenchDone (), cl1)"
    and push: "throughput_push E (bench_message E payload with_caps) ts 0 0 cl1 = (BenchDone (sent, retries), cl2)"
    and tail: "throughput_tail us sent cl2 = (BenchDone (), cl')" and received: "received = br_received (cl_replies cl')"
    using assms(1) unfolding client_throughput_def by (auto simp: bench_bind_done)
  note P = throughput_push_counts [OF push] and T = throughput_tail_counts [OF tail]
  have p: "unat sent \<le> length ts" "unat retries \<le> Suc (unat sent)" "received_more (replies_in ts) cl1 cl2"
    using P assms(2) by simp_all
  have "received_more (replies_in ts + replies_in us) cl1 cl'"
    using T by (blast intro: received_more_trans [OF p(3)])
  then obtain i where "i \<le> replies_in ts + replies_in us" "received = of_nat i"
    unfolding received_more_def received throughput_prime_resets [OF prime] by auto
  moreover have "unat (of_nat i :: u64) \<le> i" for i by (simp add: unat_of_nat)
  ultimately show ?thesis using p T received by (auto simp: replies_in_def intro: le_trans)
qed

text \<open>A phase whose server goes away after the first message, with the echo still to come.\<close>

definition lone_env :: "(skern, message schan) bench_env" where
  "lone_env = \<lparr>be_net = sample_net, be_mpsc = sample_mpsc, be_rt = None, be_server = 2, be_reply = 4\<rparr>"

definition lone_client :: "(skern, message schan, nat) bench_client" where
  "lone_client =
     \<lparr>cl_caps = \<lparr>cp_heap = [2 \<mapsto> \<lparr>strong = 1, inner = ref_inner_new None 3 None\<rparr>], cp_refs = Map.empty\<rparr>,
      cl_kern = sample_kernel, cl_replies = \<lparr>br_tx = [], br_received = 0, br_bytes = 0\<rparr>,
      cl_watch = \<lparr>fw_threshold = 100, fw_peak_self = 0, fw_peak_child = 0, fw_tripped = False, fw_timeline = None\<rparr>\<rparr>"

definition lone_turn :: "bool \<Rightarrow> nat list \<Rightarrow> (skern, message schan, nat) bench_turn" where
  "lone_turn gone ls =
     \<lparr>bt_wakes = [], bt_world = (\<lambda>(s, k). (s, k\<lparr>sk_gone := gone\<rparr>)), bt_replies = ls,
      bt_sample = (\<lambda>w. (False, w)), bt_nanos = 0, bt_due = False, bt_late = False\<rparr>"

lemma lone_run:
  "fst (client_throughput lone_env 8 0 (lone_turn False [8]) [lone_turn False [], lone_turn True []]
     [lone_turn True [8]] lone_client) = BenchDone (1, 1, 0)"
  by (simp add: client_throughput_def throughput_prime_def bench_bind_def bench_send_def client_send_def lone_env_def
      lone_turn_def lone_client_def cap_try_send_def ref_try_send_def bench_ret_def bench_recv_def bench_meanwhile_def
      bench_message_def client_message_def message_defs ref_clone_def MAX_MESSAGE_SIZE_def MAX_FDS_def cap_env_def
      ref_inner_new_def ref_backed_up_def cap_store_def env_send_now_def send_now_def sample_defs io_defs
      replies_arrive_def bench_drain_def fd_reset_peaks_def flags_for_send_def EXPECTED_FDS_def
      EXPECTED_ANCILLARY_BUFFER_SIZE_def bench_sample_def Let_def)

theorem throughput_adds_up_witness:
  "\<exists>cl. client_throughput lone_env 8 0 (lone_turn False [8]) [lone_turn False [], lone_turn True []]
     [lone_turn True [8]] lone_client = (BenchDone (1, 1, 0), cl) \<and>
     unat (1 :: u64) \<le> length [lone_turn False [], lone_turn True []] \<and> unat (0 :: u64) \<le> unat (1 :: u64) + 1"
proof -
  obtain cl where run: "client_throughput lone_env 8 0 (lone_turn False [8]) [lone_turn False [], lone_turn True []]
     [lone_turn True [8]] lone_client = (BenchDone (1, 1, 0), cl)" using lone_run by (metis prod.collapse)
  from throughput_adds_up [OF run] run show ?thesis by auto
qed

end
