(* ===== verification/Ipc_Fdcost.thy ===== *)
theory Ipc_Fdcost
  imports Ipc_Measure
begin

text \<open>
  The timed rungs of \<^verbatim>\<open>examples/fdcost.rs\<close>: the blocking exchange, and the exchange through the
  library with and without promotion; and the echo over a bare socket that \<^verbatim>\<open>bench.rs\<close> and
  \<^verbatim>\<open>paced.rs\<close> measure against.
\<close>

section \<open>The raw rung\<close>

text \<open>
  The parent of the raw rung: \<open>worlds\<close> is what the child and the kernel do in each exchange.
  Exchanges of the warm-up are not looked at; a failed timed one is a panic. The descriptors
  are counted where they are sent.
\<close>

fun raw_warm ::
  "'k raw_net \<Rightarrow> fd \<Rightarrow> u8 list \<Rightarrow> fd option \<Rightarrow> ('k \<Rightarrow> 'k) list \<Rightarrow> u8 list \<Rightarrow> 'k \<Rightarrow> u8 list \<times> 'k" where
  "raw_warm R sock data send_fd [] buf k = (buf, k)"
| "raw_warm R sock data send_fd (w # ws) buf k =
     (case xchg R sock data buf send_fd 0 (w k) of (n, buf1, _, k1) \<Rightarrow> raw_warm R sock data send_fd ws buf1 k1)"

fun raw_timed ::
  "'k raw_net \<Rightarrow> fd \<Rightarrow> u8 list \<Rightarrow> fd option \<Rightarrow> (('k \<Rightarrow> 'k) \<times> u64) list \<Rightarrow> u8 list \<Rightarrow> u64 list \<Rightarrow> nat \<Rightarrow> 'k \<Rightarrow>
   (u64 list \<times> nat) outcome \<times> 'k" where
  "raw_timed R sock data send_fd [] buf samples sent_fds k = (Returned (samples, sent_fds), k)"
| "raw_timed R sock data send_fd ((w, ns) # ws) buf samples sent_fds k =
     (case xchg R sock data buf send_fd 0 (w k) of
        (n, buf1, _, k1) \<Rightarrow>
          (if n \<le> 0 then (Panicked, k1)
           else raw_timed R sock data send_fd ws buf1 (samples @ [ns])
                  (if send_fd \<noteq> None then Suc sent_fds else sent_fds) k1))"

definition WARMUP :: nat where "WARMUP = 5000"
definition ITERS :: nat where "ITERS = 50000"

definition rung_raw_parent ::
  "'k raw_net \<Rightarrow> fd \<Rightarrow> fd option \<Rightarrow> nat \<Rightarrow> (nat \<Rightarrow> 'k \<Rightarrow> 'k) \<Rightarrow> (nat \<Rightarrow> ('k \<Rightarrow> 'k) \<times> u64) \<Rightarrow> 'k \<Rightarrow>
   (u64 list \<times> nat) outcome \<times> 'k" where
  "rung_raw_parent R sock send_fd payload warm timed k =
     (let data = replicate payload 0x41
      in case raw_warm R sock data send_fd (map warm [0 ..< WARMUP]) (replicate 65536 0) k of
           (buf, k1) \<Rightarrow> raw_timed R sock data send_fd (map timed [0 ..< ITERS]) buf [] 0 k1)"


section \<open>The rungs through the library\<close>

text \<open>
  The payload with its opcode, at least one byte, and the message with or without the reply
  capability. A refused send is a panic (\<^verbatim>\<open>expect\<close>).
\<close>

definition rung_data :: "u8 \<Rightarrow> nat \<Rightarrow> u8 list" where
  "rung_data opcode payload = (replicate (max payload 1) 0x41)[0 := opcode]"

definition rung_message :: "('k, 'c) bench_env \<Rightarrow> u8 \<Rightarrow> nat \<Rightarrow> bool \<Rightarrow> message" where
  "rung_message E opcode payload attach_fd =
     (let m = message_from_data (rung_data opcode payload)
      in if attach_fd then fst (add_ref (be_reply E) (m, Map.empty :: 'c ref_heap)) else m)"

definition rung_send ::
  "('k, 'c) bench_env \<Rightarrow> ('k, 'c, 't) bench_turn \<Rightarrow> message \<Rightarrow> ('k, 'c, 't) bench_client \<Rightarrow>
   unit bench_run \<times> ('k, 'c, 't) bench_client" where
  "rung_send E t m cl =
     (case cap_send (be_net E) (be_mpsc E) (be_rt E) (be_server E) m (bt_wakes t) (cl_caps cl, cl_kern cl) of
        (out, s, k) \<Rightarrow>
          (case out of None \<Rightarrow> BenchWaiting | Some (Returned (Inr _)) \<Rightarrow> BenchDone () | Some _ \<Rightarrow> BenchPanicked,
           cl\<lparr>cl_caps := s, cl_kern := k\<rparr>))"

definition rung_once ::
  "('k, 'c) bench_env \<Rightarrow> ('k, 'c, 't) bench_turn \<Rightarrow> message \<Rightarrow> ('k, 'c, 't) bench_client \<Rightarrow>
   nat bench_run \<times> ('k, 'c, 't) bench_client" where
  "rung_once E t m = bench_bind (rung_send E t m) (\<lambda>_. bench_recv t)"

fun rung_turns ::
  "('k, 'c) bench_env \<Rightarrow> message \<Rightarrow> nat \<Rightarrow> ('k, 'c, 't) bench_turn list \<Rightarrow> u64 list \<Rightarrow> ('k, 'c, 't) bench_client \<Rightarrow>
   u64 list bench_run \<times> ('k, 'c, 't) bench_client" where
  "rung_turns E m 0 ts samples cl = (BenchDone samples, cl)"
| "rung_turns E m (Suc n) [] samples cl = (BenchWaiting, cl)"
| "rung_turns E m (Suc n) (t # ts) samples cl =
     bench_bind (rung_once E t m) (\<lambda>_ cl1. rung_turns E m n ts (samples @ [bt_nanos t]) cl1) cl"

text \<open>The warm-up is the same loop, with its samples thrown away.\<close>

definition rung_strong_ipc ::
  "('k, 'c) bench_env \<Rightarrow> nat \<Rightarrow> u8 \<Rightarrow> bool \<Rightarrow> ('k, 'c, 't) bench_turn list \<Rightarrow> ('k, 'c, 't) bench_turn list \<Rightarrow>
   ('k, 'c, 't) bench_client \<Rightarrow> u64 list bench_run \<times> ('k, 'c, 't) bench_client" where
  "rung_strong_ipc E payload opcode attach_fd ws ts =
     bench_bind (rung_turns E (rung_message E opcode payload attach_fd) WARMUP ws [])
       (\<lambda>_. rung_turns E (rung_message E opcode payload attach_fd) ITERS ts [])"

section \<open>Reaching the server\<close>

text \<open>
  Both connections of the client, the node's and the raw one, against one deadline; a failed
  attempt that is not late is followed by a sleep. For each attempt the result and the clock.
\<close>

fun connect_until :: "nat \<Rightarrow> ('r option \<times> nat) list \<Rightarrow> ('r outcome \<times> ('r option \<times> nat) list) option" where
  "connect_until deadline [] = None"
| "connect_until deadline ((r, now) # xs) =
     (case r of Some x \<Rightarrow> Some (Returned x, xs)
      | None \<Rightarrow> if deadline \<le> now then Some (Panicked, xs) else connect_until deadline xs)"

section \<open>The echo over a bare socket\<close>

text \<open>
  A connection of the raw listener: \<open>recv\<close> fills at most the buffer, \<open>send\<close> sends one
  datagram. The loop ends at an error and at an empty datagram; what it has sent is
  returned, and whether it has ended.
\<close>

record 'k raw_socket =
  rk_recv :: "nat \<Rightarrow> (u8 list, 'k) io"
  rk_send :: "u8 list \<Rightarrow> (unit, 'k) io"

definition raw_path :: "string \<Rightarrow> string" where
  "raw_path p = p @ ''.raw''"

fun raw_echo :: "'k raw_socket \<Rightarrow> nat \<Rightarrow> u8 list \<Rightarrow> 'k \<Rightarrow> u8 list list \<times> bool \<times> 'k" where
  "raw_echo S 0 buf k = ([], False, k)"
| "raw_echo S (Suc n) buf k =
     (case rk_recv S (length buf) k of
        (Inl _, k1) \<Rightarrow> ([], True, k1)
      | (Inr data, k1) \<Rightarrow>
          (let buf1 = overwrite data buf
           in if length data = 0 then ([], True, k1)
              else (case rk_send S (take (length data) buf1) k1 of
                      (Inl _, k2) \<Rightarrow> ([], True, k2)
                    | (Inr _, k2) \<Rightarrow>
                        (case raw_echo S n buf1 k2 of (out, ended, k3) \<Rightarrow> (take (length data) buf1 # out, ended, k3)))))"

section \<open>Lemmas\<close>

text \<open>
  The raw rung counts the descriptors it sent, not those that arrived: whatever the kernel did
  with them, a rung that returns has the number its caller asserts.
\<close>

lemma raw_timed_counts:
  "raw_timed R sock data send_fd ws buf samples n k = (Returned (samples', n'), k') \<Longrightarrow>
   samples' = samples @ map snd ws \<and> n' = (if send_fd = None then n else n + length ws)"
  by (induction R sock data send_fd ws buf samples n k rule: raw_timed.induct)
    (auto split: prod.splits if_splits)

lemma raw_count_proves_nothing:
  assumes "rung_raw_parent R sock send_fd payload warm timed k = (Returned (samples, n), k')"
  shows "length samples = ITERS \<and> n = (if send_fd = None then 0 else ITERS)"
  using assms raw_timed_counts [of R sock _ send_fd "map timed [0 ..< ITERS]" _ "[]" 0]
  by (fastforce simp: rung_raw_parent_def Let_def split: prod.splits)


text \<open>A rung through the library that returns has one sample per timed turn, as its caller divides by.\<close>

lemma rung_turns_samples:
  "rung_turns E m n ts samples cl = (BenchDone r, cl') \<Longrightarrow> n \<le> length ts \<and> r = samples @ map bt_nanos (take n ts)"
  by (induction E m n ts samples cl rule: rung_turns.induct) (auto simp: bench_bind_done)

lemma rung_strong_ipc_samples:
  "rung_strong_ipc E payload opcode attach_fd ws ts cl = (BenchDone r, cl') \<Longrightarrow>
   length r = ITERS \<and> r = map bt_nanos (take ITERS ts)"
  by (auto simp: rung_strong_ipc_def bench_bind_done dest!: rung_turns_samples)

text \<open>
  Two rungs of one payload differ in the first byte alone, and what the server does for it in
  whether it promotes: each message counts its descriptors as seen, and one as built for an
  opcode that promotes if there is one.
\<close>

lemma rung_data_shape:
  "rung_data opcode payload = opcode # replicate (payload - 1) 0x41"
  by (cases payload) (auto simp: rung_data_def max_def)

lemma rungs_differ_in_promotion:
  assumes "opcode \<noteq> 81"
    and "fdcost_handle N M rt new (rung_data opcode payload) fds ws (f, s, k) = (out, f', s', k')"
  shows "fc_fds_seen f' = fc_fds_seen f + of_nat (length fds) \<and>
    fc_refs_built f' = fc_refs_built f +
      (if (opcode = OP_ESTABLISH \<or> opcode = OP_MAKE_REF) \<and> fds \<noteq> [] then 1 else 0)"
  using assms
  by (auto simp: fdcost_handle_def rung_data_shape QUIT_def Let_def
      split: list.splits prod.splits if_splits option.splits server_outcome.splits)

text \<open>Both connections are tried until the deadline of the first: with a failed attempt every
  20 ms at least, both have ended after 251 attempts.\<close>

lemma connect_until_ends:
  "i < length xs \<Longrightarrow> deadline \<le> snd (xs ! i) \<Longrightarrow> connect_until deadline xs \<noteq> None"
proof (induction xs arbitrary: i)
  case (Cons x xs)
  then show ?case by (cases x; cases i) (auto split: option.splits)
qed simp

text \<open>
  The echo sends back what it received, datagram by datagram and nothing of earlier ones, as
  long as each fits the buffer; here over a socket that is a list of what arrives and of what was
  sent, and then ends.
\<close>

definition raw_script :: "(u8 list list \<times> u8 list list) raw_socket" where
  "raw_script =
     \<lparr>rk_recv = (\<lambda>n (q, out). case q of [] \<Rightarrow> (Inr [], (q, out)) | d # ds \<Rightarrow> (Inr (take n d), (ds, out))),
      rk_send = (\<lambda>d (q, out). (Inr (), (q, out @ [d])))\<rparr>"

lemma raw_echo_echoes:
  "\<forall>d \<in> set q. d \<noteq> [] \<and> length d \<le> length buf \<Longrightarrow> length q < n \<Longrightarrow>
   raw_echo raw_script n buf (q, out) = (q, True, ([], out @ q))"
proof (induction q arbitrary: n buf out)
  case Nil
  then show ?case by (cases n) (simp_all add: raw_script_def)
next
  case (Cons d q)
  then obtain m where n: "n = Suc m" "length q < m" by (cases n) auto
  have echo: "take (length d) (overwrite d buf) = d" "length (overwrite d buf) = length buf"
    using Cons.prems(1) by (simp_all add: overwrite_def)
  from Cons.IH [of "overwrite d buf" m "out @ [d]"] Cons.prems(1) n(2) echo
  have "raw_echo raw_script m (overwrite d buf) (q, out @ [d]) = (q, True, ([], out @ d # q))" by simp
  with Cons.prems(1) echo show ?case unfolding n(1) by (simp add: raw_script_def Let_def)
qed

end
