(* ===== verification/Ipc_Cli.thy ===== *)
theory Ipc_Cli
  imports Ipc_Proc Ipc_Paced Ipc_Timeline
begin

text \<open>
  The command lines of \<^verbatim>\<open>examples/paced.rs\<close> and \<^verbatim>\<open>examples/timeline.rs\<close>, and the samples they
  write with \<^verbatim>\<open>--dump\<close>. Numbers with a point are an abstract type with its own parser.
\<close>

section \<open>Arguments\<close>

text \<open>The position of the first occurrence; the value is the argument after it.\<close>

fun arg_after :: "string \<Rightarrow> string list \<Rightarrow> string option" where
  "arg_after name [] = None"
| "arg_after name (a # as) =
     (if a = name then (case as of [] \<Rightarrow> None | v # _ \<Rightarrow> Some v) else arg_after name as)"

definition cli_arg :: "(string \<Rightarrow> 'a option) \<Rightarrow> string list \<Rightarrow> string \<Rightarrow> 'a \<Rightarrow> 'a" where
  "cli_arg parse args name dflt =
     (case Option.bind (arg_after name args) parse of None \<Rightarrow> dflt | Some x \<Rightarrow> x)"

definition cli_flag :: "string list \<Rightarrow> string \<Rightarrow> bool" where
  "cli_flag args name = list_ex (\<lambda>a. a = name) args"

text \<open>
  What \<^verbatim>\<open>main\<close> goes on to do. The path of the server is taken by index, which panics behind
  the end.
\<close>

datatype cli_mode = CliHelp | CliServer string | CliParent | CliPanic

definition server_mode :: "string list \<Rightarrow> cli_mode" where
  "server_mode args =
     (if cli_flag args ''--server''
      then (case arg_after ''--server'' args of None \<Rightarrow> CliPanic | Some p \<Rightarrow> CliServer p)
      else CliParent)"

definition paced_main :: "string list \<Rightarrow> cli_mode" where
  "paced_main args =
     (if cli_flag args ''--help'' \<or> cli_flag args ''-h'' then CliHelp else server_mode args)"

text \<open>With the number of worker threads of the runtime, where 0 and 1 are the current thread alone.\<close>

definition timeline_main :: "string list \<Rightarrow> u64 \<times> cli_mode" where
  "timeline_main args = (cli_arg parse_u64 args ''--threads'' 1, server_mode args)"

definition timeline_child :: "string \<Rightarrow> string \<Rightarrow> u64 \<Rightarrow> string list" where
  "timeline_child exe path threads = [exe, ''--server'', path, ''--threads'', show_nat (unat threads)]"

definition MAX_PAYLOAD :: u64 where
  "MAX_PAYLOAD = 8192"

definition clamp :: "u64 \<Rightarrow> u64 \<Rightarrow> u64 \<Rightarrow> u64" where
  "clamp lo hi x = (if x < lo then lo else if hi < x then hi else x)"

record 'f paced_config =
  cfg_hz :: 'f
  cfg_burst :: u64
  cfg_payload :: u64
  cfg_caps :: u64
  cfg_secs :: 'f
  cfg_sequential :: bool
  cfg_busy_wait :: bool
  cfg_raw :: bool

definition paced_configure :: "(string \<Rightarrow> 'f option) \<Rightarrow> 'f \<Rightarrow> 'f \<Rightarrow> string list \<Rightarrow> 'f paced_config" where
  "paced_configure parse_f64 f144 f10 args =
     \<lparr>cfg_hz = cli_arg parse_f64 args ''--hz'' f144,
      cfg_burst = cli_arg parse_u64 args ''--burst'' 5,
      cfg_payload = clamp (of_nat SEQ_BYTES) MAX_PAYLOAD (cli_arg parse_u64 args ''--payload'' 64),
      cfg_caps = cli_arg parse_u64 args ''--caps'' 1,
      cfg_secs = cli_arg parse_f64 args ''--secs'' f10,
      cfg_sequential = cli_flag args ''--sequential'',
      cfg_busy_wait = cli_flag args ''--busy-wait'',
      cfg_raw = cli_flag args ''--raw''\<rparr>"

section \<open>Dumps\<close>

definition nl :: char where
  "nl = CHR 0x0A"

definition push_sample :: "string \<Rightarrow> u64 \<Rightarrow> string \<Rightarrow> string" where
  "push_sample kind ns out = out @ kind @ '','' @ show_nat (unat ns) @ [nl]"

definition paced_dump :: "u64 list \<Rightarrow> u64 list \<Rightarrow> u64 list \<Rightarrow> string" where
  "paced_dump msg burst wake =
     fold (\<lambda>(kind, samples). fold (push_sample kind) samples)
       [(''msg'', msg), (''burst'', burst), (''wake'', wake)] (''kind,ns'' @ [nl])"

definition timeline_row :: "timeline_log \<Rightarrow> nat \<Rightarrow> string" where
  "timeline_row l i =
     show_nat (unat (tl_seqs l ! i)) @ '','' @ show_nat (unat (tl_a l ! i)) @ '','' @ show_nat (unat (tl_b l ! i)) @ '','' @
     show_nat (unat (tl_c l ! i)) @ '','' @ show_nat (unat (tl_d l ! i)) @ '','' @ show_nat (unat (tl_total l ! i)) @ [nl]"

definition timeline_dump :: "timeline_log \<Rightarrow> string" where
  "timeline_dump l =
     fold (\<lambda>i out. out @ timeline_row l i) [0 ..< length (tl_total l)] (''seq,a_ns,b_ns,c_ns,d_ns,total_ns'' @ [nl])"

section \<open>Lemmas\<close>

lemma nl_code: "of_char c = (10 :: nat) \<longleftrightarrow> c = nl"
proof -
  have "of_char nl = (10 :: nat)" by (simp add: nl_def)
  then show ?thesis by (metis of_char_eq_iff)
qed

lemma parse_shown [simp]: "parse_u64 (show_nat (unat n)) = Some n"
  using parse_show [of "unat n"] unsigned_less [of n, where 'a = nat] by simp

lemma child_gets_the_threads:
  assumes "exe \<noteq> ''--threads''" and "exe \<noteq> ''--server''" and "path \<noteq> ''--threads''"
  shows "timeline_main (timeline_child exe path threads) = (threads, CliServer path)"
  using assms
  by (auto simp: timeline_main_def timeline_child_def server_mode_def cli_flag_def cli_arg_def)

lemma server_without_a_path_panics: "''--server'' \<notin> set args \<Longrightarrow> server_mode (args @ [''--server'']) = CliPanic"
proof -
  assume "''--server'' \<notin> set args"
  then have "arg_after ''--server'' (args @ [''--server'']) = None" by (induction args) auto
  then show ?thesis by (simp add: server_mode_def cli_flag_def)
qed

text \<open>How the dumps are read: lines, and fields between commas.\<close>

definition read_csv :: "string \<Rightarrow> string list list" where
  "read_csv s = map (split_on (\<lambda>c. c = CHR '','')) (lines_of s)"

fun join_fields :: "string list \<Rightarrow> string" where
  "join_fields [] = []"
| "join_fields [f] = f"
| "join_fields (f # fs) = f @ '','' @ join_fields fs"

definition csv_field :: "string \<Rightarrow> bool" where
  "csv_field f \<longleftrightarrow> CHR '','' \<notin> set f \<and> nl \<notin> set f"

lemma split_fields:
  "fs \<noteq> [] \<Longrightarrow> \<forall>f \<in> set fs. csv_field f \<Longrightarrow> split_on (\<lambda>c. c = CHR '','') (join_fields fs) = fs"
proof (induction fs rule: join_fields.induct)
  case (2 f)
  then show ?case using split_on_word [of "\<lambda>c. c = CHR '',''" f "[]"] by (auto simp: csv_field_def list_all_iff)
next
  case (3 f g fs)
  then show ?case
    using split_on_word [of "\<lambda>c. c = CHR '',''" f "CHR '','' # join_fields (g # fs)"]
    by (auto simp: csv_field_def list_all_iff)
qed simp

lemma join_no_newline: "\<forall>f \<in> set fs. csv_field f \<Longrightarrow> nl \<notin> set (join_fields fs)"
  by (induction fs rule: join_fields.induct) (auto simp: csv_field_def nl_def)

lemma lines_of_rows:
  "\<forall>r \<in> set rows. nl \<notin> set r \<Longrightarrow> lines_of (concat (map (\<lambda>r. r @ [nl]) rows)) = rows"
proof -
  let ?p = "\<lambda>c :: char. of_char c = (10 :: nat)"
  assume rows: "\<forall>r \<in> set rows. nl \<notin> set r"
  then have "split_on ?p (concat (map (\<lambda>r. r @ [nl]) rows)) = rows @ [[]]"
  proof (induction rows)
    case (Cons r rows)
    have "list_all (\<lambda>c. \<not> ?p c) r" "?p nl" using Cons.prems by (auto simp: list_all_iff nl_code)
    with Cons split_on_word [of ?p r "nl # concat (map (\<lambda>r. r @ [nl]) rows)"] show ?case by simp
  qed simp
  then show ?thesis by (simp add: lines_of_def Let_def)
qed

lemma read_csv_rows:
  assumes "\<forall>fs \<in> set rows. fs \<noteq> [] \<and> (\<forall>f \<in> set fs. csv_field f)"
  shows "read_csv (concat (map (\<lambda>fs. join_fields fs @ [nl]) rows)) = rows"
proof -
  have "lines_of (concat (map (\<lambda>r. r @ [nl]) (map join_fields rows))) = map join_fields rows"
    by (rule lines_of_rows) (use assms join_no_newline in auto)
  then show ?thesis using assms by (simp add: read_csv_def comp_def map_idI split_fields)
qed

lemma csv_number: "csv_field (show_nat n)"
  using show_nat_digits [of n] by (auto simp: csv_field_def list_all_iff is_digit_def nl_def)

lemma fold_push: "fold (\<lambda>x out. out @ f x) xs out = out @ concat (map f xs)"
  by (induction xs arbitrary: out) simp_all

lemma paced_dump_rows:
  "paced_dump msg burst wake = concat (map (\<lambda>fs. join_fields fs @ [nl])
     ([''kind'', ''ns''] # map (\<lambda>n. [''msg'', show_nat (unat n)]) msg @
        map (\<lambda>n. [''burst'', show_nat (unat n)]) burst @ map (\<lambda>n. [''wake'', show_nat (unat n)]) wake))"
  by (simp add: paced_dump_def push_sample_def [abs_def] fold_push comp_def)

text \<open>What the pacing program dumps can be read back. The file has its header line and one line
  per sample, \<^verbatim>\<open>msg\<close>, then \<^verbatim>\<open>burst\<close>, then \<^verbatim>\<open>wake\<close>, each with two fields, the second of
  which parses to the sample.\<close>

lemma paced_dump_reads_back:
  "read_csv (paced_dump msg burst wake) = [''kind'', ''ns''] # map (\<lambda>n. [''msg'', show_nat (unat n)]) msg @
      map (\<lambda>n. [''burst'', show_nat (unat n)]) burst @ map (\<lambda>n. [''wake'', show_nat (unat n)]) wake \<and>
   map (\<lambda>r. parse_u64 (r ! 1)) (tl (read_csv (paced_dump msg burst wake))) = map Some (msg @ burst @ wake)"
proof -
  have "csv_field ''kind''" "csv_field ''ns''" "csv_field ''msg''" "csv_field ''burst''" "csv_field ''wake''"
    by (simp_all add: csv_field_def nl_def)
  then have "read_csv (paced_dump msg burst wake) = [''kind'', ''ns''] # map (\<lambda>n. [''msg'', show_nat (unat n)]) msg @
      map (\<lambda>n. [''burst'', show_nat (unat n)]) burst @ map (\<lambda>n. [''wake'', show_nat (unat n)]) wake"
    unfolding paced_dump_rows by (intro read_csv_rows) (auto simp: csv_number)
  then show ?thesis by simp
qed

lemma timeline_dump_reads_back:
  "read_csv (timeline_dump l) = [''seq'', ''a_ns'', ''b_ns'', ''c_ns'', ''d_ns'', ''total_ns''] #
     map (\<lambda>i. map (\<lambda>x. show_nat (unat (x ! i))) [tl_seqs l, tl_a l, tl_b l, tl_c l, tl_d l, tl_total l])
       [0 ..< length (tl_total l)]"
proof -
  have "timeline_dump l = concat (map (\<lambda>fs. join_fields fs @ [nl])
     ([''seq'', ''a_ns'', ''b_ns'', ''c_ns'', ''d_ns'', ''total_ns''] #
      map (\<lambda>i. map (\<lambda>x. show_nat (unat (x ! i))) [tl_seqs l, tl_a l, tl_b l, tl_c l, tl_d l, tl_total l])
       [0 ..< length (tl_total l)]))"
    by (simp add: timeline_dump_def timeline_row_def [abs_def] fold_push comp_def)
  moreover have "\<forall>f \<in> set [''seq'', ''a_ns'', ''b_ns'', ''c_ns'', ''d_ns'', ''total_ns'']. csv_field f"
    by (simp add: csv_field_def nl_def)
  ultimately show ?thesis by (simp only:) (intro read_csv_rows, auto simp: csv_number)
qed

text \<open>No command line makes the pacing program send a message that is refused for its size, or
  too short for its sequence number.\<close>

lemma paced_payload_fits:
  "SEQ_BYTES \<le> unat (cfg_payload (paced_configure p f g args)) \<and>
   unat (cfg_payload (paced_configure p f g args)) \<le> MAX_MESSAGE_SIZE"
  by (auto simp: paced_configure_def clamp_def SEQ_BYTES_def MAX_PAYLOAD_def MAX_MESSAGE_SIZE_def word_less_nat_alt
      not_less split: if_splits)

end
