(* ===== verification/Ipc_Ref_Tests.thy ===== *)
theory Ipc_Ref_Tests
  imports Ipc_Registry_Props
begin

text \<open>
  The unit tests of \<^verbatim>\<open>capability.rs\<close>, as programs over the model: they pass on every kernel
  that identifies sockets, whatever descriptors and addresses it hands out; and what the first
  of them takes for granted about the rest of the test binary.
\<close>

section \<open>The tests\<close>

text \<open>
  The list of the asserted conditions, in their order, or \<open>None\<close> if an \<^verbatim>\<open>expect\<close> panics. \<open>a\<close>
  and \<open>b\<close> are the addresses of the allocator, \<open>d\<close> the descriptor of the socket pair that is
  wrapped.
\<close>

definition dropping_a_ref_unfiles_it ::
  "'k net \<Rightarrow> nat option \<Rightarrow> addr \<Rightarrow> addr \<Rightarrow> fd \<Rightarrow> 'o caps \<times> 'k \<Rightarrow> bool list option" where
  "dropping_a_ref_unfiles_it N rt a b d = (\<lambda>(s, k).
     (case socket_id N d k of
        Inl _ \<Rightarrow> None
      | Inr i \<Rightarrow>
          (case ref_from_fd N rt a d (s, k) of
             (r1, s1, k1) \<Rightarrow>
               (case net_dup N (ref_borrowed_fd (cp_heap s1) r1) k1 of
                  (Inl _, _) \<Rightarrow> None
                | (Inr d2, k2) \<Rightarrow>
                    (case ref_from_fd N rt b d2 (s1, k2) of
                       (r2, s2, k3) \<Rightarrow>
                         (case ref_drop N r2 (s2, k3) of
                            (s3, k4) \<Rightarrow>
                              (case ref_drop N r1 (s3, k4) of
                                 (s4, k5) \<Rightarrow>
                                   Some [cp_refs s1 i \<noteq> None, ref_is_same r1 r2, card (dom (cp_refs s2)) = 1,
                                         cp_refs s3 i \<noteq> None, \<not> cp_refs s4 i \<noteq> None])))))))"

definition an_unfiled_ref_removes_nothing ::
  "'k net \<Rightarrow> nat option \<Rightarrow> addr \<Rightarrow> addr \<Rightarrow> fd \<Rightarrow> 'o caps \<times> 'k \<Rightarrow> bool list option" where
  "an_unfiled_ref_removes_nothing N rt a b d = (\<lambda>(s, k).
     (case socket_id N d k of
        Inl _ \<Rightarrow> None
      | Inr i \<Rightarrow>
          (case ref_from_fd N rt a d (s, k) of
             (r1, s1, k1) \<Rightarrow>
               (case net_dup N (ref_borrowed_fd (cp_heap s1) r1) k1 of
                  (Inl _, _) \<Rightarrow> None
                | (Inr d2, k2) \<Rightarrow>
                    (let s2 = s1\<lparr>cp_heap := arc_new b (ref_inner_new rt d2 None) (cp_heap s1)\<rparr>
                     in case ref_drop N b (s2, k2) of
                          (s3, k3) \<Rightarrow> Some [\<not> ref_is_same r1 b, cp_refs s3 i \<noteq> None])))))"

section \<open>They pass\<close>

text \<open>The unit test of the registry passes exactly when nothing else is alive. On a fresh socket,
  one whose number no live reference has, four of its five conditions hold on every kernel
  that identifies sockets: the reference is filed, a duplicate is recognised, the drop of one
  of the two leaves the entry and the drop of the other removes it. The third, that the
  registry has one entry, is about every other reference of the process, too: it fails as
  long as the other test, which runs in the same process, holds its own.\<close>

theorem registry_test_counts_everybody:
  assumes law: "identity_law N obj" and d: "obj k d \<noteq> None" and id: "socket_id N d k = Inr i"
    and fresh: "cp_refs s i = None" "cp_heap s a = None" and fin: "finite (dom (cp_refs s))"
    and run: "dropping_a_ref_unfiles_it N rt a b d (s, k) = Some cs"
  shows "cs = [True, True, dom (cp_refs s) = {}, True, True]"
proof -
  let ?s1 = "s\<lparr>cp_heap := arc_new a (ref_inner_new rt d (Some i)) (cp_heap s), cp_refs := (cp_refs s)(i \<mapsto> a)\<rparr>"
  have first: "ref_from_fd N rt a d (s, k) = (a, (?s1, k))" using id fresh by (simp add: ref_from_fd_def)
  have fd: "ref_borrowed_fd (cp_heap ?s1) a = d"
    by (simp add: ref_borrowed_fd_def arc_new_def ref_inner_new_def)
  from run id first fd obtain d2 k2 where dup: "net_dup N d k = (Inr d2, k2)"
    by (auto simp: dropping_a_ref_unfiles_it_def split: prod.splits sum.splits)
  have "obj k2 d2 = obj k d" using id_dup(1,2) [OF law dup] by simp
  moreover have "obj k2 d = obj k d" using id_dup(1,2) [OF law dup] d by auto
  moreover have "socket_id N d k2 = Inr i" using id_dup(3) [OF law dup d] id by simp
  ultimately have id2: "socket_id N d2 k2 = Inr i" using id_same [OF law, of k2 d d2 i] d by simp
  have "card (insert i (dom (cp_refs s))) = 1 \<longleftrightarrow> dom (cp_refs s) = {}"
    using fin fresh(1) by (auto simp: card_insert_if domIff)
  with run id first fd dup id2 show ?thesis
    by (auto simp: dropping_a_ref_unfiles_it_def ref_from_fd_def weak_upgrade_def strong_count_def arc_new_def
        ref_clone_def ref_drop_def arc_release_def ref_inner_drop_def refs_remove_if_def ref_inner_new_def ref_is_same_def
        Let_def)
qed

theorem registry_test_counts_everybody_witness:
  "dropping_a_ref_unfiles_it table_net None 1 2 10
     (\<lparr>cp_heap = [3 \<mapsto> \<lparr>strong = 1, inner = ref_inner_new None 13 (Some (9, 80))\<rparr>], cp_refs = [(9, 80) \<mapsto> 3]\<rparr> :: unit caps,
      [(13, 80), (10, 70)]) = Some [True, True, False, True, True]"
proof -
  let ?s = "\<lparr>cp_heap = [3 \<mapsto> \<lparr>strong = 1, inner = ref_inner_new None 13 (Some (9, 80))\<rparr>],
    cp_refs = [(9, 80) \<mapsto> 3]\<rparr> :: unit caps"
  have id: "socket_id table_net 10 [(13, 80), (10, 70)] = Inr (9, 70)" by (simp add: table_socket_id)
  have "dropping_a_ref_unfiles_it table_net None 1 2 10 (?s, [(13, 80), (10, 70)]) \<noteq> None"
    by (simp add: dropping_a_ref_unfiles_it_def id ref_from_fd_def ref_borrowed_fd_def arc_new_def ref_inner_new_def
        table_net_def socket_id_def split: prod.splits)
  then obtain cs where run: "dropping_a_ref_unfiles_it table_net None 1 2 10 (?s, [(13, 80), (10, 70)]) = Some cs"
    by blast
  from registry_test_counts_everybody [OF table_law _ id _ _ _ run] run show ?thesis
    by (simp add: table_obj_def)
qed

text \<open>The other test passes whatever else is alive.\<close>

lemma unfiled_test_run:
  assumes id: "socket_id N d k = Inr i" and fresh: "cp_refs s i = None" "cp_heap s a = None" and "a \<noteq> b"
    and run: "an_unfiled_ref_removes_nothing N rt a b d (s, k) = Some cs"
  shows "cs = [True, True]"
  using assms
  by (auto simp: an_unfiled_ref_removes_nothing_def ref_from_fd_def arc_new_def ref_drop_def arc_release_def
      ref_inner_drop_def ref_inner_new_def strong_count_def ref_is_same_def Let_def split: prod.splits sum.splits)

end
