(* ===== verification/Ipc_Attach.thy ===== *)
theory Ipc_Attach
  imports Ipc_Lifetime Ipc_Bench
begin

text \<open>
  The end of a message: dropping it closes the descriptors it owns and gives back the
  references that ride on it, in order. Attaching and dropping cancel out.
\<close>

definition message_drop :: "'k net \<Rightarrow> message \<Rightarrow> 'o caps \<times> 'k \<Rightarrow> 'o caps \<times> 'k" where
  "message_drop N m =
     fold (\<lambda>x. case x of Owned f \<Rightarrow> (\<lambda>(s, k). (s, net_close N f k)) | SharedRef r \<Rightarrow> ref_drop N r) (msg_fds m)"

lemma ref_drop_clone:
  assumes "cp_heap s r = Some c" and "strong c \<noteq> 0"
  shows "ref_drop N r (s\<lparr>cp_heap := ref_clone r (cp_heap s)\<rparr>, k) = (s, k)"
proof -
  obtain n where n: "strong c = Suc n" using assms(2) by (cases "strong c") auto
  then have "c\<lparr>strong := Suc n\<rparr> = c" by (cases c) simp
  then have "s\<lparr>cp_heap := (cp_heap s)(r \<mapsto> c\<lparr>strong := Suc n\<rparr>)\<rparr> = s"
    using assms(1) by (simp add: fun_upd_idem)
  with n assms(1) show ?thesis
    by (simp add: ref_drop_shared [where c = "c\<lparr>strong := Suc (strong c)\<rparr>"] ref_clone_def)
qed

lemma client_message_Suc:
  "client_message r p (Suc n) h = (case client_message r p n h of (m, h1) \<Rightarrow> add_ref r (m, h1))"
  by (simp add: client_message_def)

lemma client_message_alive:
  "h r = Some c \<Longrightarrow> strong c \<noteq> 0 \<Longrightarrow> \<exists>c'. snd (client_message r p n h) r = Some c' \<and> strong c' \<noteq> 0"
proof (induction n)
  case (Suc n)
  then show ?case
    by (auto simp: client_message_Suc add_ref_def ref_clone_def split: prod.splits)
qed (simp add: client_message_def)

lemma client_message_fds: "msg_fds (fst (client_message r p n h)) = replicate n (SharedRef r)"
proof (induction n)
  case (Suc n)
  then show ?case
    by (auto simp: client_message_Suc add_ref_def replicate_append_same [symmetric] split: prod.splits)
qed (simp add: client_message_def message_from_data_def)

text \<open>
  A message with any number of clones of one live reference, dropped where it was built, leaves
  the references of the process and the kernel as they were: the phases of the benchmark,
  which leave the counts alone, lose nothing by it.
\<close>

lemma attach_and_drop:
  assumes "cp_heap s r = Some c" and "strong c \<noteq> 0"
  shows "message_drop N (fst (client_message r p n (cp_heap s)))
     (s\<lparr>cp_heap := snd (client_message r p n (cp_heap s))\<rparr>, k) = (s, k)"
proof (induction n)
  case 0
  show ?case by (simp add: client_message_def message_from_data_def message_drop_def)
next
  case (Suc n)
  let ?h = "snd (client_message r p n (cp_heap s))"
  obtain c' where "?h r = Some c'" "strong c' \<noteq> 0" using client_message_alive [of "cp_heap s" r c p n] assms by blast
  then have "ref_drop N r (s\<lparr>cp_heap := ref_clone r ?h\<rparr>, k) = (s\<lparr>cp_heap := ?h\<rparr>, k)"
    using ref_drop_clone [of "s\<lparr>cp_heap := ?h\<rparr>" r c' N k] by simp
  moreover have "snd (client_message r p (Suc n) (cp_heap s)) = ref_clone r ?h"
    by (simp add: client_message_Suc add_ref_def split: prod.splits)
  ultimately show ?case using Suc.IH by (simp add: message_drop_def client_message_fds)
qed

text \<open>A descriptor that was handed to a message is closed with it, once, and so is nothing else.\<close>

lemma owned_closes:
  assumes "identity_law N obj" and "message_drop N (add_fd f (message_from_data p)) (s, k) = (s', k')"
  shows "s' = s \<and> obj k' = (obj k)(f := None)"
  using assms(2) id_close(1) [OF assms(1), of _ f k] id_closed [OF assms(1), of f k]
  by (auto simp: message_drop_def message_defs fun_eq_iff)

end
