(* ===== verification/Ipc_Transfer.thy ===== *)
theory Ipc_Transfer
  imports Ipc_Rendezvous Ipc_Node
begin

text \<open>
  A capability on the wire: references ride on messages as descriptors, arrive under new
  descriptor numbers, and \<^verbatim>\<open>Ref::from_owned_fd\<close> turns each back into a \<^verbatim>\<open>Ref\<close>. Sender and
  receiver share a process, the case in which the registry has to recognise what comes back
  (\<^verbatim>\<open>tests/identity.rs\<close>).
\<close>

section \<open>The handler of the tests\<close>

text \<open>\<^verbatim>\<open>fds.into_iter().map(Ref::from_owned_fd).collect()\<close>; \<open>fresh\<close> is the address the allocator
  would hand out next.\<close>

fun promote ::
  "'k net \<Rightarrow> nat option \<Rightarrow> ('o caps \<Rightarrow> addr) \<Rightarrow> fd list \<Rightarrow> 'o caps \<times> 'k \<Rightarrow> addr list \<times> ('o caps \<times> 'k)" where
  "promote N rt fresh [] st = ([], st)"
| "promote N rt fresh (f # fs) st =
     (case ref_from_owned_fd N rt (fresh (fst st)) f st of (r, st1) \<Rightarrow>
       (case promote N rt fresh fs st1 of (rs, st2) \<Rightarrow> (r # rs, st2)))"

text \<open>\<^verbatim>\<open>Collect\<close>: what it was given is forwarded to the test, whose end of the channel is open.\<close>

definition collect_handle ::
  "'k net \<Rightarrow> nat option \<Rightarrow> ('o caps \<Rightarrow> addr) \<Rightarrow> (addr list list \<times> 'o caps, 'k) handler" where
  "collect_handle N rt fresh data fds creds = (\<lambda>((got, c), k).
     (case promote N rt fresh fds (c, k) of (rs, (c1, k1)) \<Rightarrow> (Returned data, (got @ [rs], c1), k1)))"

section \<open>Messages that carry references\<close>

definition refs_message :: "u8 list \<Rightarrow> addr list \<Rightarrow> message" where
  "refs_message data rs = \<lparr>msg_data = data, msg_fds = map SharedRef rs\<rparr>"

lemma refs_message_built: "fst (fold add_ref rs (message_from_data data, h)) = refs_message data rs"
proof -
  have "fst (fold add_ref rs (\<lparr>msg_data = data, msg_fds = fs\<rparr>, h)) = \<lparr>msg_data = data, msg_fds = fs @ map SharedRef rs\<rparr>" for fs
    by (induction rs arbitrary: fs h) (simp_all add: add_ref_def)
  then show ?thesis by (simp add: message_from_data_def refs_message_def)
qed

lemma refs_message_borrowed [simp]:
  "borrowed_fds borrow (refs_message data rs) = map borrow rs" "message_data (refs_message data rs) = data"
  by (simp_all add: refs_message_def message_defs)

text \<open>
  What the others do while the receive loop is parked: nothing that reaches its socket, sends
  of the messages \<open>M\<close> over any descriptor, and any sequence of these.
\<close>

inductive traffic ::
  "'k net \<Rightarrow> ('k \<Rightarrow> fd \<Rightarrow> nat option) \<Rightarrow> 'k in_flight \<Rightarrow> (addr \<Rightarrow> fd) \<Rightarrow> (u8 list \<times> addr list) set \<Rightarrow>
   ('k \<Rightarrow> 'k) \<Rightarrow> bool" for N obj wait borrow M where
  traffic_quiet: "(\<And>k. calm N obj wait k (env k)) \<Longrightarrow> traffic N obj wait borrow M env"
| traffic_send: "(data, rs) \<in> M \<Longrightarrow>
    traffic N obj wait borrow M (\<lambda>k. snd (send_now N borrow tx (refs_message data rs) k))"
| traffic_both: "traffic N obj wait borrow M f \<Longrightarrow> traffic N obj wait borrow M g \<Longrightarrow>
    traffic N obj wait borrow M (\<lambda>k. g (f k))"

text \<open>
  What \<^verbatim>\<open>recvmsg\<close> makes of a datagram that is not empty: its payload as far as the buffer goes,
  its length, and its descriptors in order, all of them unless \<^verbatim>\<open>MSG_CTRUNC\<close> says otherwise.
\<close>

definition datagram_law :: "'k net \<Rightarrow> ('k \<Rightarrow> fd \<Rightarrow> nat option) \<Rightarrow> 'k in_flight \<Rightarrow> bool" where
  "datagram_law N obj wait \<longleftrightarrow>
     (\<forall>d len c fl k m k' i fds creds. net_recvmsg N d len c fl k = (Inr m, k') \<longrightarrow> obj k d = Some i \<longrightarrow>
        collect_ancillary (rr_anc m) ([], None) = (fds, creds) \<longrightarrow> rr_bytes m \<noteq> 0 \<longrightarrow>
        (\<exists>x n. x \<in> set (wait k i) \<and> rr_bytes m = length (fst x) \<and> rr_written m = take len (fst x) \<and>
           map (obj k') fds = map Some (take n (snd x)) \<and> (\<not> rr_ctrunc m \<longrightarrow> length (snd x) \<le> n)))"

lemma traffic_meeting:
  assumes "queue_law N obj wait"
    and "\<forall>(data, rs) \<in> M. borrow ` set rs \<subseteq> K \<and> (data, map (\<lambda>r. the (ob (borrow r))) rs) \<in> X"
  shows "traffic N obj wait borrow M env \<Longrightarrow> meeting N obj wait K ob sid c X k \<Longrightarrow>
    meeting N obj wait K ob sid c X (env k)"
proof (induction arbitrary: k rule: traffic.induct)
  case (traffic_quiet env)
  from meeting_calm [OF traffic_quiet(2,1)] show ?case .
next
  case (traffic_send data rs tx)
  with assms(2) have sent: "borrow ` set rs \<subseteq> K" "(data, map (\<lambda>r. the (ob (borrow r))) rs) \<in> X"
    by blast+
  show ?case
    by (rule send_meeting [OF assms(1) _ _ traffic_send(2)]) (use sent in \<open>simp_all add: o_def\<close>)
next
  case (traffic_both f g)
  from traffic_both(4) [OF traffic_both(3) [OF traffic_both(5)]] show ?case .
qed

section \<open>From descriptors back to references\<close>

text \<open>
  Reference \<open>r\<close> is filed and alive, and its descriptor, one of \<open>K\<close>, names the socket filed.
\<close>

definition known ::
  "fd set \<Rightarrow> (fd \<Rightarrow> nat option) \<Rightarrow> (fd \<Rightarrow> (SocketId, io_error) result) \<Rightarrow> (addr \<Rightarrow> fd) \<Rightarrow> 'o caps \<Rightarrow> addr \<Rightarrow> bool" where
  "known K ob sid borrow c r \<longleftrightarrow> borrow r \<in> K \<and> strong_count (cp_heap c) r \<noteq> 0 \<and>
     (\<exists>i. sid (borrow r) = Inr i \<and> cp_refs c i = Some r)"

text \<open>What the references of \<open>rs\<close> gain when each is interned once more.\<close>

definition gains :: "'o caps \<Rightarrow> addr list \<Rightarrow> 'o caps \<Rightarrow> bool" where
  "gains c rs c' \<longleftrightarrow> cp_refs c' = cp_refs c \<and>
     (\<forall>r. strong_count (cp_heap c') r = strong_count (cp_heap c) r + count_list rs r)"

lemma gains_nil [simp]: "gains c [] c"
  by (simp add: gains_def)

lemma gains_append: "gains c rs c1 \<Longrightarrow> gains c1 rs' c2 \<Longrightarrow> gains c (rs @ rs') c2"
  by (simp add: gains_def)

lemma known_gains: "known K ob sid borrow c r \<Longrightarrow> gains c rs c' \<Longrightarrow> known K ob sid borrow c' r"
  by (auto simp: known_def gains_def)

lemma from_fd_known:
  assumes il: "identity_law N obj" and m: "meeting N obj wait K ob sid i X k"
    and r: "known K ob sid borrow c r" and f: "obj k f = ob (borrow r)"
  obtains c' where "ref_from_owned_fd N rt a f (c, k) = (r, (c', net_close N f k))" "gains c [r] c'"
proof -
  from r obtain j where j: "borrow r \<in> K" "strong_count (cp_heap c) r \<noteq> 0" "sid (borrow r) = Inr j" "cp_refs c j = Some r"
    by (auto simp: known_def)
  with m have K: "obj k (borrow r) = ob (borrow r)" "ob (borrow r) \<noteq> None" "socket_id N (borrow r) k = Inr j"
    by (auto simp: meeting_def)
  have "socket_id N f k = Inr j"
    by (rule id_same [OF il, of k "borrow r"]) (use K f in simp_all)
  then have "ref_from_owned_fd N rt a f (c, k) = (r, (c\<lparr>cp_heap := ref_clone r (cp_heap c)\<rparr>, net_close N f k))"
    using j by (simp add: ref_from_owned_fd_def ref_from_fd_def weak_upgrade_def)
  moreover have "gains c [r] (c\<lparr>cp_heap := ref_clone r (cp_heap c)\<rparr>)"
    using j(2) by (auto simp: gains_def strong_count_def ref_clone_def split: option.splits)
  ultimately show thesis by (rule that)
qed

lemma promote_known:
  assumes il: "identity_law N obj" and ql: "queue_law N obj wait"
  shows "meeting N obj wait K ob sid i X k \<Longrightarrow> \<forall>r \<in> set rs. known K ob sid borrow c r \<Longrightarrow>
    distinct fds \<Longrightarrow> set fds \<inter> K = {} \<Longrightarrow> map (obj k) fds = map (\<lambda>r. ob (borrow r)) rs \<Longrightarrow>
    \<exists>c' k'. promote N rt fresh fds (c, k) = (rs, (c', k')) \<and> gains c rs c' \<and> meeting N obj wait K ob sid i X k'"
proof (induction fds arbitrary: rs c k)
  case (Cons f fs)
  from Cons.prems(5) obtain r rs' where rs: "rs = r # rs'" "obj k f = ob (borrow r)"
    "map (obj k) fs = map (\<lambda>r. ob (borrow r)) rs'" by (cases rs) auto
  with Cons.prems have "known K ob sid borrow c r" by simp
  from from_fd_known [OF il Cons.prems(1) this rs(2)] obtain c1 where
    one: "ref_from_owned_fd N rt (fresh c) f (c, k) = (r, (c1, net_close N f k))" "gains c [r] c1" by metis
  have "obj (net_close N f k) x = obj k x" if "x \<in> set fs" for x
    using that Cons.prems(3) id_close [OF il, of x f k] by auto
  then have "map (obj (net_close N f k)) fs = map (obj k) fs" by simp
  moreover have "meeting N obj wait K ob sid i X (net_close N f k)"
    by (rule meeting_close [OF il ql _ Cons.prems(1)]) (use Cons.prems(4) in simp)
  moreover have "\<forall>r \<in> set rs'. known K ob sid borrow c1 r"
    using Cons.prems(2) rs(1) known_gains one(2) by (metis list.set_intros(2))
  ultimately obtain c2 k2 where rest: "promote N rt fresh fs (c1, net_close N f k) = (rs', (c2, k2))"
    "gains c1 rs' c2" "meeting N obj wait K ob sid i X k2"
    using Cons.IH [of "net_close N f k" rs' c1] Cons.prems(3,4) rs(3) by auto
  with one rs(1) gains_append [OF one(2) rest(2)] show ?case by auto
qed simp

lemma close_all_meeting:
  assumes "identity_law N obj" and "queue_law N obj wait"
  shows "set fds \<inter> K = {} \<Longrightarrow> meeting N obj wait K ob sid c X k \<Longrightarrow> meeting N obj wait K ob sid c X (close_all N fds k)"
proof (induction fds arbitrary: k)
  case (Cons f fs)
  then show ?case using meeting_close [OF assms, of f K ob sid c X k] by (simp add: close_all_def)
qed (simp add: close_all_def)

section \<open>The receive loop with this handler\<close>

text \<open>A call of the handler and the references it made of the descriptors are those of a message.\<close>

definition faithful :: "bool \<Rightarrow> (u8 list \<times> addr list) set \<Rightarrow> call \<Rightarrow> addr list \<Rightarrow> bool" where
  "faithful debug M call refs \<longleftrightarrow> (\<exists>rs. (fst call, rs) \<in> M \<and> refs = take (length refs) rs \<and> (debug \<longrightarrow> refs = rs))"

lemma recv_now_message:
  assumes ql: "queue_law N obj wait" and dl: "datagram_law N obj wait"
    and m: "meeting N obj wait K ob sid i X k" and d: "d \<in> K" "ob d = Some i"
    and recv: "recv_now debug N d buf len k = (Inr (Returned (rc, buf1)), k1)"
  shows "meeting N obj wait K ob sid i X k1 \<and> distinct (rc_fds rc) \<and> set (rc_fds rc) \<inter> K = {} \<and>
    (rc_bytes rc \<noteq> 0 \<longrightarrow> \<not> received_truncated rc (length buf1) \<longrightarrow>
      (\<exists>x \<in> X. take (rc_bytes rc) buf1 = fst x \<and>
        map (obj k1) (rc_fds rc) = map Some (take (length (rc_fds rc)) (snd x)) \<and>
        (debug \<longrightarrow> length (rc_fds rc) = length (snd x))))"
proof -
  from recv obtain y where y: "net_recvmsg N d (length buf) len {CMSG_CLOEXEC, TRUNC} k = (Inr y, k1)"
    "collect_ancillary (rr_anc y) ([], None) = (rc_fds rc, rc_creds rc)" "\<not> (debug \<and> rr_ctrunc y)"
    "rc_bytes rc = rr_bytes y" "buf1 = overwrite (rr_written y) buf"
    by (auto simp: recv_now_def io_bind_def io_ret_def split: prod.splits sum.splits if_splits)
  from m d have o: "obj k d = Some i" by (simp add: meeting_def)
  have "meeting N obj wait K ob sid i X k1"
    using meeting_calm [OF m q_recv [OF ql]] y(1) by (metis snd_conv)
  moreover have "distinct (rc_fds rc)" "\<forall>f \<in> set (rc_fds rc). obj k f = None"
    using q_received [OF ql y(1) o y(2)] by simp_all
  moreover from this(2) have "set (rc_fds rc) \<inter> K = {}" using meeting_fresh [OF m] by blast
  moreover have "\<exists>x \<in> X. take (rc_bytes rc) buf1 = fst x \<and>
      map (obj k1) (rc_fds rc) = map Some (take (length (rc_fds rc)) (snd x)) \<and>
      (debug \<longrightarrow> length (rc_fds rc) = length (snd x))"
    if "rc_bytes rc \<noteq> 0" "\<not> received_truncated rc (length buf1)"
  proof -
    from that(1) y(4) have "rr_bytes y \<noteq> 0" by simp
    from dl [unfolded datagram_law_def, rule_format, OF y(1) o y(2) this] obtain x n where
      x: "x \<in> set (wait k i)" "rr_bytes y = length (fst x)" "rr_written y = take (length buf) (fst x)"
        "map (obj k1) (rc_fds rc) = map Some (take n (snd x))" "\<not> rr_ctrunc y \<longrightarrow> length (snd x) \<le> n"
      by blast
    from x(3) y(5) have "length buf1 = length buf" by (simp add: overwrite_def)
    with that(2) x y(4,5) have "take (rc_bytes rc) buf1 = fst x" by (simp add: received_truncated_def overwrite_def)
    moreover have len: "length (rc_fds rc) = min (length (snd x)) n" using arg_cong [OF x(4), of length] by simp
    moreover have "take (min (length (snd x)) n) (snd x) = take n (snd x)" by (simp add: min_def)
    moreover have "x \<in> X" using x(1) m by (auto simp: meeting_def)
    ultimately show ?thesis using x(4,5) y(3) by (intro bexI [of _ x]) (auto simp: min_def)
  qed
  ultimately show ?thesis by blast
qed

lemma collecting_loop:
  assumes il: "identity_law N obj" and ql: "queue_law N obj wait" and dl: "datagram_law N obj wait"
    and M: "\<forall>(data, rs) \<in> M. \<forall>r \<in> set rs. known K ob sid borrow c0 r" and d: "d \<in> K" "ob d = Some i"
    and X: "X = (\<lambda>(data, rs). (data, map (\<lambda>r. the (ob (borrow r))) rs)) ` M"
  shows "\<forall>ws \<in> set rounds. \<forall>env. Inr env \<in> set ws \<longrightarrow> traffic N obj wait borrow M env \<Longrightarrow>
    meeting N obj wait K ob sid i X k \<Longrightarrow> gains c0 gs c \<Longrightarrow>
    recv_loop debug N (collect_handle N rt fresh) d rounds buf (got, c) k = (calls, e, (got', c'), k') \<Longrightarrow>
    \<exists>new. got' = got @ new \<and> list_all2 (faithful debug M) calls new \<and> gains c (concat new) c'"
proof (induction rounds arbitrary: buf got c gs k calls e got' c' k')
  case (Cons ws rounds)
  let ?I = "meeting N obj wait K ob sid i X"
  have in_M: "\<forall>(data, rs) \<in> M. borrow ` set rs \<subseteq> K \<and> (data, map (\<lambda>r. the (ob (borrow r))) rs) \<in> X"
    using M X by (auto simp: known_def)
  have env: "?I (env k)" if "Inr env \<in> set ws" "?I k" for env k
  proof -
    from Cons.prems(1) that(1) have "traffic N obj wait borrow M env" by (metis list.set_intros(1))
    from traffic_meeting [OF ql in_M this that(2)] show ?thesis .
  qed
  obtain x k1 where recv: "reactive_recv debug N d buf (MAX_ANCILLARY_BUFFER_SIZE N) ws k = (x, k1)" by fastforce
  show ?case
  proof (cases "\<exists>rc buf1. x = Some (Inr (Returned (rc, buf1)))")
    case False
    with Cons.prems(4) recv show ?thesis
      by (intro exI [of _ "[]"]) (auto split: option.splits sum.splits outcome.splits)
  next
    case True
    then obtain rc buf1 where x: "x = Some (Inr (Returned (rc, buf1)))" by blast
    let ?op = "recv_now debug N d buf (MAX_ANCILLARY_BUFFER_SIZE N)"
    have "\<exists>k0. ?I k0 \<and> ?op k0 = (Inr (Returned (rc, buf1)), k1)"
    proof (rule reactive_io_result [where P = ?I])
      show "reactive_io ?op ws k = (Some (Inr (Returned (rc, buf1))), k1)"
        using recv by (simp add: reactive_recv_def x)
      show "?I k2" if "?I k0" "?op k0 = (Inl er, k2)" for k0 er k2
        using meeting_calm [OF that(1) q_recv [OF ql]] that(2)
        by (auto simp: recv_now_def io_bind_def io_ret_def split: prod.splits sum.splits if_splits) (metis snd_conv)
    qed (use env Cons.prems(2) in auto)
    then obtain k0 where k0: "?I k0" "?op k0 = (Inr (Returned (rc, buf1)), k1)" by blast
    note R = recv_now_message [OF ql dl k0(1) d k0(2)]
    have closed: "?I (close_all N (rc_fds rc) k1)" using R close_all_meeting [OF il ql] by blast
    consider "rc_bytes rc = 0" | "rc_bytes rc \<noteq> 0" "received_truncated rc (length buf1)"
      | "rc_bytes rc \<noteq> 0" "\<not> received_truncated rc (length buf1)" by blast
    then show ?thesis
    proof cases
      case 1
      with Cons.prems(4) recv x show ?thesis by (intro exI [of _ "[]"]) auto
    next
      case 2
      with Cons.prems(4) recv x
      have "recv_loop debug N (collect_handle N rt fresh) d rounds buf1 (got, c) (close_all N (rc_fds rc) k1) =
        (calls, e, (got', c'), k')" by simp
      from Cons.IH [OF _ closed Cons.prems(3) this] Cons.prems(1) show ?thesis by simp
    next
      case 3
      with R obtain y where y: "y \<in> X" "take (rc_bytes rc) buf1 = fst y"
        "map (obj k1) (rc_fds rc) = map Some (take (length (rc_fds rc)) (snd y))"
        "debug \<longrightarrow> length (rc_fds rc) = length (snd y)" by blast
      from y(1) X obtain rs where rs: "(fst y, rs) \<in> M" "snd y = map (\<lambda>r. the (ob (borrow r))) rs" by auto
      let ?rs = "take (length (rc_fds rc)) rs"
      have kn: "\<forall>r \<in> set ?rs. known K ob sid borrow c r"
        using bspec [OF M rs(1)] known_gains [OF _ Cons.prems(3)] by (auto dest: in_set_takeD)
      have "ob (borrow r) \<noteq> None" if "r \<in> set ?rs" for r
        using k0(1) kn that by (auto simp: meeting_def known_def)
      then have "map (obj k1) (rc_fds rc) = map (\<lambda>r. ob (borrow r)) ?rs"
        unfolding y(3) rs(2) take_map by auto
      from promote_known [OF il ql _ kn _ _ this, where X = X and i = i and rt = rt and fresh = fresh] R obtain c1 k2 where
        p: "promote N rt fresh (rc_fds rc) (c, k1) = (?rs, (c1, k2))" "gains c ?rs c1" "?I k2" by blast
      have "collect_handle N rt fresh data (rc_fds rc) creds ((got, c), k1) = (Returned data, (got @ [?rs], c1), k2)"
        for data creds by (simp add: collect_handle_def p(1))
      with Cons.prems(4) recv x 3 obtain calls1 where rest:
        "recv_loop debug N (collect_handle N rt fresh) d rounds (overwrite (take (rc_bytes rc) buf1) buf1) (got @ [?rs], c1) k2 =
          (calls1, e, (got', c'), k')"
        "calls = (take (rc_bytes rc) buf1, rc_fds rc, rc_creds rc) # calls1"
        by (auto simp: Let_def split: prod.splits)
      from Cons.IH [OF _ p(3) gains_append [OF Cons.prems(3) p(2)] rest(1)] Cons.prems(1) obtain new where
        new: "got' = (got @ [?rs]) @ new" "list_all2 (faithful debug M) calls1 new" "gains c1 (concat new) c'" by auto
      have "faithful debug M (take (rc_bytes rc) buf1, rc_fds rc, rc_creds rc) ?rs"
        using rs y(2,4) by (auto simp: faithful_def min_def intro!: exI [of _ rs])
      with new rest(2) gains_append [OF p(2) new(3)] show ?thesis by (intro exI [of _ "?rs # new"]) simp
    qed
  qed
qed simp

text \<open>C6: a capability sent is the capability that arrives. Messages that carry live references
  of this process are sent to one of its nodes, in any order, over any descriptors and with
  anything harmless in between; the receive loop's handler turns every descriptor it is given
  into a \<^verbatim>\<open>Ref\<close>. Each call then gets the payload of one of those messages together with that
  message's own references, the very same ones in the same order and duplicates included (in
  a release build a prefix of them when the kernel truncates, which a debug build refuses); no
  new reference is made, the registry is unchanged and each reference has gained one strong
  count per arrival.\<close>

theorem capabilities_survive_the_wire:
  assumes "identity_law N obj" and "queue_law N obj wait" and "datagram_law N obj wait"
    and reach: "reach (cap_init k0) (cap_step N obj) s"
    and sent: "\<forall>(data, rs) \<in> M. \<forall>r \<in> set rs. cs_stage s r = Alive \<and> cap_ids (cp_heap (cs_caps s)) r \<noteq> None"
    and node: "obj (cs_kern s) d = Some i" "wait (cs_kern s) i = []"
    and traffic: "\<forall>ws \<in> set rounds. \<forall>env. Inr env \<in> set ws \<longrightarrow>
      traffic N obj wait (ref_borrowed_fd (cp_heap (cs_caps s))) M env"
    and run: "recv_loop debug N (collect_handle N rt fresh) d rounds buf ([], cs_caps s) (cs_kern s) =
      (calls, e, (got, caps'), k')"
  shows "list_all2 (\<lambda>call refs. \<exists>rs. (fst call, rs) \<in> M \<and> refs = take (length refs) rs \<and> (debug \<longrightarrow> refs = rs))
      calls got \<and>
    cp_refs caps' = cp_refs (cs_caps s) \<and>
    (\<forall>r. strong_count (cp_heap caps') r = strong_count (cp_heap (cs_caps s)) r + count_list (concat got) r)"
proof -
  let ?b = "ref_borrowed_fd (cp_heap (cs_caps s))" and ?ob = "obj (cs_kern s)"
  let ?sid = "\<lambda>d. socket_id N d (cs_kern s)"
  let ?K = "insert d (?b ` (\<Union>(data, rs) \<in> M. set rs))"
  let ?X = "(\<lambda>(data, rs). (data, map (\<lambda>r. the (?ob (?b r))) rs)) ` M"
  have inv: "cap_inv N obj s" using registry.reach_inv [OF reach] assms(1) by blast
  have filed: "?ob (?b r) \<noteq> None" "known ?K ?ob ?sid ?b (cs_caps s) r" if m: "(data, rs) \<in> M" "r \<in> set rs" for data rs r
  proof -
    from bspec [OF sent m(1)] m(2) have a: "cs_stage s r = Alive" "cap_ids (cp_heap (cs_caps s)) r \<noteq> None" by auto
    then obtain j where "cap_ids (cp_heap (cs_caps s)) r = Some j" by auto
    from alive_filed [OF inv a(1) this] cap_inv_alive [OF inv, of r] a(1) m
    show "?ob (?b r) \<noteq> None" "known ?K ?ob ?sid ?b (cs_caps s) r" by (auto simp: known_def)
  qed
  have "meeting N obj wait ?K ?ob ?sid i ?X (cs_kern s)"
    using node filed(1) by (auto simp: meeting_def)
  from collecting_loop [OF assms(1-3) _ _ node(1) refl traffic this gains_nil run] filed(2) obtain new where
    "got = [] @ new" "list_all2 (faithful debug M) calls new" "gains (cs_caps s) (concat new) caps'" by auto
  then show ?thesis by (simp add: gains_def faithful_def [abs_def])
qed

section \<open>A reference sent to its own node\<close>

lemma meet_datagram_law: "datagram_law meet_net meet_obj meet_wait"
  unfolding datagram_law_def
proof (intro allI impI)
  fix d len c fl k m k' i fds creds
  assume r: "net_recvmsg meet_net d len c fl k = (Inr m, k')" and i: "meet_obj k d = Some i"
    and fds: "collect_ancillary (rr_anc m) ([], None) = (fds, creds)"
  from r obtain j iov "is" q where j: "map_of (mk_tab k) d = Some j" "meet_take j (mk_wait k) = Some ((iov, is), q)"
    "m = \<lparr>rr_bytes = length iov, rr_written = take len iov,
       rr_anc = [ScmRights [table_fresh (mk_tab k) ..< table_fresh (mk_tab k) + length is]], rr_ctrunc = False\<rparr>"
    "k' = k\<lparr>mk_tab := zip [table_fresh (mk_tab k) ..< table_fresh (mk_tab k) + length is] is @ mk_tab k, mk_wait := q\<rparr>"
    by (auto simp: meet_recvmsg_def Let_def split: option.splits prod.splits)
  have "(iov, map unat is) \<in> set (meet_wait k i)"
    using meet_take_set [OF j(2)] j(1) i by (force simp: meet_wait_def meet_obj_def table_obj_def)
  moreover have f: "fds = [table_fresh (mk_tab k) ..< table_fresh (mk_tab k) + length is]" using fds by (simp add: j(3))
  have "map (meet_obj k') fds = map Some (take (length is) (map unat is))"
    unfolding j(4) f by (simp only: meet_installed) simp
  ultimately show "\<exists>x n. x \<in> set (meet_wait k i) \<and> rr_bytes m = length (fst x) \<and> rr_written m = take len (fst x) \<and>
      map (meet_obj k') fds = map Some (take n (snd x)) \<and> (\<not> rr_ctrunc m \<longrightarrow> length (snd x) \<le> n)"
    by (intro exI [of _ "(iov, map unat is)"] exI [of _ "length is"]) (simp add: j(3))
qed

text \<open>
  Descriptor 9 is the node's socket, reference 1 its only capability, on descriptor 5: two
  copies of it go through descriptor 5 once the kernel has connected the two.
\<close>

definition looped :: "meet \<Rightarrow> meet" where
  "looped k = snd (send_now meet_net (ref_borrowed_fd (cp_heap (cs_caps bound_state))) 5 (refs_message [104, 105] [1, 1])
     (k\<lparr>mk_peers := (70, 90) # mk_peers k\<rparr>))"

lemma looped_traffic:
  "traffic meet_net meet_obj meet_wait (ref_borrowed_fd (cp_heap (cs_caps bound_state))) {([104, 105], [1, 1])} looped"
proof -
  let ?t = "traffic meet_net meet_obj meet_wait (ref_borrowed_fd (cp_heap (cs_caps bound_state))) {([104, 105], [1, 1])}"
  have "?t (\<lambda>k. k\<lparr>mk_peers := (70, 90) # mk_peers k\<rparr>)" by (intro traffic_quiet meet_calm) simp_all
  moreover have "?t (\<lambda>k. snd (send_now meet_net (ref_borrowed_fd (cp_heap (cs_caps bound_state))) 5
      (refs_message [104, 105] [1, 1]) k))" by (rule traffic_send) simp
  ultimately show ?thesis unfolding looped_def [abs_def] by (rule traffic_both)
qed

lemma looped_sent:
  "looped (cs_kern bound_state) =
     \<lparr>mk_tab = [(5, 70), (9, 90)], mk_wait = [(90, [104, 105], [70, 70])], mk_conns = [], mk_peers = [(70, 90)]\<rparr>"
  by (simp add: looped_def send_now_def io_defs meet_defs sent_fds_def message_defs refs_message_def ref_borrowed_fd_def
      bound_state_def EXPECTED_ANCILLARY_BUFFER_SIZE_def EXPECTED_FDS_def sample_cmsg_space_def ref_inner_new_def Let_def)

lemma looped_received:
  "reactive_recv True meet_net 9 [0, 0, 0] len [Inr looped] (cs_kern bound_state) =
     (Some (Inr (Returned (\<lparr>rc_bytes = 2, rc_fds = [10, 11], rc_creds = None\<rparr>, [104, 105, 0]))),
      \<lparr>mk_tab = [(10, 70), (11, 70), (5, 70), (9, 90)], mk_wait = [], mk_conns = [], mk_peers = [(70, 90)]\<rparr>)"
  by (simp add: reactive_recv_def recv_now_def looped_sent io_defs meet_defs overwrite_def upt_rec Let_def)

lemma looped_run:
  "recv_loop True meet_net (collect_handle meet_net None (\<lambda>_. 2)) 9 [[Inr looped]] [0, 0, 0] ([], cs_caps bound_state)
     (cs_kern bound_state) =
   ([([104, 105], [10, 11], None)], None, ([[1, 1]],
      (cs_caps bound_state)\<lparr>cp_heap := ref_clone 1 (ref_clone 1 (cp_heap (cs_caps bound_state)))\<rparr>),
      \<lparr>mk_tab = [(5, 70), (9, 90)], mk_wait = [], mk_conns = [], mk_peers = [(70, 90)]\<rparr>)"
  by (simp add: looped_received received_truncated_def collect_handle_def ref_from_owned_fd_def ref_from_fd_def meet_socket_id
      overwrite_def Let_def)
    (simp add: bound_state_def weak_upgrade_def strong_count_def ref_clone_def)

theorem capabilities_survive_the_wire_witness:
  "case recv_loop True meet_net (collect_handle meet_net None (\<lambda>_. 2)) 9 [[Inr looped]] [0, 0, 0] ([], cs_caps bound_state)
     (cs_kern bound_state) of (calls, e, (got, caps'), k') \<Rightarrow>
   got = [[1, 1]] \<and> map fst calls = [[104, 105]] \<and> strong_count (cp_heap caps') 1 = 3"
proof -
  have "\<forall>(data, rs) \<in> {([104, 105], [1, 1])}. \<forall>r \<in> set rs.
      cs_stage bound_state r = Alive \<and> cap_ids (cp_heap (cs_caps bound_state)) r \<noteq> None"
    by (simp add: bound_state_def cap_ids_def)
  moreover have "\<forall>ws \<in> set [[Inr looped]]. \<forall>env. Inr env \<in> set ws \<longrightarrow>
      traffic meet_net meet_obj meet_wait (ref_borrowed_fd (cp_heap (cs_caps bound_state))) {([104, 105], [1, 1])} env"
    using looped_traffic by simp
  ultimately have "\<forall>r. strong_count (cp_heap ((cs_caps bound_state)\<lparr>cp_heap :=
      ref_clone 1 (ref_clone 1 (cp_heap (cs_caps bound_state)))\<rparr>)) r =
    strong_count (cp_heap (cs_caps bound_state)) r + count_list (concat [[1, 1]]) r"
    using capabilities_survive_the_wire [OF meet_law meet_queue_law meet_datagram_law bound_reach _ _ _ _ looped_run,
        of "{([104, 105], [1, 1])}" 90]
    by (simp add: bound_state_def meet_obj_def table_obj_def meet_wait_def)
  then show ?thesis unfolding looped_run by (simp add: bound_state_def strong_count_def)
qed

end
