(* ===== verification/Ipc_Authority.thy ===== *)
theory Ipc_Authority
  imports Ipc_Transfer Ipc_Echo_Props
begin

text \<open>
  What a capability that arrives is worth, whoever sent it: the descriptors of a datagram, each
  made a \<^verbatim>\<open>Ref\<close>, lead to the sockets that were attached, whether the registry knew them or not.
\<close>

section \<open>The memory of references stays finite\<close>

lemma finite_heap_step: "cap_step N obj s t \<Longrightarrow> finite (dom (cp_heap (cs_caps s))) \<Longrightarrow> finite (dom (cp_heap (cs_caps t)))"
proof (induction rule: cap_step.induct)
  case (step_from_fd d s a rt r c k)
  from dom_from_fd [OF step_from_fd(3)] step_from_fd(4) show ?case by (simp add: finite_subset)
next
  case (step_free s a)
  then show ?case by (simp add: dom_def) (erule rev_finite_subset, auto)
qed simp_all

lemma reach_finite_heap: "reach (cap_init k0) (cap_step N obj) s \<Longrightarrow> finite (dom (cp_heap (cs_caps s)))"
proof (induction rule: reach.induct)
  case reach_init
  then show ?case by (simp add: cap_init_def)
next
  case (reach_step s t)
  then show ?case using finite_heap_step by blast
qed

section \<open>Promotion, one descriptor at a time\<close>

lemma from_fd_persists:
  assumes law: "identity_law N obj" and inv: "cap_inv N obj s" and d: "d \<in> cs_loose s"
    and a: "cp_heap (cs_caps s) a = None" and run: "ref_from_fd N rt a d (cs_caps s, cs_kern s) = (r, (c, k))"
    and b: "cs_stage s b = Alive"
  shows "ref_borrowed_fd (cp_heap c) b = ref_borrowed_fd (cp_heap (cs_caps s)) b \<and>
    obj k (ref_borrowed_fd (cp_heap c) b) = obj (cs_kern s) (ref_borrowed_fd (cp_heap (cs_caps s)) b)"
proof -
  note F = cap_invD [OF inv]
  have "cp_heap (cs_caps s) b \<noteq> None" using cap_inv_alive [OF inv, of b] b
    by (auto simp: strong_count_def split: option.splits)
  then obtain x where x: "cp_heap (cs_caps s) b = Some x" by blast
  then have "owners s b = Some (inner x)" using b by (simp add: owners_def)
  from fds_okD(2) [OF F(3) this owned_fd] d have "ref_borrowed_fd (cp_heap (cs_caps s)) b \<noteq> d"
    using x by (auto simp: ref_borrowed_fd_def)
  moreover have "b \<noteq> a" using a x by auto
  then have "ref_borrowed_fd (cp_heap c) b = ref_borrowed_fd (cp_heap (cs_caps s)) b"
    using run by (auto simp: ref_from_fd_def weak_upgrade_def arc_new_def ref_borrowed_fd_def ref_clone_def
        split: sum.splits option.splits if_splits)
  moreover have "k = cs_kern s \<or> k = net_close N d (cs_kern s)"
    using run by (auto simp: ref_from_fd_def split: sum.splits option.splits)
  ultimately show ?thesis using id_close [OF law, of _ d "cs_kern s"] by auto
qed

lemma promote_reach:
  assumes law: "identity_law N obj" and new: "fresh_alloc fresh"
  shows "reach (cap_init k0) (cap_step N obj) s \<Longrightarrow> distinct fds \<Longrightarrow> set fds \<subseteq> cs_loose s \<Longrightarrow>
    promote N rt fresh fds (cs_caps s, cs_kern s) = (rs, (c', k')) \<Longrightarrow>
    \<exists>s'. reach (cap_init k0) (cap_step N obj) s' \<and> cs_caps s' = c' \<and> cs_kern s' = k' \<and>
      cs_loose s' = cs_loose s - set fds \<and>
      list_all2 (\<lambda>f r. cs_stage s' r = Alive \<and> obj k' (ref_borrowed_fd (cp_heap c') r) = obj (cs_kern s) f) fds rs \<and>
      (\<forall>b. cs_stage s b = Alive \<longrightarrow> cs_stage s' b = Alive \<and>
         obj k' (ref_borrowed_fd (cp_heap c') b) = obj (cs_kern s) (ref_borrowed_fd (cp_heap (cs_caps s)) b))"
proof (induction fds arbitrary: s rs)
  case Nil
  then show ?case by auto
next
  case (Cons f fs)
  let ?a = "fresh (cs_caps s)"
  have inv: "cap_inv N obj s" using registry.reach_inv [OF Cons.prems(1)] law by blast
  have a: "cp_heap (cs_caps s) ?a = None"
    using new reach_finite_heap [OF Cons.prems(1)] by (simp add: fresh_alloc_def)
  have f: "f \<in> cs_loose s" using Cons.prems(3) by simp
  obtain r c1 k1 where one: "ref_from_fd N rt ?a f (cs_caps s, cs_kern s) = (r, (c1, k1))" by (metis prod.exhaust)
  let ?s = "s\<lparr>cs_caps := c1, cs_kern := k1, cs_loose := cs_loose s - {f}, cs_stage := (cs_stage s)(r := Alive)\<rparr>"
  from Cons.prems(4) one obtain rs' where rest: "rs = r # rs'" "promote N rt fresh fs (cs_caps ?s, cs_kern ?s) = (rs', (c', k'))"
    by (auto simp: ref_from_owned_fd_def split: prod.splits)
  have reach: "reach (cap_init k0) (cap_step N obj) ?s"
    using reach_step [OF Cons.prems(1) step_from_fd [OF f a one]] .
  from Cons.prems(2,3) have "distinct fs" "set fs \<subseteq> cs_loose ?s" by auto
  from Cons.IH [OF reach this rest(2)] obtain s' where s':
    "reach (cap_init k0) (cap_step N obj) s'" "cs_caps s' = c'" "cs_kern s' = k'" "cs_loose s' = cs_loose ?s - set fs"
    "list_all2 (\<lambda>f r. cs_stage s' r = Alive \<and> obj k' (ref_borrowed_fd (cp_heap c') r) = obj k1 f) fs rs'"
    "\<And>b. cs_stage ?s b = Alive \<Longrightarrow> cs_stage s' b = Alive \<and>
       obj k' (ref_borrowed_fd (cp_heap c') b) = obj k1 (ref_borrowed_fd (cp_heap c1) b)" by auto
  note P = from_fd_persists [OF law inv f a one]
  have others: "obj k1 g = obj (cs_kern s) g" if "g \<noteq> f" for g
    using one that id_close [OF law, of g f "cs_kern s"] by (auto simp: ref_from_fd_def split: sum.splits option.splits)
  have "obj k1 (ref_borrowed_fd (cp_heap c1) r) = obj (cs_kern s) f"
  proof (cases "r = ?a")
    case True
    then show ?thesis using from_fd_recognises [OF law Cons.prems(1) f a one, THEN conjunct2] by simp
  next
    case False
    then have "cs_stage s r = Alive" "obj (cs_kern s) (ref_borrowed_fd (cp_heap (cs_caps s)) r) = obj (cs_kern s) f"
      using from_fd_recognises [OF law Cons.prems(1) f a one, THEN conjunct2] by simp_all
    then show ?thesis using trans [OF P [THEN conjunct2]] by blast
  qed
  with s'(6) [of r] have "cs_stage s' r = Alive \<and> obj k' (ref_borrowed_fd (cp_heap c') r) = obj (cs_kern s) f" by simp
  moreover have "list_all2 (\<lambda>f r. cs_stage s' r = Alive \<and> obj k' (ref_borrowed_fd (cp_heap c') r) = obj (cs_kern s) f) fs rs'"
  proof (rule list.rel_mono_strong [OF s'(5)])
    fix g q assume "g \<in> set fs" "cs_stage s' q = Alive \<and> obj k' (ref_borrowed_fd (cp_heap c') q) = obj k1 g"
    moreover from this(1) Cons.prems(2) have "g \<noteq> f" by auto
    ultimately show "cs_stage s' q = Alive \<and> obj k' (ref_borrowed_fd (cp_heap c') q) = obj (cs_kern s) g"
      by (simp add: others)
  qed
  moreover have "cs_stage s' b = Alive \<and>
      obj k' (ref_borrowed_fd (cp_heap c') b) = obj (cs_kern s) (ref_borrowed_fd (cp_heap (cs_caps s)) b)"
    if "cs_stage s b = Alive" for b
  proof -
    from that have "cs_stage ?s b = Alive" by simp
    note Q = s'(6) [OF this]
    show ?thesis using Q [THEN conjunct1] trans [OF Q [THEN conjunct2] P [OF that, THEN conjunct2]] by blast
  qed
  ultimately show ?case using s' rest(1) by (intro exI [of _ s']) auto
qed

section \<open>Properties\<close>

text \<open>C7: a capability that arrives leads where its sender attached it to. Whatever waits at a
  socket of this process and whoever sent it, when the receive loop takes a message and its
  handler makes a \<^verbatim>\<open>Ref\<close> of every descriptor, then the payload and the references belong to one
  datagram: each reference is alive and sends to the socket that was attached at its place,
  whether the registry recognised it or it is new; every descriptor is accounted for; and the
  process is in a state it can reach, so that all that holds of its registry holds on.\<close>

theorem received_capabilities_lead_there:
  assumes "identity_law N obj" and "queue_law N obj wait" and "datagram_law N obj wait" and "fresh_alloc fresh"
    and reach: "reach (cap_init k0) (cap_step N obj) s" and d: "obj (cs_kern s) d = Some i"
    and recv: "recv_now debug N d buf len (cs_kern s) = (Inr (Returned (rc, buf1)), k1)"
    and whole: "rc_bytes rc \<noteq> 0" "\<not> received_truncated rc (length buf1)"
    and run: "promote N rt fresh (rc_fds rc) (cs_caps s, k1) = (rs, (c', k'))"
  shows "\<exists>x \<in> set (wait (cs_kern s) i). \<exists>s'. reach (cap_init k0) (cap_step N obj) s' \<and>
    cs_caps s' = c' \<and> cs_kern s' = k' \<and> cs_loose s' = cs_loose s \<and>
    take (rc_bytes rc) buf1 = fst x \<and>
    list_all2 (\<lambda>r o'. cs_stage s' r = Alive \<and> obj k' (ref_borrowed_fd (cp_heap c') r) = Some o') rs (take (length rs) (snd x)) \<and>
    (debug \<longrightarrow> length rs = length (snd x))"
proof -
  have inv: "cap_inv N obj s" using registry.reach_inv [OF reach] assms(1) by blast
  have open_held: "obj (cs_kern s) g \<noteq> None" if "g \<in> held s" for g
    using that fds_okD(1,2) [OF cap_invD(3) [OF inv]] by (auto simp: held_def ran_def)
  let ?K = "insert d (held s)"
  have "meeting N obj wait ?K (obj (cs_kern s)) (\<lambda>g. socket_id N g (cs_kern s)) i (set (wait (cs_kern s) i)) (cs_kern s)"
    using d open_held by (auto simp: meeting_def)
  note R = recv_now_message [OF assms(2,3) this _ d recv]
  then have m: "\<forall>g \<in> held s. obj k1 g = obj (cs_kern s) g \<and> socket_id N g k1 = socket_id N g (cs_kern s)"
    and new: "distinct (rc_fds rc)" "set (rc_fds rc) \<inter> held s = {}" by (auto simp: meeting_def)
  from R whole obtain x where x: "x \<in> set (wait (cs_kern s) i)" "take (rc_bytes rc) buf1 = fst x"
    "map (obj k1) (rc_fds rc) = map Some (take (length (rc_fds rc)) (snd x))"
    "debug \<longrightarrow> length (rc_fds rc) = length (snd x)" by auto
  have opened: "obj k1 f \<noteq> None" if "f \<in> set (rc_fds rc)" for f
    using that arg_cong [OF x(3), of set] by (metis image_eqI image_iff list.set_map option.distinct(1))
  let ?s = "s\<lparr>cs_kern := k1, cs_loose := cs_loose s \<union> set (rc_fds rc)\<rparr>"
  have "cap_step N obj s ?s" by (rule step_env) (use m new opened in auto)
  with reach have "reach (cap_init k0) (cap_step N obj) ?s" by (rule reach_step)
  from promote_reach [OF assms(1,4) this new(1), of rt rs c' k'] run obtain s' where s':
    "reach (cap_init k0) (cap_step N obj) s'" "cs_caps s' = c'" "cs_kern s' = k'"
    "cs_loose s' = (cs_loose s \<union> set (rc_fds rc)) - set (rc_fds rc)"
    "list_all2 (\<lambda>f r. cs_stage s' r = Alive \<and> obj k' (ref_borrowed_fd (cp_heap c') r) = obj k1 f) (rc_fds rc) rs"
    by auto
  have len: "length rs = length (rc_fds rc)" using list_all2_lengthD [OF s'(5)] by simp
  have "list_all2 (\<lambda>r o'. cs_stage s' r = Alive \<and> obj k' (ref_borrowed_fd (cp_heap c') r) = Some o') rs (take (length rs) (snd x))"
  proof (rule list_all2_all_nthI)
    have l: "length rs = length (take (length rs) (snd x))" using arg_cong [OF x(3), of length] len by simp
    then show "length rs = length (take (length rs) (snd x))" .
    fix j assume j: "j < length rs"
    have "obj k1 (rc_fds rc ! j) = Some (take (length rs) (snd x) ! j)"
      using arg_cong [OF x(3), of "\<lambda>l. l ! j"] j len l by simp
    then show "cs_stage s' (rs ! j) = Alive \<and>
        obj k' (ref_borrowed_fd (cp_heap c') (rs ! j)) = Some (take (length rs) (snd x) ! j)"
      using list_all2_nthD2 [OF s'(5) j] by simp
  qed
  moreover have "cs_loose s' = cs_loose s" using s'(4) new(2) by (auto simp: held_def)
  ultimately show ?thesis using x s'(1-3) len by (intro bexI [of _ x] exI [of _ s']) simp_all
qed

text \<open>A datagram with two capabilities, one that the registry knows and one that it does not.\<close>

definition loaded :: "(unit, meet) cap_sys" where
  "loaded = bound_state\<lparr>cs_kern := \<lparr>mk_tab = [(5, 70), (9, 90)], mk_wait = [(90, [104, 105], [70, 77])], mk_conns = [], mk_peers = []\<rparr>\<rparr>"

lemma loaded_reach:
  "reach (cap_init \<lparr>mk_tab = [], mk_wait = [], mk_conns = [], mk_peers = []\<rparr>) (cap_step meet_net meet_obj) loaded"
proof -
  let ?k = "\<lparr>mk_tab = [(5, 70), (9, 90)], mk_wait = [(90, [104, 105], [70, 77])], mk_conns = [], mk_peers = []\<rparr>"
  have "cap_step meet_net meet_obj bound_state (bound_state\<lparr>cs_kern := ?k, cs_loose := cs_loose bound_state \<union> {}\<rparr>)"
    by (rule step_env) (simp_all add: bound_state_def meet_obj_def table_obj_def meet_socket_id)
  with bound_reach have "reach (cap_init \<lparr>mk_tab = [], mk_wait = [], mk_conns = [], mk_peers = []\<rparr>)
      (cap_step meet_net meet_obj) (bound_state\<lparr>cs_kern := ?k, cs_loose := cs_loose bound_state \<union> {}\<rparr>)"
    by (rule reach_step)
  then show ?thesis by (simp add: loaded_def)
qed

lemma loaded_recv:
  "recv_now True meet_net 9 [0, 0, 0] 64 (cs_kern loaded) =
     (Inr (Returned (\<lparr>rc_bytes = 2, rc_fds = [10, 11], rc_creds = None\<rparr>, [104, 105, 0])),
      \<lparr>mk_tab = [(10, 70), (11, 77), (5, 70), (9, 90)], mk_wait = [], mk_conns = [], mk_peers = []\<rparr>)"
  by (simp add: loaded_def recv_now_def io_defs meet_defs overwrite_def upt_rec Let_def)

theorem received_capabilities_lead_there_witness:
  "case promote meet_net None sample_alloc [10, 11]
      (cs_caps loaded, \<lparr>mk_tab = [(10, 70), (11, 77), (5, 70), (9, 90)], mk_wait = [], mk_conns = [], mk_peers = []\<rparr>) of
   (rs, c', k') \<Rightarrow> map (\<lambda>r. meet_obj k' (ref_borrowed_fd (cp_heap c') r)) rs = [Some 70, Some 77]"
proof -
  let ?k = "\<lparr>mk_tab = [(10, 70), (11, 77), (5, 70), (9, 90)], mk_wait = [], mk_conns = [], mk_peers = []\<rparr>"
  obtain rs c' k' where run: "promote meet_net None sample_alloc [10, 11] (cs_caps loaded, ?k) = (rs, (c', k'))"
    by (metis prod.exhaust)
  have "meet_wait (cs_kern loaded) 90 = [([104, 105], [70, 77])]" by (simp add: loaded_def meet_wait_def)
  moreover have "meet_obj (cs_kern loaded) 9 = Some 90" by (simp add: loaded_def meet_obj_def table_obj_def)
  ultimately have "map (\<lambda>r. meet_obj k' (ref_borrowed_fd (cp_heap c') r)) rs = [Some 70, Some 77]"
    using received_capabilities_lead_there [OF meet_law meet_queue_law meet_datagram_law sample_alloc_fresh loaded_reach
        _ loaded_recv, of 90 None rs c' k'] run
    by (auto simp: received_truncated_def list_all2_Cons2 length_Suc_conv numeral_2_eq_2)
  then show ?thesis unfolding run by simp
qed

end
