(* ===== verification/Ipc_Stats.thy ===== *)
theory Ipc_Stats
  imports Complex_Main "HOL-Library.Multiset" Ipc_Cli Ipc_Measure
begin

text \<open>
  What the benchmarks make of their samples: the percentiles of \<^verbatim>\<open>bench.rs\<close>, \<^verbatim>\<open>paced.rs\<close>,
  \<^verbatim>\<open>fdcost.rs\<close> and \<^verbatim>\<open>timeline.rs\<close>, the histogram and the rate of \<^verbatim>\<open>bench.rs\<close>, and its account of
  processor time. Double-precision numbers are an abstract type \<open>'f\<close> with the operations the
  code calls; a property that depends on their values names the laws it needs.
\<close>

section \<open>Double-precision arithmetic\<close>

text \<open>
  \<open>f_lit\<close> is a literal, \<open>f_of\<close> an integer \<^verbatim>\<open>as f64\<close>, \<open>f_usize\<close> and \<open>f_isize\<close> the saturating \<^verbatim>\<open>as\<close>
  back, \<open>f_show1\<close> the format \<^verbatim>\<open>{:.1}\<close>.
\<close>

record 'f f64_ops =
  f_lit :: "rat \<Rightarrow> 'f"
  f_of :: "nat \<Rightarrow> 'f"
  f_sub :: "'f \<Rightarrow> 'f \<Rightarrow> 'f"
  f_mul :: "'f \<Rightarrow> 'f \<Rightarrow> 'f"
  f_div :: "'f \<Rightarrow> 'f \<Rightarrow> 'f"
  f_max :: "'f \<Rightarrow> 'f \<Rightarrow> 'f"
  f_log :: "'f \<Rightarrow> 'f \<Rightarrow> 'f"
  f_powi :: "'f \<Rightarrow> nat \<Rightarrow> 'f"
  f_sqrt2 :: 'f
  f_round :: "'f \<Rightarrow> 'f"
  f_floor :: "'f \<Rightarrow> 'f"
  f_ceil :: "'f \<Rightarrow> 'f"
  f_ge :: "'f \<Rightarrow> 'f \<Rightarrow> bool"
  f_usize :: "'f \<Rightarrow> u64"
  f_isize :: "'f \<Rightarrow> 64 word"
  f_show1 :: "'f \<Rightarrow> string"

text \<open>A sample of nanoseconds in microseconds.\<close>

definition micros :: "'f f64_ops \<Rightarrow> u64 \<Rightarrow> 'f" where
  "micros F s = f_div F (f_of F (unat s)) (f_lit F 1000)"

section \<open>Percentiles\<close>

record 'f fdcost_stats =
  st_p50 :: 'f
  st_p90 :: 'f
  st_p99 :: 'f
  st_mean :: 'f

record 'f timeline_stats = "'f fdcost_stats" +
  st_max :: 'f

record 'f paced_stats = "'f timeline_stats" +
  st_p999 :: 'f

record 'f bench_stats = "'f paced_stats" +
  st_samples :: "u64 list"

text \<open>
  \<^verbatim>\<open>None\<close> is a panic: an index out of range, the \<^verbatim>\<open>unwrap\<close> of the last of no samples, or, in a
  debug build, a sum that overflows.
\<close>

definition percentile :: "'f f64_ops \<Rightarrow> u64 list \<Rightarrow> rat \<Rightarrow> 'f option" where
  "percentile F samples q =
     (let i = f_usize F (f_round F (f_mul F (f_sub F (f_of F (length samples)) (f_lit F 1)) (f_lit F q)))
      in map_option (micros F) (list_get (unat i) samples))"

definition sum_samples :: "bool \<Rightarrow> u64 list \<Rightarrow> u64 option" where
  "sum_samples debug samples =
     (if debug \<and> 2 ^ 64 \<le> sum_list (map unat samples) then None else Some (sum_list samples))"

definition mean_micros :: "'f f64_ops \<Rightarrow> bool \<Rightarrow> u64 list \<Rightarrow> 'f option" where
  "mean_micros F debug samples =
     map_option (\<lambda>n. f_div F (f_div F (f_of F (unat n)) (f_of F (length samples))) (f_lit F 1000)) (sum_samples debug samples)"

definition max_micros :: "'f f64_ops \<Rightarrow> u64 list \<Rightarrow> 'f option" where
  "max_micros F samples = (if samples = [] then None else Some (micros F (last samples)))"

definition fdcost_summarize :: "'f f64_ops \<Rightarrow> bool \<Rightarrow> u64 list \<Rightarrow> 'f fdcost_stats option" where
  "fdcost_summarize F debug samples =
     (let s = sort samples
      in case (percentile F s 0.5, percentile F s 0.9, percentile F s 0.99, mean_micros F debug s) of
           (Some a, Some b, Some c, Some m) \<Rightarrow> Some \<lparr>st_p50 = a, st_p90 = b, st_p99 = c, st_mean = m\<rparr>
         | _ \<Rightarrow> None)"

definition timeline_summarize :: "'f f64_ops \<Rightarrow> bool \<Rightarrow> u64 list \<Rightarrow> 'f timeline_stats option" where
  "timeline_summarize F debug samples =
     (let s = sort samples
      in case (percentile F s 0.5, percentile F s 0.9, percentile F s 0.99, max_micros F s, mean_micros F debug s) of
           (Some a, Some b, Some c, Some l, Some m) \<Rightarrow>
             Some \<lparr>st_p50 = a, st_p90 = b, st_p99 = c, st_mean = m, st_max = l\<rparr>
         | _ \<Rightarrow> None)"

definition paced_summarize :: "'f f64_ops \<Rightarrow> bool \<Rightarrow> u64 list \<Rightarrow> 'f paced_stats option" where
  "paced_summarize F debug samples =
     (let s = sort samples
      in case (percentile F s 0.5, percentile F s 0.9, percentile F s 0.99, percentile F s 0.999,
               max_micros F s, mean_micros F debug s) of
           (Some a, Some b, Some c, Some d, Some l, Some m) \<Rightarrow>
             Some \<lparr>st_p50 = a, st_p90 = b, st_p99 = c, st_mean = m, st_max = l, st_p999 = d\<rparr>
         | _ \<Rightarrow> None)"

definition bench_summarize :: "'f f64_ops \<Rightarrow> bool \<Rightarrow> u64 list \<Rightarrow> 'f bench_stats option" where
  "bench_summarize F debug samples =
     (let s = sort samples
      in case (mean_micros F debug s, percentile F s 0.5, percentile F s 0.9, percentile F s 0.99,
               percentile F s 0.999, max_micros F s) of
           (Some m, Some a, Some b, Some c, Some d, Some l) \<Rightarrow>
             Some \<lparr>st_p50 = a, st_p90 = b, st_p99 = c, st_mean = m, st_max = l, st_p999 = d, st_samples = s\<rparr>
         | _ \<Rightarrow> None)"

section \<open>The histogram\<close>

text \<open>Buckets from the fastest sample up; \<^verbatim>\<open>+ 1\<close> after a saturated \<^verbatim>\<open>as usize\<close> overflows.\<close>

definition hist_low :: "'f f64_ops \<Rightarrow> u64 list \<Rightarrow> 'f" where
  "hist_low F samples = f_max F (micros F (hd samples)) (f_lit F 0.1)"

definition hist_buckets :: "'f f64_ops \<Rightarrow> bool \<Rightarrow> u64 list \<Rightarrow> u64 option" where
  "hist_buckets F debug samples =
     (let lo = hist_low F samples;
          hi = f_max F (micros F (last samples)) (f_mul F lo (f_lit F 1.001));
          n = f_usize F (f_ceil F (f_log F (f_div F hi lo) (f_sqrt2 F)))
      in if debug \<and> n = - 1 then None else Some (clamp 1 24 (n + 1)))"

definition hist_index :: "'f f64_ops \<Rightarrow> 'f \<Rightarrow> u64 \<Rightarrow> u64 \<Rightarrow> nat" where
  "hist_index F lo buckets s =
     nat (min (max (sint (f_isize F (f_floor F (f_log F (f_div F (micros F s) lo) (f_sqrt2 F))))) 0) (sint buckets - 1))"

fun hist_counts :: "'f f64_ops \<Rightarrow> 'f \<Rightarrow> u64 \<Rightarrow> u64 list \<Rightarrow> nat list \<Rightarrow> nat list option" where
  "hist_counts F lo buckets [] counts = Some counts"
| "hist_counts F lo buckets (s # ss) counts =
     (let i = hist_index F lo buckets s
      in if i < length counts then hist_counts F lo buckets ss (counts[i := counts ! i + 1]) else None)"

text \<open>A row: the edges, the length of the bar, the count and its share. No samples print nothing.\<close>

record 'f hist_row =
  hr_edge :: 'f
  hr_next :: 'f
  hr_bar :: nat
  hr_count :: nat
  hr_share :: 'f

definition hist_bar :: "nat \<Rightarrow> nat \<Rightarrow> nat" where
  "hist_bar peak n = (if n = 0 then 0 else max (n * 44 div peak) 1)"

definition histogram :: "'f f64_ops \<Rightarrow> bool \<Rightarrow> u64 list \<Rightarrow> 'f hist_row list option" where
  "histogram F debug samples =
     (if samples = [] then Some []
      else case hist_buckets F debug samples of None \<Rightarrow> None
        | Some buckets \<Rightarrow>
            (case hist_counts F (hist_low F samples) buckets samples (replicate (unat buckets) 0) of None \<Rightarrow> None
             | Some counts \<Rightarrow>
                 (let peak = max (fold max counts 0) 1; total = f_of F (length samples)
                  in Some (map (\<lambda>(i, n). let edge = f_mul F (hist_low F samples) (f_powi F (f_sqrt2 F) i)
                       in \<lparr>hr_edge = edge, hr_next = f_mul F edge (f_sqrt2 F), hr_bar = hist_bar peak n, hr_count = n,
                           hr_share = f_mul F (f_div F (f_of F n) total) (f_lit F 100)\<rparr>)
                       (enumerate 0 counts)))))"

section \<open>Rates, thresholds and processor time\<close>

definition UNITS :: "string list" where
  "UNITS = [''B/s'', ''KiB/s'', ''MiB/s'', ''GiB/s'']"

function bytes_unit :: "'f f64_ops \<Rightarrow> 'f \<Rightarrow> nat \<Rightarrow> 'f \<times> nat" where
  "bytes_unit F v i =
     (if f_ge F v (f_lit F 1024) \<and> i < length UNITS - 1 then bytes_unit F (f_div F v (f_lit F 1024)) (i + 1) else (v, i))"
  by pat_completeness auto
termination by (relation "measure (\<lambda>(F, v, i). length UNITS - 1 - i)") auto

declare bytes_unit.simps [simp del]

definition fmt_bytes_per_sec :: "'f f64_ops \<Rightarrow> 'f \<Rightarrow> string option" where
  "fmt_bytes_per_sec F b =
     (case bytes_unit F b 0 of (v, i) \<Rightarrow> map_option (\<lambda>u. f_show1 F v @ '' '' @ u) (list_get i UNITS))"

text \<open>The watchdog of a run: it trips at 80% of the descriptor limit.\<close>

definition FD_WARN_FRACTION :: rat where
  "FD_WARN_FRACTION = 0.8"

definition fd_watch_new :: "'f f64_ops \<Rightarrow> u64 \<Rightarrow> 't fd_watch" where
  "fd_watch_new F limit =
     \<lparr>fw_threshold = f_usize F (f_mul F (f_of F (unat limit)) (f_lit F FD_WARN_FRACTION)),
      fw_peak_self = 0, fw_peak_child = 0, fw_tripped = False, fw_timeline = None\<rparr>"

text \<open>\<^verbatim>\<open>cpu_seconds\<close> of a \<^verbatim>\<open>stat\<close> line, if it could be read; \<open>tck\<close> is \<^verbatim>\<open>clk_tck()\<close>.\<close>

definition cpu_seconds :: "'f f64_ops \<Rightarrow> 'f \<Rightarrow> string option \<Rightarrow> 'f option" where
  "cpu_seconds F tck stat = map_option (\<lambda>t. f_div F (f_of F (unat t)) tck) (Option.bind stat cpu_ticks)"

definition cpu_or_zero :: "'f f64_ops \<Rightarrow> 'f \<Rightarrow> string option \<Rightarrow> 'f" where
  "cpu_or_zero F tck stat = (case cpu_seconds F tck stat of None \<Rightarrow> f_lit F 0 | Some x \<Rightarrow> x)"

record 'f meter =
  mt_t0 :: nat
  mt_c0 :: 'f
  mt_s0 :: 'f

record 'f usage =
  us_client_cpu :: 'f
  us_server_cpu :: 'f
  us_wall :: 'f

definition meter_start :: "'f f64_ops \<Rightarrow> 'f \<Rightarrow> nat \<Rightarrow> string option \<Rightarrow> string option \<Rightarrow> 'f meter" where
  "meter_start F tck now self child = \<lparr>mt_t0 = now, mt_c0 = cpu_or_zero F tck self, mt_s0 = cpu_or_zero F tck child\<rparr>"

text \<open>\<^verbatim>\<open>as_secs_f64\<close> of the nanoseconds that have passed.\<close>

definition meter_stop :: "'f f64_ops \<Rightarrow> (nat \<Rightarrow> 'f) \<Rightarrow> 'f \<Rightarrow> nat \<Rightarrow> string option \<Rightarrow> string option \<Rightarrow> 'f meter \<Rightarrow> 'f usage" where
  "meter_stop F as_secs tck now self child m =
     \<lparr>us_client_cpu = f_sub F (cpu_or_zero F tck self) (mt_c0 m),
      us_server_cpu = f_sub F (cpu_or_zero F tck child) (mt_s0 m), us_wall = as_secs (now - mt_t0 m)\<rparr>"

section \<open>Lemmas\<close>

text \<open>
  What the summaries need of the arithmetic, for integers below two to the 53rd, which a double
  holds exactly: one less than \<open>n\<close> and \<open>n\<close> times one are exact, a product with a larger factor
  is not smaller, rounding and the way back to an integer keep the order and whole numbers, and
  conversion and division by a thousand keep the order.
\<close>

definition f64_law :: "'f f64_ops \<Rightarrow> ('f \<Rightarrow> 'f \<Rightarrow> bool) \<Rightarrow> bool" where
  "f64_law F le \<longleftrightarrow>
     (\<forall>n. 0 < n \<and> n < 2 ^ 53 \<longrightarrow> f_sub F (f_of F n) (f_lit F 1) = f_of F (n - 1)) \<and>
     (\<forall>n. f_mul F (f_of F n) (f_lit F 1) = f_of F n) \<and>
     (\<forall>n p q. 0 \<le> p \<and> p \<le> q \<longrightarrow> le (f_mul F (f_of F n) (f_lit F p)) (f_mul F (f_of F n) (f_lit F q))) \<and>
     (\<forall>x y. le x y \<longrightarrow> f_usize F (f_round F x) \<le> f_usize F (f_round F y)) \<and>
     (\<forall>n < 2 ^ 53. unat (f_usize F (f_round F (f_of F n))) = n) \<and>
     (\<forall>m n. m \<le> n \<longrightarrow> le (f_div F (f_of F m) (f_lit F 1000)) (f_div F (f_of F n) (f_lit F 1000)))"

text \<open>The rank that a percentile reads.\<close>

definition rank :: "'f f64_ops \<Rightarrow> nat \<Rightarrow> rat \<Rightarrow> nat" where
  "rank F n q = unat (f_usize F (f_round F (f_mul F (f_sub F (f_of F n) (f_lit F 1)) (f_lit F q))))"

lemma percentile_rank: "percentile F s q = map_option (micros F) (list_get (rank F (length s) q) s)"
  by (simp add: percentile_def rank_def Let_def)

lemma rank_mono:
  assumes "f64_law F le" and "0 < n" "n < 2 ^ 53" and "0 \<le> p" "p \<le> q"
  shows "rank F n p \<le> rank F n q"
  using assms by (simp add: f64_law_def rank_def word_le_nat_alt)

lemma rank_top:
  assumes "f64_law F le" and "0 < n" "n < 2 ^ 53"
  shows "rank F n 1 = n - 1"
  using assms by (simp add: f64_law_def rank_def)

lemma rank_below:
  assumes "f64_law F le" and "0 < n" "n < 2 ^ 53" and "0 \<le> p" "p \<le> 1"
  shows "rank F n p < n"
  using rank_mono [OF assms] rank_top [OF assms(1-3)] assms(2) by linarith

lemma micros_mono: "f64_law F le \<Longrightarrow> s \<le> t \<Longrightarrow> le (micros F s) (micros F t)"
  by (simp add: f64_law_def micros_def word_le_nat_alt)

lemma nth_sorted_micros:
  "f64_law F le \<Longrightarrow> i \<le> j \<Longrightarrow> j < length s \<Longrightarrow> le (micros F (sort s ! i)) (micros F (sort s ! j))"
  by (rule micros_mono [where F = F and le = le]) (simp_all add: sorted_nth_mono)

lemma sort_nil: "sort xs = [] \<longleftrightarrow> xs = []"
  by (metis length_0_conv length_sort)

lemma sum_sorted: "sum_list (map f (sort xs)) = (sum_list (map f xs) :: nat)"
  by (metis mset_map mset_sort sum_mset_sum_list)

lemma summaries_agree:
  assumes "f64_law F le" and n: "length samples < 2 ^ 53"
  shows "fdcost_summarize F debug samples = map_option fdcost_stats.truncate (bench_summarize F debug samples)"
    and "timeline_summarize F debug samples = map_option timeline_stats.truncate (bench_summarize F debug samples)"
    and "paced_summarize F debug samples = map_option paced_stats.truncate (bench_summarize F debug samples)"
    and "bench_summarize F debug samples =
      (if samples = [] then None else map_option (\<lambda>m. (let pc = (\<lambda>q. micros F (sort samples ! rank F (length samples) q)) in
        \<lparr>st_p50 = pc 0.5, st_p90 = pc 0.9, st_p99 = pc 0.99, st_mean = m, st_max = pc 1, st_p999 = pc 0.999,
         st_samples = sort samples\<rparr>)) (mean_micros F debug (sort samples)))"
proof -
  have pc: "percentile F (sort samples) q = (if samples = [] then None
      else Some (micros F (sort samples ! rank F (length samples) q)))" if "0 \<le> q" "q \<le> 1" for q
    using rank_below [OF assms(1) _ n that] by (simp add: percentile_rank list_get_def)
  have "max_micros F (sort samples) = percentile F (sort samples) 1"
    using rank_top [OF assms(1) _ n] by (simp add: pc max_micros_def last_conv_nth sort_nil)
  note defs = this fdcost_summarize_def timeline_summarize_def paced_summarize_def bench_summarize_def Let_def
    fdcost_stats.truncate_def timeline_stats.truncate_def paced_stats.truncate_def
  show "fdcost_summarize F debug samples = map_option fdcost_stats.truncate (bench_summarize F debug samples)"
    by (cases "mean_micros F debug (sort samples)") (simp_all add: defs pc)
  show "timeline_summarize F debug samples = map_option timeline_stats.truncate (bench_summarize F debug samples)"
    by (cases "mean_micros F debug (sort samples)") (simp_all add: defs pc)
  show "paced_summarize F debug samples = map_option paced_stats.truncate (bench_summarize F debug samples)"
    by (cases "mean_micros F debug (sort samples)") (simp_all add: defs pc)
  show "bench_summarize F debug samples =
      (if samples = [] then None else map_option (\<lambda>m. (let pc = (\<lambda>q. micros F (sort samples ! rank F (length samples) q)) in
        \<lparr>st_p50 = pc 0.5, st_p90 = pc 0.9, st_p99 = pc 0.99, st_mean = m, st_max = pc 1, st_p999 = pc 0.999,
         st_samples = sort samples\<rparr>)) (mean_micros F debug (sort samples)))"
    by (cases "mean_micros F debug (sort samples)") (simp_all add: defs pc)
qed

section \<open>Properties\<close>


text \<open>Exact arithmetic keeps the laws; its logarithm is not used by the summaries.\<close>

definition exact_round :: "rat \<Rightarrow> rat" where
  "exact_round x = (if 0 \<le> x then of_int \<lfloor>x + 1 / 2\<rfloor> else - of_int \<lfloor>1 / 2 - x\<rfloor>)"

definition exact_usize :: "rat \<Rightarrow> u64" where
  "exact_usize x = of_nat (min (nat \<lfloor>x\<rfloor>) (2 ^ 64 - 1))"

definition exact_f64 :: "rat f64_ops" where
  "exact_f64 = \<lparr>f_lit = (\<lambda>q. q), f_of = of_nat, f_sub = (-), f_mul = (*), f_div = (/), f_max = max,
     f_log = (\<lambda>x b. x - 1), f_powi = (^), f_sqrt2 = 7 / 5, f_round = exact_round,
     f_floor = (\<lambda>x. of_int \<lfloor>x\<rfloor>), f_ceil = (\<lambda>x. of_int \<lceil>x\<rceil>), f_ge = (\<ge>), f_usize = exact_usize,
     f_isize = (\<lambda>x. of_int (max (- (2 ^ 63)) (min \<lfloor>x\<rfloor> (2 ^ 63 - 1)))), f_show1 = (\<lambda>x. show_nat (nat \<lfloor>x\<rfloor>))\<rparr>"

lemma exact_usize_mono: "x \<le> y \<Longrightarrow> exact_usize x \<le> exact_usize y"
proof -
  assume "x \<le> y"
  then have "min (nat \<lfloor>x\<rfloor>) (2 ^ 64 - 1) \<le> min (nat \<lfloor>y\<rfloor>) (2 ^ 64 - 1)"
    by (intro min.mono nat_mono floor_mono) simp_all
  then show ?thesis
    unfolding exact_usize_def word_le_nat_alt by (simp add: unat_of_nat del: min.bounded_iff)
qed

lemma exact_round_mono: "x \<le> y \<Longrightarrow> exact_round x \<le> exact_round y"
proof -
  assume xy: "x \<le> y"
  consider "0 \<le> x" | "x < 0" "0 \<le> y" | "y < 0" by linarith
  then show ?thesis
  proof cases
    case 1
    with xy show ?thesis by (simp add: exact_round_def floor_mono)
  next
    case 2
    then have "0 \<le> \<lfloor>1 / 2 - x\<rfloor>" "0 \<le> \<lfloor>y + 1 / 2\<rfloor>" by (simp_all add: zero_le_floor)
    with 2 show ?thesis unfolding exact_round_def by (simp del: zero_le_floor)
  next
    case 3
    with xy show ?thesis by (simp add: exact_round_def floor_mono)
  qed
qed

lemma exact_law: "f64_law exact_f64 (\<le>)"
proof -
  have "exact_round (of_nat n) = of_nat n" for n
  proof -
    have "\<lfloor>of_nat n + 1 / 2 :: rat\<rfloor> = int n" by (rule floor_unique) simp_all
    then show ?thesis by (simp add: exact_round_def)
  qed
  moreover have "unat (exact_usize (of_nat n)) = n" if "n < 2 ^ 53" for n
    using that by (simp add: exact_usize_def unat_of_nat)
  moreover have "f_sub exact_f64 (f_of exact_f64 n) (f_lit exact_f64 1) = f_of exact_f64 (n - 1)" if "0 < n" for n
    using that by (simp add: exact_f64_def of_nat_diff)
  ultimately show ?thesis
    unfolding f64_law_def
    by (auto simp: exact_f64_def exact_usize_mono exact_round_mono mult_left_mono divide_right_mono)
qed


section \<open>The histogram keeps every sample\<close>

lemma small_sint: "b \<le> (24 :: u64) \<Longrightarrow> sint b = int (unat b)"
proof -
  assume "b \<le> 24"
  then have le: "uint b \<le> 24" by (simp add: word_le_def)
  have "- (2 ^ (LENGTH(64) - Suc 0)) \<le> uint b" by (rule order_trans [OF _ uint_ge_0]) simp
  moreover have "uint b < 2 ^ (LENGTH(64) - Suc 0)" by (rule le_less_trans [OF le]) simp
  ultimately have "sint b = uint b" unfolding sint_uint by (rule signed_take_bit_int_eq_self)
  then show ?thesis by simp
qed

lemma hist_index_below: "1 \<le> b \<Longrightarrow> b \<le> 24 \<Longrightarrow> hist_index F lo b s < unat b"
proof -
  assume "1 \<le> b" "b \<le> 24"
  then have "0 < unat b" "sint b = int (unat b)" using small_sint by (simp_all add: word_le_nat_alt)
  then show ?thesis unfolding hist_index_def by (simp only: nat_less_iff)
qed

lemma clamp_range: "lo \<le> hi \<Longrightarrow> lo \<le> clamp lo hi x \<and> clamp lo hi x \<le> hi"
  by (auto simp: clamp_def)

lemma hist_buckets_range: "hist_buckets F debug samples = Some b \<Longrightarrow> 1 \<le> b \<and> b \<le> 24"
  using clamp_range [of 1 24] by (auto simp: hist_buckets_def Let_def split: if_splits)

text \<open>More than 24 buckets up, a sample is counted in the last row, whatever edges are printed for it.\<close>

lemma tail_falls_into_the_last_row:
  assumes "hist_buckets F debug samples = Some b"
    and "24 \<le> sint (f_isize F (f_floor F (f_log F (f_div F (micros F s) (hist_low F samples)) (f_sqrt2 F))))"
  shows "hist_index F (hist_low F samples) b s = unat b - 1"
proof -
  have b: "1 \<le> b" "b \<le> 24" using hist_buckets_range [OF assms(1)] by auto
  then have "sint b = int (unat b)" "unat b \<le> 24" "0 < unat b" using small_sint by (simp_all add: word_le_nat_alt)
  then show ?thesis unfolding hist_index_def using assms(2) by (simp only:)
qed

lemma hist_counts_all:
  "1 \<le> b \<Longrightarrow> b \<le> 24 \<Longrightarrow> length counts = unat b \<Longrightarrow>
   \<exists>counts'. hist_counts F lo b ss counts = Some counts' \<and> length counts' = unat b \<and>
     sum_list counts' = sum_list counts + length ss"
proof (induction ss arbitrary: counts)
  case (Cons s ss)
  let ?i = "hist_index F lo b s"
  have i: "?i < length counts" using hist_index_below [OF Cons.prems(1,2)] Cons.prems(3) by simp
  moreover have "counts ! ?i \<le> sum_list counts" using i by (rule elem_le_sum_list)
  ultimately show ?case using Cons.IH [of "counts[?i := counts ! ?i + 1]"] Cons.prems by (simp add: Let_def sum_list_update)
qed simp

lemma fold_max: "n \<in> set ns \<Longrightarrow> n \<le> fold max ns (m :: nat)" "m \<le> fold max ns m" "fold max ns m \<in> insert m (set ns)"
proof (induction ns arbitrary: m)
  case (Cons x ns)
  { case 1
    with Cons.IH(1) [of "max x m"] Cons.IH(2) [of "max x m"] show ?case by auto }
  { case 2
    with Cons.IH(2) [of "max x m"] show ?case by simp }
  { case 3
    with Cons.IH(3) [of "max x m"] show ?case by (auto simp: max_def split: if_splits) }
qed simp_all

lemma hist_bar_bounds: "n \<le> p \<Longrightarrow> hist_bar (max p 1) n \<le> 44 \<and> (hist_bar (max p 1) n = 0 \<longleftrightarrow> n = 0)"
proof -
  assume "n \<le> p"
  then have "n * 44 div max p 1 \<le> max p 1 * 44 div max p 1" by (intro div_le_mono) simp
  also have "\<dots> = 44" by (rule nonzero_mult_div_cancel_left) simp
  finally show ?thesis by (auto simp: hist_bar_def)
qed

text \<open>The histogram shows every sample, whatever the arithmetic. Its only panic is that of a
  debug build when the number of buckets saturates; otherwise no index is out of range, there are
  at most 24 rows, their counts add up to the number of samples, no bar is longer than the 44
  columns, exactly the empty buckets have none, and the fullest one has all of them.\<close>

theorem histogram_counts_everything:
  "case histogram F debug samples of
     None \<Rightarrow> samples \<noteq> [] \<and> hist_buckets F debug samples = None \<and> debug
   | Some rows \<Rightarrow> length rows \<le> 24 \<and> sum_list (map hr_count rows) = length samples \<and>
       list_all (\<lambda>r. hr_bar r \<le> 44 \<and> (hr_bar r = 0 \<longleftrightarrow> hr_count r = 0)) rows \<and>
       (samples = [] \<or> list_ex (\<lambda>r. hr_bar r = 44) rows)"
proof (cases "samples = [] \<or> hist_buckets F debug samples = None")
  case True
  then show ?thesis by (auto simp: histogram_def hist_buckets_def Let_def split: if_splits)
next
  case False
  then obtain b where b: "hist_buckets F debug samples = Some b" by auto
  note r = hist_buckets_range [OF this]
  from hist_counts_all [OF conjunct1 [OF r] conjunct2 [OF r],
      where counts = "replicate (unat b) 0" and F = F and lo = "hist_low F samples" and ss = samples] obtain counts where
    c: "hist_counts F (hist_low F samples) b samples (replicate (unat b) 0) = Some counts" "length counts = unat b"
      "sum_list counts = length samples" by (auto simp: sum_list_replicate)
  let ?peak = "fold max counts 0"
  have "?peak \<noteq> 0"
  proof
    assume "?peak = 0"
    then have "sum_list counts = 0" using fold_max(1) [of _ counts 0] by (simp add: sum_list_eq_0_iff)
    with c(3) False show False by simp
  qed
  moreover from this have "?peak \<in> set counts" using fold_max(3) [of counts 0] by simp
  ultimately have full: "hist_bar (max ?peak 1) ?peak = 44" "?peak \<in> set counts" by (simp_all add: hist_bar_def max_def)
  have "unat b \<le> 24" using r by (simp add: word_le_nat_alt)
  moreover have "hist_bar (max ?peak 1) n \<le> 44 \<and> (hist_bar (max ?peak 1) n = 0 \<longleftrightarrow> n = 0)" if "n \<in> set counts" for n
    using hist_bar_bounds [OF fold_max(1) [OF that]] .
  moreover obtain rows where rows: "histogram F debug samples = Some rows" "map hr_count rows = counts"
    "\<forall>r \<in> set rows. hr_bar r = hist_bar (max ?peak 1) (hr_count r)"
    using False b c by (simp add: histogram_def Let_def case_prod_beta comp_def map_snd_enumerate [unfolded comp_def])
  moreover from rows(2) have "set counts = hr_count ` set rows" "length rows = length counts" by auto
  ultimately show ?thesis using c(2,3) full by (auto simp: list_all_iff list_ex_iff)
qed

end
