(* ===== verification/Ipc_Frames.thy ===== *)
theory Ipc_Frames
  imports Ipc_Stats Ipc_Paced Ipc_Timeline
begin

text \<open>
  Whole runs of \<^verbatim>\<open>examples/paced.rs\<close> and \<^verbatim>\<open>examples/timeline.rs\<close>: the warm-up, the frames against
  absolute deadlines, and the report made of their logs.
\<close>

section \<open>Warming up\<close>

text \<open>
  Each round stamps the sequence number into the payload (a panic when it has no room), sends it
  and waits, whatever comes of either. The result is what the frames start with, and the
  payloads handed to the transport.
\<close>

definition paced_stamp :: "u64 \<Rightarrow> u8 list \<Rightarrow> u8 list option" where
  "paced_stamp seq payload = copy_into 0 (to_le_bytes seq) payload"

fun paced_warm :: "nat \<Rightarrow> u64 \<Rightarrow> u8 list \<Rightarrow> u8 list list \<Rightarrow> (u64 \<times> u8 list \<times> u8 list list) outcome" where
  "paced_warm 0 seq payload sent = Returned (seq, payload, sent)"
| "paced_warm (Suc n) seq payload sent =
     (case paced_stamp seq payload of None \<Rightarrow> Panicked
      | Some p \<Rightarrow> paced_warm n (seq + 1) p (sent @ [p]))"

text \<open>With the replies that reach the channel in each round: a wait takes the oldest.\<close>

fun timeline_warm ::
  "stamps list list \<Rightarrow> stamps list \<Rightarrow> u64 \<Rightarrow> u8 list \<Rightarrow> u8 list list \<Rightarrow> (stamps list \<times> u64 \<times> u8 list \<times> u8 list list) outcome" where
  "timeline_warm [] q seq buf sent = Returned (q, seq, buf, sent)"
| "timeline_warm (arrivals # rounds) q seq buf sent =
     (case stamp_put 0 seq buf of None \<Rightarrow> Panicked
      | Some b \<Rightarrow> timeline_warm rounds (tl (q @ arrivals)) (seq + 1) b (sent @ [b]))"

section \<open>The frames\<close>

definition paced_log_new :: "u64 \<Rightarrow> paced_log" where
  "paced_log_new seq =
     \<lparr>pc_msg_ns = [], pc_burst_ns = [], pc_wake_ns = [], pc_late_frames = 0, pc_lost = 0, pc_seq = seq, pc_sent_at = Map.empty\<rparr>"

text \<open>The deadline of a tick is counted from the start; \<open>scale\<close> is \<^verbatim>\<open>period.mul_f64\<close>.\<close>

fun paced_frames ::
  "bool \<Rightarrow> nat \<Rightarrow> nat \<Rightarrow> (nat \<Rightarrow> nat) \<Rightarrow> nat \<Rightarrow> nat \<Rightarrow> frame_input list \<Rightarrow> paced_log \<Rightarrow> paced_log" where
  "paced_frames sequential burst period scale start tick [] l = l"
| "paced_frames sequential burst period scale start tick (x # xs) l =
     paced_frames sequential burst period scale start (tick + 1) xs
       (paced_frame sequential burst period (x\<lparr>fi_deadline := start + scale tick\<rparr>) l)"

definition paced_run ::
  "bool \<Rightarrow> nat \<Rightarrow> nat \<Rightarrow> (nat \<Rightarrow> nat) \<Rightarrow> nat \<Rightarrow> u8 list \<Rightarrow> frame_input list \<Rightarrow> paced_log outcome" where
  "paced_run sequential burst period scale start payload xs =
     (case paced_warm 200 0 payload [] of Panicked \<Rightarrow> Panicked
      | Returned (seq, _) \<Rightarrow> Returned (paced_frames sequential burst period scale start 0 xs (paced_log_new seq)))"

text \<open>The channel is drained before the first frame, of what has arrived by then.\<close>

definition timeline_run :: "stamps list list \<Rightarrow> u8 list \<Rightarrow> attempt list list \<Rightarrow> timeline_log outcome" where
  "timeline_run rounds buf bursts =
     (case timeline_warm rounds [] 0 buf [] of Panicked \<Rightarrow> Panicked
      | Returned (_, seq, _) \<Rightarrow> Returned (snd (timeline_frames bursts ([], timeline_log_new seq))))"

section \<open>The reports\<close>

text \<open>Nothing is summarised when nothing came back. \<^verbatim>\<open>None\<close> is a panic.\<close>

definition paced_report ::
  "'f f64_ops \<Rightarrow> bool \<Rightarrow> paced_log \<Rightarrow> ('f paced_stats \<times> 'f paced_stats \<times> 'f paced_stats) option option" where
  "paced_report F debug l =
     (if pc_msg_ns l = [] then Some None
      else (case (paced_summarize F debug (pc_msg_ns l), paced_summarize F debug (pc_burst_ns l),
                  paced_summarize F debug (pc_wake_ns l)) of
              (Some msgs, Some bursts, Some wakes) \<Rightarrow> Some (Some (msgs, bursts, wakes))
            | _ \<Rightarrow> None))"

text \<open>The whole, and each section with its share of the median.\<close>

definition timeline_report ::
  "'f f64_ops \<Rightarrow> bool \<Rightarrow> timeline_log \<Rightarrow> ('f timeline_stats \<times> ('f timeline_stats \<times> 'f) list) option option" where
  "timeline_report F debug l =
     (if tl_total l = [] then Some None
      else (case timeline_summarize F debug (tl_total l) of None \<Rightarrow> None
            | Some t \<Rightarrow>
                map_option (\<lambda>rows. Some (t, map (\<lambda>s. (s, f_mul F (f_div F (st_p50 s) (st_p50 t)) (f_lit F 100))) rows))
                  (those (map (timeline_summarize F debug) [tl_a l, tl_b l, tl_c l, tl_d l]))))"

section \<open>Lemmas\<close>

lemma paced_warm_ok:
  "SEQ_BYTES \<le> length payload \<Longrightarrow> \<exists>p sent'. paced_warm n seq payload sent = Returned (seq + of_nat n, p, sent @ sent') \<and>
     map (\<lambda>d. from_le_bytes (take SEQ_BYTES d) :: u64) sent' = map (\<lambda>i. seq + of_nat i) [0 ..< n]"
proof (induction n arbitrary: seq payload sent)
  case (Suc n)
  let ?p = "to_le_bytes seq @ drop 8 payload"
  have len: "length (to_le_bytes seq) = 8" by (simp add: to_le_bytes_def)
  with Suc.prems have p: "paced_stamp seq payload = Some ?p" by (simp add: paced_stamp_def copy_into_def SEQ_BYTES_def)
  have "SEQ_BYTES \<le> length ?p" using Suc.prems len by (simp add: SEQ_BYTES_def)
  from Suc.IH [OF this, of "seq + 1" "sent @ [?p]"] obtain q sent' where
    q: "paced_warm n (seq + 1) ?p (sent @ [?p]) = Returned (seq + 1 + of_nat n, q, (sent @ [?p]) @ sent')"
      "map (\<lambda>d. from_le_bytes (take SEQ_BYTES d) :: u64) sent' = map (\<lambda>i. seq + 1 + of_nat i) [0 ..< n]" by blast
  have "from_le_bytes (take SEQ_BYTES ?p) = seq"
    using from_to_le_bytes [of 8, where 'w = 64, of seq] len by (simp add: SEQ_BYTES_def)
  with p q show ?case
    by (intro exI [of _ q] exI [of _ "?p # sent'"]) (simp add: algebra_simps upt_conv_Cons map_Suc_upt [symmetric] del: upt_Suc)
qed simp

lemma paced_warm_short: "length payload < SEQ_BYTES \<Longrightarrow> paced_warm (Suc n) seq payload sent = Panicked"
  by (simp add: paced_stamp_def copy_into_def to_le_bytes_def SEQ_BYTES_def)

lemma paced_parts_keep:
  "pc_wake_ns (snd (paced_sequential xs st)) = pc_wake_ns (snd st)"
  "pc_burst_ns (snd (paced_sequential xs st)) = pc_burst_ns (snd st)"
  "pc_late_frames (snd (paced_sequential xs st)) = pc_late_frames (snd st)"
  "pc_wake_ns (paced_send ys l) = pc_wake_ns l"
  "pc_burst_ns (paced_send ys l) = pc_burst_ns l"
  "pc_late_frames (paced_send ys l) = pc_late_frames l"
  "pc_wake_ns (snd (paced_collect zs st)) = pc_wake_ns (snd st)"
  "pc_burst_ns (snd (paced_collect zs st)) = pc_burst_ns (snd st)"
  "pc_late_frames (snd (paced_collect zs st)) = pc_late_frames (snd st)"
  "pc_seq (snd (paced_collect zs st)) = pc_seq (snd st)"
proof -
  show "pc_wake_ns (snd (paced_sequential xs st)) = pc_wake_ns (snd st)"
    "pc_burst_ns (snd (paced_sequential xs st)) = pc_burst_ns (snd st)"
    "pc_late_frames (snd (paced_sequential xs st)) = pc_late_frames (snd st)"
    by (induction xs st rule: paced_sequential.induct) (auto simp: Let_def split: option.splits)
  show "pc_wake_ns (paced_send ys l) = pc_wake_ns l" "pc_burst_ns (paced_send ys l) = pc_burst_ns l"
    "pc_late_frames (paced_send ys l) = pc_late_frames l"
    by (induction ys l rule: paced_send.induct) (simp_all add: Let_def)
  show "pc_wake_ns (snd (paced_collect zs st)) = pc_wake_ns (snd st)"
    "pc_burst_ns (snd (paced_collect zs st)) = pc_burst_ns (snd st)"
    "pc_late_frames (snd (paced_collect zs st)) = pc_late_frames (snd st)"
    "pc_seq (snd (paced_collect zs st)) = pc_seq (snd st)"
    by (induction zs st rule: paced_collect.induct) (auto split: option.splits)
qed

lemma paced_seq_all_sent:
  "\<forall>x \<in> set xs. fst (fst x) \<Longrightarrow> pc_seq (snd (paced_sequential xs (n, l))) = pc_seq l + of_nat (length xs)"
  "\<forall>y \<in> set ys. fst y \<Longrightarrow> pc_seq (paced_send ys l) = pc_seq l + of_nat (length ys)"
proof -
  show "\<forall>x \<in> set xs. fst (fst x) \<Longrightarrow> pc_seq (snd (paced_sequential xs (n, l))) = pc_seq l + of_nat (length xs)"
  proof (induction xs arbitrary: n l)
    case (Cons x xs)
    then obtain t0 a where "x = ((True, t0), a)" by (cases x) auto
    with Cons show ?case by (cases a) (auto simp: Let_def)
  qed simp
  show "\<forall>y \<in> set ys. fst y \<Longrightarrow> pc_seq (paced_send ys l) = pc_seq l + of_nat (length ys)"
  proof (induction ys arbitrary: l)
    case (Cons y ys)
    then obtain t0 where "y = (True, t0)" by (cases y) auto
    with Cons show ?case by (simp add: Let_def)
  qed simp
qed

lemma paced_frame_effect:
  "pc_wake_ns (paced_frame sequential burst period x l) = pc_wake_ns l @ [elapsed_ns (fi_deadline x) (fi_woke x)]"
  "pc_burst_ns (paced_frame sequential burst period x l) = pc_burst_ns l @ [of_nat (fi_elapsed x)]"
  "pc_late_frames (paced_frame sequential burst period x l) = pc_late_frames l + (if period < fi_elapsed x then 1 else 0)"
  "frame_matched burst x (pc_seq l) \<Longrightarrow> pc_seq (paced_frame sequential burst period x l) = pc_seq l + of_nat burst"
proof -
  let ?l1 = "l\<lparr>pc_wake_ns := pc_wake_ns l @ [elapsed_ns (fi_deadline x) (fi_woke x)]\<rparr>"
  define r where "r = (if sequential
      then paced_sequential (map (\<lambda>i. (fi_send x i, fi_answer x i)) [0 ..< burst]) (0, ?l1)
      else paced_collect (map (fi_answer x) [0 ..< burst]) (0, paced_send (map (fi_send x) [0 ..< burst]) ?l1))"
  have R: "pc_wake_ns (snd r) = pc_wake_ns ?l1" "pc_burst_ns (snd r) = pc_burst_ns l" "pc_late_frames (snd r) = pc_late_frames l"
    by (simp_all add: r_def paced_parts_keep)
  have run: "paced_frame sequential burst period x l =
    (let l3 = (snd r)\<lparr>pc_burst_ns := pc_burst_ns (snd r) @ [of_nat (fi_elapsed x)]\<rparr>;
         l4 = (if period < fi_elapsed x then l3\<lparr>pc_late_frames := pc_late_frames l3 + 1\<rparr> else l3)
     in if fst r < burst then l4\<lparr>pc_lost := pc_lost l4 + of_nat (burst - fst r)\<rparr> else l4)"
    unfolding paced_frame_def r_def [symmetric] Let_def by (simp add: case_prod_beta)
  show "pc_wake_ns (paced_frame sequential burst period x l) = pc_wake_ns l @ [elapsed_ns (fi_deadline x) (fi_woke x)]"
    "pc_burst_ns (paced_frame sequential burst period x l) = pc_burst_ns l @ [of_nat (fi_elapsed x)]"
    "pc_late_frames (paced_frame sequential burst period x l) = pc_late_frames l + (if period < fi_elapsed x then 1 else 0)"
    by (simp_all add: run Let_def R)
  assume "frame_matched burst x (pc_seq l)"
  then have "\<forall>i < burst. fst (fi_send x i)" by (simp add: frame_matched_def)
  then have "pc_seq (snd r) = pc_seq l + of_nat burst"
    by (simp add: r_def paced_parts_keep paced_seq_all_sent)
  then show "pc_seq (paced_frame sequential burst period x l) = pc_seq l + of_nat burst"
    by (simp add: run Let_def)
qed

lemma paced_frame_grows: "length (pc_msg_ns l) \<le> length (pc_msg_ns (paced_frame sequential burst period x l))"
proof -
  let ?l1 = "l\<lparr>pc_wake_ns := pc_wake_ns l @ [elapsed_ns (fi_deadline x) (fi_woke x)]\<rparr>"
  obtain m l' where r: "(if sequential
      then paced_sequential (map (\<lambda>i. (fi_send x i, fi_answer x i)) [0 ..< burst]) (0, ?l1)
      else paced_collect (map (fi_answer x) [0 ..< burst]) (0, paced_send (map (fi_send x) [0 ..< burst]) ?l1)) = (m, l')"
    by fastforce
  have "length (pc_msg_ns l') = length (pc_msg_ns l) + m"
    using r paced_sequential_count [OF _ refl, of _ 0 ?l1 m l'] paced_collect_count [of _ 0 _ m l']
    by (auto simp: paced_send_same split: if_splits)
  moreover have "pc_msg_ns (paced_frame sequential burst period x l) = pc_msg_ns l'"
    using r by (simp add: paced_frame_def Let_def split: prod.splits)
  ultimately show ?thesis by simp
qed

text \<open>Every frame of a run is matched by its own replies.\<close>

fun frames_matched :: "nat \<Rightarrow> u64 \<Rightarrow> frame_input list \<Rightarrow> bool" where
  "frames_matched burst seq [] \<longleftrightarrow> True"
| "frames_matched burst seq (x # xs) \<longleftrightarrow> frame_matched burst x seq \<and> frames_matched burst (seq + of_nat burst) xs"

lemma paced_frames_effect:
  "length (pc_wake_ns (paced_frames sequential burst period scale start t xs l)) = length (pc_wake_ns l) + length xs \<and>
   pc_burst_ns (paced_frames sequential burst period scale start t xs l) =
     pc_burst_ns l @ map (\<lambda>x. of_nat (fi_elapsed x)) xs \<and>
   pc_late_frames (paced_frames sequential burst period scale start t xs l) =
     pc_late_frames l + of_nat (length (filter (\<lambda>x. period < fi_elapsed x) xs)) \<and>
   (\<exists>got \<le> burst * length xs. length (pc_msg_ns (paced_frames sequential burst period scale start t xs l)) =
       length (pc_msg_ns l) + got \<and>
     (frames_matched burst (pc_seq l) xs \<longrightarrow> pc_lost (paced_frames sequential burst period scale start t xs l) =
       pc_lost l + 2 * of_nat (burst * length xs - got)))"
proof (induction xs arbitrary: t l)
  case (Cons x xs)
  let ?x = "x\<lparr>fi_deadline := start + scale t\<rparr>"
  let ?l = "paced_frame sequential burst period ?x l"
  let ?g = "length (pc_msg_ns ?l) - length (pc_msg_ns l)"
  have m: "frame_matched burst ?x seq = frame_matched burst x seq" for seq by (simp add: frame_matched_def)
  have one: "?g \<le> burst" "frame_matched burst x (pc_seq l) \<Longrightarrow> pc_lost ?l = pc_lost l + 2 * of_nat (burst - ?g)"
    using paced_lost_bounds [where sequential = sequential and burst = burst and period = period and x = ?x and l = l] by (simp_all add: Let_def m)
  have grows: "length (pc_msg_ns ?l) = length (pc_msg_ns l) + ?g"
    using paced_frame_grows [where sequential = sequential and burst = burst and period = period and x = ?x and l = l] by simp
  let ?r = "paced_frames sequential burst period scale start (t + 1) xs ?l"
  note IH = Cons.IH [of "t + 1" ?l] and E = paced_frame_effect [where sequential = sequential and burst = burst and period = period and x = ?x and l = l]
  from IH obtain got where got: "got \<le> burst * length xs" "length (pc_msg_ns ?r) = length (pc_msg_ns ?l) + got"
    "frames_matched burst (pc_seq ?l) xs \<longrightarrow> pc_lost ?r = pc_lost ?l + 2 * of_nat (burst * length xs - got)" by auto
  have "burst * length (x # xs) - (?g + got) = (burst - ?g) + (burst * length xs - got)"
    using one(1) got(1) by simp
  then have sum: "(of_nat (burst * length (x # xs) - (?g + got)) :: u64) = of_nat (burst - ?g) + of_nat (burst * length xs - got)"
    by (simp only: of_nat_add)
  have "pc_lost ?r = pc_lost l + 2 * of_nat (burst * length (x # xs) - (?g + got))"
    if f: "frames_matched burst (pc_seq l) (x # xs)"
  proof -
    from f E(4) m have "frames_matched burst (pc_seq ?l) xs" "frame_matched burst x (pc_seq l)" by simp_all
    with got(3) one(2) show ?thesis unfolding sum by (simp add: algebra_simps)
  qed
  moreover have "?g + got \<le> burst * length (x # xs)" using one(1) got(1) by simp
  moreover have "length (pc_msg_ns ?r) = length (pc_msg_ns l) + (?g + got)" using got(2) grows by simp
  ultimately have "\<exists>got \<le> burst * length (x # xs). length (pc_msg_ns ?r) = length (pc_msg_ns l) + got \<and>
     (frames_matched burst (pc_seq l) (x # xs) \<longrightarrow> pc_lost ?r = pc_lost l + 2 * of_nat (burst * length (x # xs) - got))"
    by blast
  with IH E(1-3) show ?case by simp
qed simp

lemma timeline_warm_ok:
  "HDR \<le> length buf \<Longrightarrow> \<exists>q' b sent'. timeline_warm rounds q seq buf sent = Returned (q', seq + of_nat (length rounds), b, sent')"
proof (induction rounds arbitrary: q seq buf sent)
  case (Cons a rounds)
  then obtain b where b: "stamp_put 0 seq buf = Some b" using stamp_put_ok [of 0 buf seq] by (auto simp: HDR_def)
  with stamp_put_tail [OF b, of 8] Cons.prems have "HDR \<le> length b" by simp
  from Cons.IH [OF this, of "tl (q @ a)" "seq + 1" "sent @ [b]"] obtain q' c sent' where
    "timeline_warm rounds (tl (q @ a)) (seq + 1) b (sent @ [b]) = Returned (q', seq + 1 + of_nat (length rounds), c, sent')"
    by blast
  with b show ?case by (simp add: algebra_simps)
qed simp

lemma timeline_burst_length:
  "length (tl_total (snd (timeline_burst xs st))) \<le> length (tl_total (snd st)) + length xs"
proof (induction xs st rule: timeline_burst.induct)
  case (2 x xs q l)
  have "length (tl_total (timeline_record t0 t0b a l)) \<le> Suc (length (tl_total l))" for t0 t0b a
    by (auto simp: timeline_record_def Let_def split: option.splits prod.splits)
  from this [of "at_t0 x" "at_t0b x" None] this [of "at_t0 x" "at_t0b x" "Some (hd (q @ at_arrivals x))"] 2
  show ?case by (cases "q @ at_arrivals x") auto
qed simp

lemma timeline_frames_length:
  "length (tl_total (snd (timeline_frames bursts st))) \<le> length (tl_total (snd st)) + length (concat bursts)"
proof (induction bursts arbitrary: st)
  case (Cons b bursts)
  from Cons [of "timeline_burst b st"] timeline_burst_length [of b st] show ?case by (simp add: timeline_frames_def)
qed (simp add: timeline_frames_def)

lemma summary_exists:
  assumes "f64_law F le" and "samples \<noteq> []" "length samples < 2 ^ 53"
  shows "\<exists>st. paced_summarize F False samples = Some st" "\<exists>st. timeline_summarize F False samples = Some st"
  using summaries_agree [OF assms(1,3), of False] assms(2) by (simp_all add: mean_micros_def sum_samples_def)

section \<open>Properties\<close>

text \<open>The account of a whole run. With room for the sequence number the warm-up cannot fail, and
  then every frame has one wake delay and one burst time, a frame is late exactly when it took
  longer than the period, there are at most as many round trips as messages, and, when the frames
  saw nothing but their own replies, \<^verbatim>\<open>lost\<close> is twice the number of messages without one.\<close>

lemma paced_run_account:
  "case paced_run sequential burst period scale start payload xs of
     Panicked \<Rightarrow> length payload < SEQ_BYTES
   | Returned l \<Rightarrow> length (pc_wake_ns l) = length xs \<and> pc_burst_ns l = map (\<lambda>x. of_nat (fi_elapsed x)) xs \<and>
       pc_late_frames l = of_nat (length (filter (\<lambda>x. period < fi_elapsed x) xs)) \<and>
       length (pc_msg_ns l) \<le> burst * length xs \<and>
       (frames_matched burst 200 xs \<longrightarrow> pc_lost l = 2 * of_nat (burst * length xs - length (pc_msg_ns l)))"
proof (cases "SEQ_BYTES \<le> length payload")
  case True
  from paced_warm_ok [OF this, of 200 0 "[]"] obtain p sent where "paced_warm 200 0 payload [] = Returned (200, p, sent)" by auto
  then have run: "paced_run sequential burst period scale start payload xs =
      Returned (paced_frames sequential burst period scale start 0 xs (paced_log_new 200))"
    by (simp add: paced_run_def)
  from paced_frames_effect [where sequential = sequential and burst = burst and period = period and scale = scale
      and start = start and t = 0 and xs = xs and l = "paced_log_new 200"]
  show ?thesis unfolding run by (auto simp: paced_log_new_def)
next
  case False
  with paced_warm_short [of payload 199 0 "[]"] have "paced_warm 200 0 payload [] = Panicked" by simp
  with False show ?thesis by (simp add: paced_run_def)
qed

text \<open>No run ends in a panic of its report. In a release build, and for fewer than two to the
  53rd samples, the percentiles of the pacing program and of the section timer are never asked of
  an empty vector: whatever the frames saw, each has its summaries, or says that nothing came
  back, which it does exactly when no round trip was recorded.\<close>

theorem reports_never_panic:
  assumes "f64_law F le" and "length xs < 2 ^ 53" and "burst * length xs < 2 ^ 53"
    and "length (concat bursts) < 2 ^ 53" and "SEQ_BYTES \<le> length payload" and "HDR \<le> length buf"
  shows "(case paced_run sequential burst period scale start payload xs of Panicked \<Rightarrow> False
      | Returned l \<Rightarrow> (case paced_report F False l of None \<Rightarrow> False
          | Some r \<Rightarrow> r = None \<longleftrightarrow> pc_msg_ns l = [])) \<and>
    (case timeline_run rounds buf bursts of Panicked \<Rightarrow> False
      | Returned l \<Rightarrow> (case timeline_report F False l of None \<Rightarrow> False
          | Some r \<Rightarrow> r = None \<longleftrightarrow> tl_total l = []))"
proof
  from paced_run_account [where sequential = sequential and burst = burst and period = period and scale = scale
      and start = start and payload = payload and xs = xs] assms(5)
  obtain l where l: "paced_run sequential burst period scale start payload xs = Returned l"
    "length (pc_wake_ns l) = length xs" "length (pc_burst_ns l) = length xs" "length (pc_msg_ns l) \<le> burst * length xs"
    by (cases "paced_run sequential burst period scale start payload xs") auto
  have "paced_report F False l \<noteq> None \<and> (paced_report F False l = Some None \<longleftrightarrow> pc_msg_ns l = [])"
  proof (cases "pc_msg_ns l = []")
    case False
    with l(4) have "xs \<noteq> []" by auto
    with l(2,3) have "pc_wake_ns l \<noteq> []" "pc_burst_ns l \<noteq> []" by auto
    with False summary_exists(1) [OF assms(1)] l assms(2,3) obtain a b c where
      "paced_summarize F False (pc_msg_ns l) = Some a" "paced_summarize F False (pc_burst_ns l) = Some b"
      "paced_summarize F False (pc_wake_ns l) = Some c" by (metis le_less_trans)
    with False show ?thesis by (simp add: paced_report_def)
  qed (simp add: paced_report_def)
  with l(1) show "case paced_run sequential burst period scale start payload xs of Panicked \<Rightarrow> False
      | Returned l \<Rightarrow> (case paced_report F False l of None \<Rightarrow> False | Some r \<Rightarrow> r = None \<longleftrightarrow> pc_msg_ns l = [])" by auto
next
  from timeline_warm_ok [OF assms(6), of rounds "[]" 0 "[]"] obtain q b sent where
    w: "timeline_warm rounds [] 0 buf [] = Returned (q, of_nat (length rounds), b, sent)" by auto
  obtain q' l where f: "timeline_frames bursts ([], timeline_log_new (of_nat (length rounds))) = (q', l)" by fastforce
  have ok: "sections_ok l" using timeline_sections_sum [where s = "of_nat (length rounds)" and bursts = bursts] f by simp
  have "length (tl_total l) \<le> length (concat bursts)"
    using timeline_frames_length [where st = "([], timeline_log_new (of_nat (length rounds)))" and bursts = bursts] f
    by (simp add: timeline_log_new_def)
  with assms(4) have n: "length (tl_total l) < 2 ^ 53" by simp
  have "timeline_report F False l \<noteq> None \<and> (timeline_report F False l = Some None \<longleftrightarrow> tl_total l = [])"
  proof (cases "tl_total l = []")
    case False
    have some: "\<exists>st. timeline_summarize F False ss = Some st" if "length ss = length (tl_total l)" for ss
      by (rule summary_exists(2) [OF assms(1)]) (use that False n in auto)
    from ok have len: "length (tl_a l) = length (tl_total l)" "length (tl_b l) = length (tl_total l)"
      "length (tl_c l) = length (tl_total l)" "length (tl_d l) = length (tl_total l)" by (simp_all add: sections_ok_def)
    from some [OF refl] some [OF len(1)] some [OF len(2)] some [OF len(3)] some [OF len(4)] False
    show ?thesis by (auto simp: timeline_report_def)
  qed (simp add: timeline_report_def)
  then show "case timeline_run rounds buf bursts of Panicked \<Rightarrow> False
      | Returned l \<Rightarrow> (case timeline_report F False l of None \<Rightarrow> False | Some r \<Rightarrow> r = None \<longleftrightarrow> tl_total l = [])"
    using w f by (auto simp: timeline_run_def)
qed

theorem reports_never_panic_witness:
  "case paced_run False 2 100 (\<lambda>t. 100 * t) 0 (replicate 8 0) [\<lparr>fi_deadline = 0, fi_woke = 3, fi_send = (\<lambda>i. (True, 5)),
       fi_answer = (\<lambda>i. None), fi_elapsed = 150\<rparr>] of Panicked \<Rightarrow> False
   | Returned l \<Rightarrow> (case paced_report exact_f64 False l of None \<Rightarrow> False | Some r \<Rightarrow> r = None \<longleftrightarrow> pc_msg_ns l = [])"
  using reports_never_panic [OF exact_law, where burst = 2 and bursts = "[]" and payload = "replicate 8 0" and buf = "replicate 24 0"
      and xs = "[\<lparr>fi_deadline = 0, fi_woke = 3, fi_send = (\<lambda>i. (True, 5)), fi_answer = (\<lambda>i. None), fi_elapsed = 150\<rparr>]"
      and sequential = False and period = 100 and scale = "\<lambda>t. 100 * t" and start = 0]
  by (simp add: SEQ_BYTES_def HDR_def)

end
