(* ===== verification/Ipc_Serve.thy ===== *)
theory Ipc_Serve
  imports Ipc_Fdcost Ipc_Binding_Props Ipc_Node Ipc_Cli
begin

text \<open>
  How the programs of \<^verbatim>\<open>examples/\<close> begin to serve, a node bound at a path, and the round trips over
  a bare socket that \<^verbatim>\<open>fdcost.rs\<close> and \<^verbatim>\<open>bench.rs\<close> time as their floor. The sockets of the
  \<^verbatim>\<open>tokio-seqpacket\<close> crate are a parameter.
\<close>

section \<open>Beginning to serve\<close>

datatype 'n serving = Serving "'n node" ref_fs_binding | ServingInUse | ServingPanicked

text \<open>\<^verbatim>\<open>server_main\<close> of the benchmarks, up to where it waits to be killed: both steps are expected
  to succeed.\<close>

definition server_main ::
  "bool \<Rightarrow> 'n notify \<Rightarrow> ('m fsys_scheme) net \<Rightarrow> nat option \<Rightarrow> addr \<Rightarrow> addr \<Rightarrow> path \<Rightarrow>
   'o caps \<times> locals \<times> 'm fsys_scheme \<Rightarrow> 'n serving \<times> 'o caps \<times> locals \<times> 'm fsys_scheme" where
  "server_main feature T N rt a h p st =
     (case node_new feature T N rt a h st of
        (Inl e, st1) \<Rightarrow> (ServingPanicked, st1)
      | (Inr (node, r), (c, l, k)) \<Rightarrow>
          (case binding_new N r p k of
             (Inl e, k1) \<Rightarrow> (ServingPanicked, (c, l, k1))
           | (Inr b, k1) \<Rightarrow> (Serving node b, (c, l, k1))))"

text \<open>\<^verbatim>\<open>bound_server.rs\<close>: a path in use is reported as such and ends the process, any other error is
  a panic.\<close>

definition bound_server_main ::
  "bool \<Rightarrow> 'n notify \<Rightarrow> ('m fsys_scheme) net \<Rightarrow> nat option \<Rightarrow> addr \<Rightarrow> addr \<Rightarrow> path \<Rightarrow>
   'o caps \<times> locals \<times> 'm fsys_scheme \<Rightarrow> 'n serving \<times> 'o caps \<times> locals \<times> 'm fsys_scheme" where
  "bound_server_main feature T N rt a h p st =
     (case node_new feature T N rt a h st of
        (Inl e, st1) \<Rightarrow> (ServingPanicked, st1)
      | (Inr (node, r), (c, l, k)) \<Rightarrow>
          (case binding_new N r p k of
             (Inl e, k1) \<Rightarrow> (if io_error_kind e = AddrInUse then ServingInUse else ServingPanicked, (c, l, k1))
           | (Inr b, k1) \<Rightarrow> (Serving node b, (c, l, k1))))"

text \<open>\<^verbatim>\<open>main\<close> of \<^verbatim>\<open>bench.rs\<close>: both processes take the descriptor limit from the command line, the
  child from the copy it is given.\<close>

definition bench_fd_limit :: "string list \<Rightarrow> u64 option" where
  "bench_fd_limit args = Option.bind (arg_after ''--fd-limit'' args) parse_u64"

definition bench_main :: "(u64 \<Rightarrow> 'k \<Rightarrow> 'k) \<Rightarrow> string list \<Rightarrow> 'k \<Rightarrow> cli_mode \<times> 'k" where
  "bench_main set_limit args k =
     (server_mode args, case bench_fd_limit args of None \<Rightarrow> k | Some n \<Rightarrow> set_limit n k)"

definition bench_child :: "string \<Rightarrow> string \<Rightarrow> string list \<Rightarrow> string list" where
  "bench_child exe path args =
     [exe, ''--server'', path] @ (case arg_after ''--fd-limit'' args of None \<Rightarrow> [] | Some n \<Rightarrow> [''--fd-limit'', n])"

section \<open>Round trips over a bare socket\<close>

text \<open>
  Sending with descriptors, and whether the ancillary buffer of a given size takes them; every
  failure is unwrapped.
\<close>

record 'k raw_fd_socket = "'k raw_socket" +
  rk_fits :: "nat \<Rightarrow> fd list \<Rightarrow> bool"
  rk_send_fds :: "u8 list \<Rightarrow> fd list \<Rightarrow> (unit, 'k) io"

definition raw_trip_send :: "'k raw_fd_socket \<Rightarrow> nat \<Rightarrow> fd option \<Rightarrow> u8 list \<Rightarrow> 'k \<Rightarrow> unit outcome \<times> 'k" where
  "raw_trip_send S space spare data k =
     (case spare of
        None \<Rightarrow> (case rk_send S data k of (Inl _, k1) \<Rightarrow> (Panicked, k1) | (Inr _, k1) \<Rightarrow> (Returned (), k1))
      | Some d \<Rightarrow>
          (if \<not> rk_fits S space [d] then (Panicked, k)
           else (case rk_send_fds S data [d] k of (Inl _, k1) \<Rightarrow> (Panicked, k1) | (Inr _, k1) \<Rightarrow> (Returned (), k1))))"

definition raw_trip ::
  "'k raw_fd_socket \<Rightarrow> nat \<Rightarrow> fd option \<Rightarrow> u8 list \<Rightarrow> u8 list \<Rightarrow> 'k \<Rightarrow> u8 list outcome \<times> 'k" where
  "raw_trip S space spare data buf k =
     (case raw_trip_send S space spare data k of
        (Panicked, k1) \<Rightarrow> (Panicked, k1)
      | (Returned _, k1) \<Rightarrow>
          (case rk_recv S (length buf) k1 of
             (Inl _, k2) \<Rightarrow> (Panicked, k2)
           | (Inr got, k2) \<Rightarrow> (Returned (overwrite got buf), k2)))"

text \<open>
  A row of round trips, with what happens before each and the nanoseconds it took: the samples
  and the buffer.
\<close>

fun raw_trips ::
  "'k raw_fd_socket \<Rightarrow> nat \<Rightarrow> fd option \<Rightarrow> u8 list \<Rightarrow> (('k \<Rightarrow> 'k) \<times> u64) list \<Rightarrow> u8 list \<Rightarrow> u64 list \<Rightarrow> 'k \<Rightarrow>
   (u64 list \<times> u8 list) outcome \<times> 'k" where
  "raw_trips S space spare data [] buf samples k = (Returned (samples, buf), k)"
| "raw_trips S space spare data ((world, ns) # ts) buf samples k =
     (case raw_trip S space spare data buf (world k) of
        (Panicked, k1) \<Rightarrow> (Panicked, k1)
      | (Returned buf1, k1) \<Rightarrow> raw_trips S space spare data ts buf1 (samples @ [ns]) k1)"

definition timed_row ::
  "'k raw_fd_socket \<Rightarrow> nat \<Rightarrow> fd option \<Rightarrow> nat \<Rightarrow> nat \<Rightarrow> nat \<Rightarrow> (nat \<Rightarrow> ('k \<Rightarrow> 'k) \<times> u64) \<Rightarrow> (nat \<Rightarrow> ('k \<Rightarrow> 'k) \<times> u64) \<Rightarrow>
   u8 list \<Rightarrow> 'k \<Rightarrow> (u64 list \<times> u8 list) outcome \<times> 'k" where
  "timed_row S space spare payload warmup iters warm timed buf k =
     (let data = replicate payload 0x41
      in case raw_trips S space spare data (map warm [0 ..< warmup]) buf [] k of
           (Panicked, k1) \<Rightarrow> (Panicked, k1)
         | (Returned (_, buf1), k1) \<Rightarrow> raw_trips S space spare data (map timed [0 ..< iters]) buf1 [] k1)"

text \<open>\<^verbatim>\<open>rung_tokio_raw\<close>, up to the samples it summarises, and one payload of the baseline of
  \<^verbatim>\<open>bench.rs\<close>.\<close>

definition rung_tokio_raw ::
  "'k raw_fd_socket \<Rightarrow> nat \<Rightarrow> fd \<Rightarrow> nat \<Rightarrow> bool \<Rightarrow> (nat \<Rightarrow> ('k \<Rightarrow> 'k) \<times> u64) \<Rightarrow> (nat \<Rightarrow> ('k \<Rightarrow> 'k) \<times> u64) \<Rightarrow>
   'k \<Rightarrow> (u64 list \<times> u8 list) outcome \<times> 'k" where
  "rung_tokio_raw S space spare payload with_fd warm timed =
     timed_row S space (if with_fd then Some spare else None) payload WARMUP ITERS warm timed (replicate 65536 0)"

definition bench_baseline_row ::
  "'k raw_fd_socket \<Rightarrow> nat \<Rightarrow> (nat \<Rightarrow> ('k \<Rightarrow> 'k) \<times> u64) \<Rightarrow> (nat \<Rightarrow> ('k \<Rightarrow> 'k) \<times> u64) \<Rightarrow> u8 list \<Rightarrow>
   'k \<Rightarrow> (u64 list \<times> u8 list) outcome \<times> 'k" where
  "bench_baseline_row S payload warm timed = timed_row S 0 None payload 1000 20000 warm timed"

section \<open>Lemmas\<close>

text \<open>A row that returns has a sample for every timed round trip, in order.\<close>

lemma raw_trips_samples:
  "raw_trips S space spare data ts buf samples k = (Returned (samples', buf'), k') \<Longrightarrow> samples' = samples @ map snd ts"
proof (induction ts arbitrary: buf samples k)
  case (Cons t ts)
  obtain w ns where t: "t = (w, ns)" by fastforce
  with Cons.prems obtain buf1 k1 where "raw_trips S space spare data ts buf1 (samples @ [ns]) k1 = (Returned (samples', buf'), k')"
    by (auto split: prod.splits outcome.splits)
  from Cons.IH [OF this] t show ?case by simp
qed simp

lemma rung_tokio_raw_samples:
  "rung_tokio_raw S space spare payload with_fd warm timed k = (Returned (samples, buf), k') \<Longrightarrow>
   samples = map (\<lambda>i. snd (timed i)) [0 ..< ITERS]"
  using raw_trips_samples [of S space _ "replicate payload 0x41" "map timed [0 ..< ITERS]" _ "[]"]
  by (fastforce simp: rung_tokio_raw_def timed_row_def Let_def comp_def split: prod.splits outcome.splits)

text \<open>
  The message of \<^verbatim>\<open>bound_server\<close> blames another server for a path it may not write to, and advises
  to remove a stale socket file, which is never the cause: it is replaced.
\<close>

lemma unwritable_path_reads_as_in_use:
  assumes "node_new feature T N rt a h st = (Inr (node, r), (c, l, k))" and "lock_path p \<in> fs_denied k"
  shows "fst (bound_server_main feature T N rt a h p st) = ServingInUse"
  using assms by (simp add: bound_server_main_def binding_new_def acquire_lock_def file_create_def)

text \<open>The child of the benchmark serves at the path it is given, under the same limit.\<close>

lemma bench_child_same_limit:
  assumes "exe \<noteq> ''--fd-limit''" and "exe \<noteq> ''--server''" and "path \<noteq> ''--fd-limit''"
  shows "bench_main set_limit (bench_child exe path args) k = (CliServer path, snd (bench_main set_limit args k))"
  using assms
  by (auto simp: bench_main_def bench_child_def bench_fd_limit_def server_mode_def cli_flag_def split: option.splits)

end
