(* ===== verification/Spec2Isabelle.thy ===== *)
theory Spec2Isabelle
  imports Ipc_End_To_End Ipc_Registry_Props Ipc_Binding_Props Ipc_Ordering Ipc_Connect
    Ipc_Echo_Text Ipc_Timeline Ipc_Paced Ipc_Proc Ipc_Bench
    Ipc_Rendezvous Ipc_Backpressure Ipc_Loop Ipc_Watch Ipc_Lifetime Ipc_Fdcost Ipc_Cli Ipc_Ref_Tests Ipc_Attach
    Ipc_Transfer Ipc_Authority Ipc_Stats Ipc_Frames Ipc_Serve
begin

text \<open>
  strong-ipc passes messages and capabilities between processes over Unix \<^verbatim>\<open>SOCK_SEQPACKET\<close>
  sockets. A \<^emph>\<open>node\<close> owns one end of a socket pair and a task that receives datagrams and calls a
  handler; a \<^emph>\<open>reference\<close> (\<^verbatim>\<open>Ref\<close>) is the other end, and sends; a reference can ride on a message
  as a descriptor, which is how authority is handed on. This development models the crate
  (\<^verbatim>\<open>src/src\<close>) and the programs over it (\<^verbatim>\<open>src/examples\<close>) and proves what makes them correct.

  \<^bold>\<open>How code becomes definitions.\<close> A struct is a \<^theory_text>\<open>record\<close>, an enum a \<^theory_text>\<open>datatype\<close>, a machine
  integer a word; an operation is a function of the state it is passed, and returns it
  updated; errors, panics and a future that is still pending are values of its result. A call
  that several threads can interleave is a step function over a program counter, one step per
  access to shared state, and an inductive relation over the steps of all threads.

  \<^bold>\<open>What is a parameter.\<close> The kernel with rustix and the reactor is the record \<^verbatim>\<open>net\<close> of the
  calls the crate makes on an abstract kernel state; tokio's bounded channel is \<^verbatim>\<open>mpsc\<close>, its
  \<^verbatim>\<open>Notify\<close> is \<^verbatim>\<open>notify\<close>; the application's handler is a function; double-precision arithmetic is the record \<^verbatim>\<open>f64_ops\<close>. What a theorem needs of them is
  a named law over them (\<^verbatim>\<open>anc_law\<close>, \<^verbatim>\<open>rlimit_law\<close>, \<^verbatim>\<open>descriptor_law\<close>, \<^verbatim>\<open>receive_law\<close>,
  \<^verbatim>\<open>pair_law\<close>, \<^verbatim>\<open>seqpacket_law\<close>, \<^verbatim>\<open>connected_law\<close>, \<^verbatim>\<open>identity_law\<close>, \<^verbatim>\<open>sending_law\<close>, \<^verbatim>\<open>fs_law\<close>, \<^verbatim>\<open>queue_law\<close>, \<^verbatim>\<open>datagram_law\<close>,
  \<^verbatim>\<open>shape_law\<close>, \<^verbatim>\<open>poll_law\<close>, \<^verbatim>\<open>hangup_law\<close>, \<^verbatim>\<open>mpsc_law\<close>, \<^verbatim>\<open>granting\<close>, \<^verbatim>\<open>notify_law\<close>, \<^verbatim>\<open>f64_law\<close>), each with a small instance that satisfies it and on which the witnesses
  compute.

  \<^bold>\<open>The theories\<close>, in the order of the code they model.

  \<^item> \<^verbatim>\<open>Ipc_Prelude\<close>: machine types, errors of the standard library, decimals, lists tagged with
    their sender, and the locale \<^verbatim>\<open>state_machine\<close> by which every step relation here proves an
    invariant. \<^verbatim>\<open>Ipc_Ref\<close>, \<^verbatim>\<open>Ipc_Message\<close>, \<^verbatim>\<open>Ipc_Error\<close>: the allocation behind a \<^verbatim>\<open>Ref\<close> with its
    counts, \<^verbatim>\<open>message.rs\<close>, \<^verbatim>\<open>error.rs\<close>.
  \<^item> \<^verbatim>\<open>Ipc_Wire\<close>, \<^verbatim>\<open>Ipc_Wire_Laws\<close>: \<^verbatim>\<open>wire.rs\<close>. One send is one \<^verbatim>\<open>sendmsg\<close>; the retry loop of
    \<^verbatim>\<open>Reactive\<close> is parked exactly while the kernel says so; limits; no leak on a failed bind.
  \<^item> \<^verbatim>\<open>Ipc_Outbox\<close>, \<^verbatim>\<open>Ipc_Send\<close>, \<^verbatim>\<open>Ipc_Order\<close> and their \<^verbatim>\<open>Props\<close>: \<^verbatim>\<open>outbox.rs\<close> and the sends of
    \<^verbatim>\<open>capability.rs\<close>. The two tiers (inline \<^verbatim>\<open>sendmsg\<close> and queue) with their drain task, once as
    whole calls and once as the machine of any number of threads: order per sender, an exact
    and bounded pending count, delivery after the last drop, hand-back of refused messages, and
    what a failed drain task leaves. The whole call is a run of its steps. \<^verbatim>\<open>Ipc_Backpressure\<close>:
    the drain task catches up, and a \<^verbatim>\<open>send\<close> that waits for room gets its message onto the wire.
  \<^item> \<^verbatim>\<open>Ipc_Registry\<close>, \<^verbatim>\<open>Ipc_Registry_Machine\<close>, \<^verbatim>\<open>Ipc_Registry_Props\<close>: \<^verbatim>\<open>REFS\<close>, \<^verbatim>\<open>from_fd\<close> and the
    drop of a \<^verbatim>\<open>RefInner\<close> in three interleavable steps. A registry is exact, and \<^verbatim>\<open>is_same\<close> is
    sameness of sockets. The locale \<^verbatim>\<open>weak_registry\<close> is the contract \<^verbatim>\<open>REFS\<close> and \<^verbatim>\<open>LOCALS\<close> share.
    \<^verbatim>\<open>Ipc_Connect\<close>: \<^verbatim>\<open>connect\<close> leaks nothing, the accept task, and the bound of the backlog.
    \<^verbatim>\<open>Ipc_Rendezvous\<close>: \<^verbatim>\<open>connect\<close> against the accept task of a binding in one process, which must
    end at the very \<^verbatim>\<open>Ref\<close> that was bound. \<^verbatim>\<open>Ipc_Watch\<close>: \<^verbatim>\<open>death_notification\<close> in any number of
    tasks that race for the one watch, step by step; what it pays for and when it returns.
    \<^verbatim>\<open>Ipc_Ref_Tests\<close>: the unit tests of \<^verbatim>\<open>capability.rs\<close>, run on every kernel at once.
  \<^item> \<^verbatim>\<open>Ipc_Binding\<close>, \<^verbatim>\<open>Ipc_Binding_Props\<close>: \<^verbatim>\<open>RefFsBinding\<close> with its lock file, whole and step by
    step: who holds a path, stale paths, and the window that \<^verbatim>\<open>drop\<close> leaves open.
  \<^item> \<^verbatim>\<open>Ipc_Local\<close>: \<^verbatim>\<open>local.rs\<close>. \<^verbatim>\<open>Ipc_Death\<close>: \<^verbatim>\<open>death.rs\<close>, a latch without lost wakeups.
    \<^verbatim>\<open>Ipc_Node\<close>, \<^verbatim>\<open>Ipc_Node_Props\<close>: \<^verbatim>\<open>node.rs\<close>, the receive loop and the life of a node.
    \<^verbatim>\<open>Ipc_Loop\<close>: the receive loop against a peer that sends whatever it likes.
    \<^verbatim>\<open>Ipc_Lifetime\<close>: the machine of references, the drop of a \<^verbatim>\<open>Ref\<close>, the receive loop and the
    machine of a node together: a node ends with its last reference, and not before. \<^verbatim>\<open>Ipc_Attach\<close>:
    the drop of a message, which undoes the attaching.
    \<^verbatim>\<open>Ipc_End_To_End\<close>: \<^verbatim>\<open>send_now\<close> at one end and the receive loop at the other. \<^verbatim>\<open>Ipc_Transfer\<close>:
    references on messages, through the receive loop and back into the registry: the same
    references arrive, in order (\<^verbatim>\<open>tests/identity.rs\<close>). \<^verbatim>\<open>Ipc_Authority\<close>: whoever sent them,
    the references of a datagram lead to the sockets that were attached.
  \<^item> \<^verbatim>\<open>Ipc_Bytes\<close>, \<^verbatim>\<open>Ipc_Ordering\<close>: \<^verbatim>\<open>examples/ordering.rs\<close>; its verdict is exact about what it
    checks, and the library passes it. \<^verbatim>\<open>Ipc_Echo\<close>, \<^verbatim>\<open>Ipc_Echo_Props\<close>, \<^verbatim>\<open>Ipc_Echo_Text\<close>: the
    handlers of all echo servers; the cached ones keep exactly one capability, each of their
    calls is a run of the machine of references, and one of the others can be ended by a client. \<^verbatim>\<open>Ipc_Timeline\<close>, \<^verbatim>\<open>Ipc_Paced\<close>, \<^verbatim>\<open>Ipc_Bench\<close>, \<^verbatim>\<open>Ipc_Proc\<close>: the measuring
    programs, as far as they are not timing and printing: stamps that survive the round trip,
    sections that add up, what happens to the count after a late reply, the watchdog and the
    readings of \<^verbatim>\<open>/proc\<close>, for which the clock and the files are inputs. \<^verbatim>\<open>Ipc_Measure\<close>, \<^verbatim>\<open>Ipc_Fdcost\<close>:
    the phases of the benchmark's client and the rungs of \<^verbatim>\<open>fdcost.rs\<close>, one turn per iteration;
    \<^verbatim>\<open>Ipc_Cli\<close>: command lines and dumps. \<^verbatim>\<open>Ipc_Stats\<close>: percentiles, histogram and meters over an
    abstract double-precision arithmetic, with exact rationals as the instance that satisfies
    the laws. \<^verbatim>\<open>Ipc_Frames\<close>: whole runs of \<^verbatim>\<open>paced.rs\<close> and \<^verbatim>\<open>timeline.rs\<close> with their warm-up and
    reports. \<^verbatim>\<open>Ipc_Serve\<close>: how the servers start, and the rows over a bare socket.

  \<^bold>\<open>Bounds and fuel.\<close> Loops that wait take the list of their wake-ups, and are pending when it
  is used up; a claim that they return says how many are enough. \<^verbatim>\<open>try_send\<close> is at most seven
  steps and \<^verbatim>\<open>wait\<close> four; the drain task needs four per queued message and four more; retrying
  a connection ends after 251 attempts 20 ms apart; a phase of the benchmark is pending when its
  turns are used up. Counters do not wrap below 2^64 - 10
  threads, the one assumption made about their number.

  \<^bold>\<open>Simplifications.\<close> Atomics, mutexes and the shards of the map are in one total order: the
  code's relaxed orderings are not distinguished. Files and locks are those of one host.
  The outcome of a \<^verbatim>\<open>debug_assert\<close> is kept under a flag. The scheduler of the runtime is any
  interleaving; fairness is only assumed where a theorem names the steps it needs.

  \<^bold>\<open>Not modelled.\<close> \<^verbatim>\<open>lib.rs\<close> (re-exports and a test of sizes in memory), and of the examples the
  order in which \<^verbatim>\<open>main\<close> drives the phases, process control (fork, spawn, kill, sleep) and
  printing: they compute nothing the library relies on. What
  a message carries is given back when it is dropped (\<^verbatim>\<open>Ipc_Attach\<close>), which is not a step of the
  sends: the phases of the benchmark leave the counts as they are.
\<close>

section \<open>From one end to the other\<close>

text \<open>C8: what is sent is what is handled. Whatever non-empty messages within the limit are sent
  on one end, through the one \<^verbatim>\<open>send_now\<close> of both tiers, the handler at the other end is called
  with exactly their payloads and as many descriptors as each had attached, in the order they
  were sent, unless one of its calls panics; an empty message would end the loop, and a longer one is refused
  by \<^verbatim>\<open>try_send\<close>.\<close>

theorem sent_is_handled:
  assumes "connected_law N tx q hung" and "seqpacket_law N rx q hung" and "hands_off rx q hung H"
    and "q k = []" and "send_all N borrow tx ms k = Some k1"
    and "\<forall>m \<in> set ms. message_data m \<noteq> [] \<and> length (message_data m) \<le> MAX_MESSAGE_SIZE"
    and "\<forall>ws \<in> set rounds. quiet q hung ws" and "length ms < length rounds"
    and "recv_loop_start debug N H rx rounds s k1 = (calls, e, s', k2)"
  shows "if e = Some LoopPanicked then \<exists>c \<in> set calls. panics_on H c
    else map call_datagram calls = map (\<lambda>m. (message_data m, length (message_fds m))) ms"
  using assms by (rule send_all_handled)

theorem sent_is_handled_witness:
  "map call_datagram (fst (recv_loop_start True sample_net scribbler 0
     [[Inr id], [Inr id], [Inr id]] 0
     (the (send_all sample_net (\<lambda>r. r) 3 [plain 4, add_fd 2 (plain 5)] sample_kernel)))) =
   [([4], 0), ([5], 1)]"
proof -
  let ?k = "sample_kernel\<lparr>sk_queue := [([4], []), ([5], [2])]\<rparr>"
  let ?ms = "[plain 4, add_fd 2 (plain 5)]"
  have sent: "send_all sample_net (\<lambda>r. r) 3 ?ms sample_kernel = Some ?k"
    by (simp add: send_now_def sample_defs io_defs plain_def message_defs MAX_FDS_def Let_def
        EXPECTED_FDS_def EXPECTED_ANCILLARY_BUFFER_SIZE_def)
  have quiet: "\<forall>ws \<in> set [[Inr id], [Inr id], [Inr id]]. quiet sample_waiting sk_gone ws"
    by (simp add: quiet_def)
  obtain calls e s k2 where run: "recv_loop_start True sample_net scribbler 0
      [[Inr id], [Inr id], [Inr id]] 0 ?k = (calls, e, s, k2)" by (metis prod.exhaust)
  have ok: "\<forall>m \<in> set ?ms. message_data m \<noteq> [] \<and> length (message_data m) \<le> MAX_MESSAGE_SIZE"
    by (simp add: plain_def message_defs MAX_MESSAGE_SIZE_def)
  from sent_is_handled [OF sample_connected_law sample_seqpacket_law scribbler_hands_off _ sent ok quiet _ run]
    sent run show ?thesis
    by (simp add: plain_def message_defs sample_kernel_def sample_waiting_def scribbler_never_panics
        split: if_splits)
qed

end
